(* ===== verification/Prelude.thy ===== *)
theory Prelude
  imports Main "HOL-Library.Word" "HOL-Library.Multiset" "HOL-Library.Sublist"
begin

text \<open>
  Shared vocabulary of the development: the machine types of the C++ sources,
  the errno values they mention, the exceptions they throw, and the generic list
  lemmas every component uses. The collection \<open>io_simps\<close> gathers the
  equations that unfold the I/O models on concrete states.
\<close>

named_theorems io_simps "equations that evaluate the I/O models"

subsection \<open>Machine types\<close>

type_synonym byte = "8 word"
type_synonym u8 = "8 word"
type_synonym u16 = "16 word"
type_synonym u32 = "32 word"
type_synonym u64 = "64 word"
  \<comment> \<open>\<open>int64_t\<close> is the same 64 bits read with \<open>sint\<close>\<close>
type_synonym i64 = "64 word"

type_synonym errno = int
type_synonym fd = int

subsection \<open>Linux errno values named by the sources\<close>

definition EINTR :: errno where [io_simps]: "EINTR = 4"
definition EAGAIN :: errno where [io_simps]: "EAGAIN = 11"
definition ENOMEM :: errno where [io_simps]: "ENOMEM = 12"
definition EINVAL :: errno where [io_simps]: "EINVAL = 22"
definition ETIME :: errno where [io_simps]: "ETIME = 62"
definition EMSGSIZE :: errno where [io_simps]: "EMSGSIZE = 90"
definition ECONNRESET :: errno where [io_simps]: "ECONNRESET = 104"
definition ENOBUFS :: errno where [io_simps]: "ENOBUFS = 105"
definition EINPROGRESS :: errno where [io_simps]: "EINPROGRESS = 115"
definition ECANCELED :: errno where [io_simps]: "ECANCELED = 125"

subsection \<open>Exceptions\<close>

text \<open>
  The standard exceptions the sources throw. A fallible operation returns
  \<open>exn + 'a\<close>, with \<open>Inl\<close> for a throw.
\<close>

datatype exn =
    System_error errno
  | Runtime_error string
  | Invalid_argument string
  | Bad_alloc

subsection \<open>Lists of byte runs\<close>

lemma sum_list_length_concat: "sum_list (map length xss) = length (concat xss)"
  by (simp add: length_concat)

lemma concat_butlast_last:
  "xss \<noteq> [] \<Longrightarrow> concat (butlast xss) @ last xss = concat xss"
  by (metis append_butlast_last_id concat.simps concat_append self_append_conv)

lemma take_append_drop_drop:
  "m \<le> length xs \<Longrightarrow> take m xs @ take k (drop m xs) = take (m + k) xs"
  by (simp add: take_add)

lemma foldl_append_concat: "foldl (@) acc xss = acc @ concat xss"
  by (induction xss arbitrary: acc) auto

lemma drop_append_exact [simp]: "drop (length xs) (xs @ ys) = ys"
  by simp

lemma append_eq_prefix_take:
  "xs @ ys = zs \<Longrightarrow> take (length xs) zs = xs"
  by auto

subsection \<open>Ring indices\<close>

lemma ring_index_le:
  fixes a i j n :: nat
  assumes "(a + i) mod n = (a + j) mod n" and "i \<le> j" and "j < n"
  shows "i = j"
proof -
  have "n dvd (a + j) - (a + i)"
    using assms(1,2) by (metis add_le_mono le_refl mod_eq_dvd_iff_nat)
  with assms(2,3) show ?thesis
    by (metis diff_add_inverse2 add_diff_cancel_left diff_diff_cancel diff_is_0_eq diff_zero
        dvd_imp_le less_imp_diff_less linorder_not_le neq0_conv)
qed

lemma ring_index_inj:
  fixes a i j n :: nat
  assumes "(a + i) mod n = (a + j) mod n" and "i < n" and "j < n"
  shows "i = j"
  using assms ring_index_le [of a i n j] ring_index_le [of a j n i] by (cases "i \<le> j") auto

end
