(* ===== verification/Recv_Stream.thy ===== *)
theory Recv_Stream
  imports Prelude
begin

text \<open>
  The interface \<open>RecvStream\<close> of \<open>easyio/include/easyio/recv_stream.hpp\<close>:
  the chunk type, and what awaiting \<open>next_batch\<close> promises, as the locale
  \<open>recv_stream\<close>. The three backends (\<open>Libc_Recv_Stream\<close>,
  \<open>Uring_Recv_Stream\<close>, \<open>Uring_Single_Shot\<close>) interpret it on their own
  definitions and \<open>Framed_Reader\<close> is proved against it once.

  A stream value carries the backend's state together with what the kernel will still
  deliver on the socket. \<open>next_batch st cap m\<close> is \<open>co_await stream.next_batch(out, m)\<close>
  with \<open>out.size() = cap\<close>; \<open>None\<close> means that the coroutine is never resumed.
\<close>

subsection \<open>Definitions\<close>

record chunk =
  chunk_data :: "byte list"
  chunk_error :: int

definition data_chunk :: "byte list \<Rightarrow> chunk" where
  "data_chunk d = \<lparr>chunk_data = d, chunk_error = 0\<rparr>"

definition eof_chunk :: chunk where
  "eof_chunk = \<lparr>chunk_data = [], chunk_error = 0\<rparr>"

definition error_chunk :: "errno \<Rightarrow> chunk" where
  "error_chunk e = \<lparr>chunk_data = [], chunk_error = - e\<rparr>"

text \<open>How a stream ends: an orderly shutdown or an errno.\<close>

datatype stream_end = End_eof | End_error errno

definition end_chunk :: "stream_end \<Rightarrow> chunk" where
  "end_chunk e = (case e of End_eof \<Rightarrow> eof_chunk | End_error n \<Rightarrow> error_chunk n)"

text \<open>The bytes a list of chunks carries, and what makes a chunk list pure data.\<close>

definition batch_bytes :: "chunk list \<Rightarrow> byte list" where
  "batch_bytes cs = concat (map chunk_data cs)"

definition data_batch :: "chunk list \<Rightarrow> bool" where
  "data_batch cs \<longleftrightarrow> cs \<noteq> [] \<and> list_all (\<lambda>c. chunk_error c = 0 \<and> chunk_data c \<noteq> []) cs"

type_synonym 's next_batch = "'s \<Rightarrow> nat \<Rightarrow> nat \<Rightarrow> (chunk list \<times> 's) option"

text \<open>
  The loop of both ring-backed \<open>_take_batch\<close> implementations: pop pending
  (slot, length) pairs while fewer than \<open>cap\<close> chunks and fewer than \<open>m\<close>
  bytes were taken. Returns what was taken and what stays pending.
\<close>

fun drain_pending ::
  "nat \<Rightarrow> nat \<Rightarrow> nat \<Rightarrow> nat \<Rightarrow> (nat \<times> nat) list \<Rightarrow> (nat \<times> nat) list \<times> (nat \<times> nat) list" where
  "drain_pending cap m cnt bytes [] = ([], [])"
| "drain_pending cap m cnt bytes (p # ps) =
     (if cnt < cap \<and> bytes < m
      then (let (t, r) = drain_pending cap m (Suc cnt) (bytes + snd p) ps in (p # t, r))
      else ([], p # ps))"

text \<open>The span of the first \<open>snd p\<close> bytes of slot \<open>fst p\<close>.\<close>

definition slot_data :: "byte list list \<Rightarrow> nat \<times> nat \<Rightarrow> byte list" where
  "slot_data slots p = take (snd p) (slots ! fst p)"

subsection \<open>Chunks\<close>

lemma data_chunk_sel [simp]:
  "chunk_data (data_chunk d) = d" "chunk_error (data_chunk d) = 0"
  by (simp_all add: data_chunk_def)

lemma eof_chunk_sel [simp]: "chunk_data eof_chunk = []" "chunk_error eof_chunk = 0"
  by (simp_all add: eof_chunk_def)

lemma error_chunk_sel [simp]: "chunk_data (error_chunk e) = []" "chunk_error (error_chunk e) = - e"
  by (simp_all add: error_chunk_def)

lemma batch_bytes_simps [simp]:
  "batch_bytes [] = []"
  "batch_bytes (c # cs) = chunk_data c @ batch_bytes cs"
  "batch_bytes (as @ bs) = batch_bytes as @ batch_bytes bs"
  by (simp_all add: batch_bytes_def)

lemma data_batch_Cons:
  "data_batch (c # cs) \<longleftrightarrow>
     chunk_error c = 0 \<and> chunk_data c \<noteq> [] \<and> (cs = [] \<or> data_batch cs)"
  by (auto simp: data_batch_def)

lemma data_batch_nonempty: "data_batch cs \<Longrightarrow> 0 < length (batch_bytes cs)"
  by (cases cs) (auto simp: data_batch_Cons data_batch_def)

lemma batch_bytes_data_chunks [simp]:
  "batch_bytes (map (\<lambda>p. data_chunk (f p)) ps) = concat (map f ps)"
  by (induction ps) auto

subsection \<open>Draining pending chunks\<close>

lemma drain_pending_append:
  "drain_pending cap m c b ps = (t, r) \<Longrightarrow> t @ r = ps"
  by (induction ps arbitrary: c b t) (auto split: if_splits prod.splits)

lemma drain_pending_length:
  "drain_pending cap m c b ps = (t, r) \<Longrightarrow> c \<le> cap \<Longrightarrow> c + length t \<le> cap"
proof (induction ps arbitrary: c b t)
  case Nil
  then show ?case by simp
next
  case (Cons p ps)
  then show ?case by (fastforce split: if_splits prod.splits)
qed

lemma drain_pending_limit:
  "drain_pending cap m c b ps = (t, r) \<Longrightarrow> t \<noteq> [] \<Longrightarrow> b + sum_list (map snd (butlast t)) < m"
proof (induction ps arbitrary: c b t)
  case Nil
  then show ?case by simp
next
  case (Cons p ps)
  then obtain t' where lt: "b < m" and t: "t = p # t'"
    and d: "drain_pending cap m (Suc c) (b + snd p) ps = (t', r)"
    by (auto split: if_splits prod.splits)
  then show ?case using Cons.IH [OF d] by (cases "t' = []") auto
qed

lemma drain_pending_progress:
  "drain_pending cap m 0 0 ps = (t, r) \<Longrightarrow> ps \<noteq> [] \<Longrightarrow> 0 < cap \<Longrightarrow> 0 < m \<Longrightarrow> t \<noteq> []"
  by (cases ps) (auto split: prod.splits)

lemma drain_pending_maximal:
  "drain_pending cap m c b ps = (t, r) \<Longrightarrow> r \<noteq> [] \<Longrightarrow> c \<le> cap \<Longrightarrow>
     c + length t = cap \<or> m \<le> b + sum_list (map snd t)"
proof (induction ps arbitrary: c b t)
  case Nil
  then show ?case by simp
next
  case (Cons p ps)
  show ?case
  proof (cases "c < cap \<and> b < m")
    case True
    then obtain t' where t: "t = p # t'"
      and d: "drain_pending cap m (Suc c) (b + snd p) ps = (t', r)"
      using Cons.prems(1) by (auto split: prod.splits)
    from Cons.IH [OF d Cons.prems(2)] True t show ?thesis by fastforce
  next
    case False
    with Cons.prems(1,3) show ?thesis by auto
  qed
qed

text \<open>The chunks built from what was drained, when every pending length is honest.\<close>

lemma drain_batch:
  assumes d: "drain_pending cap m 0 0 ps = (t, r)" and "ps \<noteq> []" "0 < cap" "0 < m"
    and honest: "\<And>p. p \<in> set ps \<Longrightarrow> length (slot_data slots p) = snd p \<and> 0 < snd p"
  shows "data_batch (map (\<lambda>p. data_chunk (slot_data slots p)) t) \<and> length t \<le> cap
    \<and> length (batch_bytes (butlast (map (\<lambda>p. data_chunk (slot_data slots p)) t))) < m
    \<and> concat (map (slot_data slots) t) @ concat (map (slot_data slots) r)
        = concat (map (slot_data slots) ps)"
proof -
  let ?f = "slot_data slots"
  have p: "ps = t @ r" using drain_pending_append [OF d] by simp
  have t: "t \<noteq> []" by (rule drain_pending_progress [OF d assms(2-4)])
  have len: "\<forall>q \<in> set t. length (?f q) = snd q \<and> ?f q \<noteq> []"
    using honest p by fastforce
  have "map (length \<circ> ?f) (butlast t) = map snd (butlast t)"
    using len by (auto dest: in_set_butlastD)
  then have "length (batch_bytes (butlast (map (\<lambda>p. data_chunk (?f p)) t))) < m"
    using drain_pending_limit [OF d t]
    by (simp flip: map_butlast add: length_concat del: map_eq_conv)
  moreover have "data_batch (map (\<lambda>p. data_chunk (?f p)) t)"
    using t len by (auto simp: data_batch_def list_all_iff)
  moreover have "length t \<le> cap" using drain_pending_length [OF d] by simp
  ultimately show ?thesis by (simp add: p)
qed

subsection \<open>The contract\<close>

text \<open>
  \<open>incoming\<close> is every byte the stream has still to hand out, buffered or not yet
  received, and \<open>outcome\<close> how it ends after them (\<open>None\<close>: the peer goes
  silent without closing). While bytes remain, a batch is a non-empty list of non-empty data
  chunks that continues the byte stream, and all of its chunks but the last together stay
  below the byte limit. After the last byte the one chunk delivered is the end marker.
\<close>

locale recv_stream =
  fixes next_batch :: "'s next_batch"
    and incoming :: "'s \<Rightarrow> byte list"
    and outcome :: "'s \<Rightarrow> stream_end option"
    and invar :: "'s \<Rightarrow> bool"
  assumes batch_data:
    "invar st \<Longrightarrow> incoming st \<noteq> [] \<Longrightarrow> 0 < cap \<Longrightarrow> 0 < m \<Longrightarrow>
      \<exists>cs st'. next_batch st cap m = Some (cs, st')
        \<and> data_batch cs \<and> length cs \<le> cap
        \<and> length (batch_bytes (butlast cs)) < m
        \<and> batch_bytes cs @ incoming st' = incoming st
        \<and> outcome st' = outcome st \<and> invar st'"
    and batch_end:
    "invar st \<Longrightarrow> incoming st = [] \<Longrightarrow> outcome st = Some e \<Longrightarrow> 0 < cap \<Longrightarrow> 0 < m \<Longrightarrow>
      \<exists>st'. next_batch st cap m = Some ([end_chunk e], st')"
    and batch_hang:
    "invar st \<Longrightarrow> incoming st = [] \<Longrightarrow> outcome st = None \<Longrightarrow> 0 < cap \<Longrightarrow> 0 < m \<Longrightarrow>
      next_batch st cap m = None"
    and error_positive:
    "invar st \<Longrightarrow> outcome st = Some (End_error n) \<Longrightarrow> 0 < n"

end
