(* ===== verification/Framed_Reader.thy ===== *)
theory Framed_Reader
  imports Recv_Stream
begin

text \<open>
  \<open>FramedReader\<close> of \<open>easyio/src/framed_reader.cpp\<close>: the two read
  operations over any stream, written as the source writes them (erase the consumed
  prefix, loop over batches, stash the overshoot). A read returns \<open>None\<close> when
  its coroutine is never resumed; otherwise an exception or the bytes, with the new reader
  and stream. \<open>spec_read\<close> is the abstract reader, over the plain byte sequence;
  both operations are shown to implement it over every \<open>recv_stream\<close>.
\<close>

subsection \<open>Definitions\<close>

record reader =
  rd_buf :: "byte list"
  rd_consumed :: nat

definition empty_reader :: reader where
  [io_simps]: "empty_reader = \<lparr>rd_buf = [], rd_consumed = 0\<rparr>"

definition kBatchCapacity :: nat where
  [io_simps]: "kBatchCapacity = 64"

definition closed_mid_message :: exn where
  "closed_mid_message = Runtime_error ''easyio: connection closed mid-message''"

text \<open>The two statements both operations start with.\<close>

definition erase_consumed :: "reader \<Rightarrow> reader" where
  "erase_consumed r = r\<lparr>rd_buf := drop (rd_consumed r) (rd_buf r), rd_consumed := 0\<rparr>"

text \<open>The loop over one batch in \<open>read_exact\<close>: append, or throw at a bad chunk.\<close>

fun append_batch :: "byte list \<Rightarrow> chunk list \<Rightarrow> exn option \<times> byte list" where
  "append_batch buf [] = (None, buf)"
| "append_batch buf (c # cs) =
     (if chunk_error c \<noteq> 0 then (Some (System_error (- chunk_error c)), buf)
      else if chunk_data c = [] then (Some closed_mid_message, buf)
      else append_batch (buf @ chunk_data c) cs)"

partial_function (option) read_exact_loop ::
  "'s next_batch \<Rightarrow> nat \<Rightarrow> byte list \<Rightarrow> 's \<Rightarrow> (exn option \<times> byte list \<times> 's) option" where
  "read_exact_loop nb n buf st =
     (if length buf < n then
        (case nb st kBatchCapacity (n - length buf) of
           None \<Rightarrow> None
         | Some (batch, st') \<Rightarrow>
             (case append_batch buf batch of
                (Some e, buf') \<Rightarrow> Some (Some e, buf', st')
              | (None, buf') \<Rightarrow> read_exact_loop nb n buf' st'))
      else Some (None, buf, st))"

definition read_exact ::
  "'s next_batch \<Rightarrow> nat \<Rightarrow> reader \<times> 's \<Rightarrow> ((exn + byte list) \<times> reader \<times> 's) option" where
  "read_exact nb n rs =
     (let r = erase_consumed (fst rs) in
      case read_exact_loop nb n (rd_buf r) (snd rs) of
        None \<Rightarrow> None
      | Some (Some e, buf, st) \<Rightarrow> Some (Inl e, \<lparr>rd_buf = buf, rd_consumed = 0\<rparr>, st)
      | Some (None, buf, st) \<Rightarrow> Some (Inr (take n buf), \<lparr>rd_buf = buf, rd_consumed = n\<rparr>, st))"

text \<open>\<open>memcpy (dest + off, bs)\<close> on a destination buffer.\<close>

definition memcpy_at :: "byte list \<Rightarrow> nat \<Rightarrow> byte list \<Rightarrow> byte list" where
  "memcpy_at dest off bs = take off dest @ bs @ drop (off + length bs) dest"

text \<open>
  The loop over one batch in \<open>read_exact_into\<close>: copy what is still wanted to the
  caller's buffer, stash the rest of a chunk that overshoots.
\<close>

record into_state =
  in_dest :: "byte list"
  in_got :: nat
  in_reader :: reader

fun copy_batch :: "nat \<Rightarrow> into_state \<Rightarrow> chunk list \<Rightarrow> exn option \<times> into_state" where
  "copy_batch n s [] = (None, s)"
| "copy_batch n s (c # cs) =
     (if chunk_error c \<noteq> 0 then (Some (System_error (- chunk_error c)), s)
      else if chunk_data c = [] then (Some closed_mid_message, s)
      else
        (let tk = min (length (chunk_data c)) (n - in_got s);
             s1 = s\<lparr>in_dest := memcpy_at (in_dest s) (in_got s) (take tk (chunk_data c)),
                    in_got := in_got s + tk\<rparr>;
             s2 = (if tk < length (chunk_data c)
                   then s1\<lparr>in_reader := \<lparr>rd_buf = drop tk (chunk_data c), rd_consumed = 0\<rparr>\<rparr>
                   else s1)
         in copy_batch n s2 cs))"

partial_function (option) read_exact_into_loop ::
  "'s next_batch \<Rightarrow> nat \<Rightarrow> into_state \<Rightarrow> 's \<Rightarrow> (exn option \<times> into_state \<times> 's) option" where
  "read_exact_into_loop nb n s st =
     (if in_got s < n then
        (case nb st kBatchCapacity (n - in_got s) of
           None \<Rightarrow> None
         | Some (batch, st') \<Rightarrow>
             (case copy_batch n s batch of
                (Some e, s') \<Rightarrow> Some (Some e, s', st')
              | (None, s') \<Rightarrow> read_exact_into_loop nb n s' st'))
      else Some (None, s, st))"

text \<open>The start of \<open>read_exact_into\<close>: leftover bytes go straight to the caller.\<close>

definition into_start :: "byte list \<Rightarrow> nat \<Rightarrow> reader \<Rightarrow> into_state" where
  "into_start dest n r0 =
     (let r = erase_consumed r0; got = min (length (rd_buf r)) n
      in if rd_buf r \<noteq> []
         then \<lparr>in_dest = memcpy_at dest 0 (take got (rd_buf r)), in_got = got,
               in_reader = r\<lparr>rd_consumed := got\<rparr>\<rparr>
         else \<lparr>in_dest = dest, in_got = 0, in_reader = r\<rparr>)"

definition read_exact_into ::
  "'s next_batch \<Rightarrow> byte list \<Rightarrow> nat \<Rightarrow> reader \<times> 's \<Rightarrow>
     ((exn + byte list) \<times> reader \<times> 's) option" where
  "read_exact_into nb dest n rs =
     (case read_exact_into_loop nb n (into_start dest n (fst rs)) (snd rs) of
        None \<Rightarrow> None
      | Some (Some e, s, st) \<Rightarrow> Some (Inl e, in_reader s, st)
      | Some (None, s, st) \<Rightarrow> Some (Inr (in_dest s), in_reader s, st))"

text \<open>
  The specification: a byte sequence and the way it ends. Reading \<open>n\<close> bytes takes
  them off the front, or fails the way the stream ends, or waits forever.
\<close>

definition end_exn :: "stream_end \<Rightarrow> exn" where
  "end_exn e = (case e of End_eof \<Rightarrow> closed_mid_message | End_error n \<Rightarrow> System_error n)"

definition spec_read ::
  "nat \<Rightarrow> byte list \<Rightarrow> stream_end option \<Rightarrow> (exn + byte list \<times> byte list) option" where
  "spec_read n bs fin =
     (if n \<le> length bs then Some (Inr (take n bs, drop n bs))
      else map_option (Inl \<circ> end_exn) fin)"

text \<open>The bytes of a reader that no read has returned yet, and its well-formedness.\<close>

definition leftover :: "reader \<Rightarrow> byte list" where
  "leftover r = drop (rd_consumed r) (rd_buf r)"

definition reader_inv :: "reader \<Rightarrow> bool" where
  "reader_inv r \<longleftrightarrow> rd_consumed r \<le> length (rd_buf r)"

text \<open>
  A read operation \<open>rd\<close> implements \<open>spec_read\<close> on the abstraction
  (leftover bytes, then the incoming ones).
\<close>

definition implements_read ::
  "((exn + byte list) \<times> reader \<times> 's) option \<Rightarrow> ('s \<Rightarrow> byte list) \<Rightarrow>
   ('s \<Rightarrow> stream_end option) \<Rightarrow> ('s \<Rightarrow> bool) \<Rightarrow> nat \<Rightarrow> reader \<times> 's \<Rightarrow> bool" where
  "implements_read result inc oc ok n rs \<longleftrightarrow>
     (case spec_read n (leftover (fst rs) @ inc (snd rs)) (oc (snd rs)) of
        None \<Rightarrow> result = None
      | Some (Inl e) \<Rightarrow> (\<exists>r' st'. result = Some (Inl e, r', st') \<and> reader_inv r')
      | Some (Inr (bs, rest)) \<Rightarrow>
          (\<exists>r' st'. result = Some (Inr bs, r', st') \<and> reader_inv r' \<and> ok st'
             \<and> leftover r' @ inc st' = rest \<and> oc st' = oc (snd rs)))"

text \<open>The three ways a read can go, as a case split.\<close>

lemma implements_read_cases:
  assumes "implements_read result inc oc ok n (r, st)"
  obtains (hang) "spec_read n (leftover r @ inc st) (oc st) = None" and "result = None"
  | (failed) e rs' where "spec_read n (leftover r @ inc st) (oc st) = Some (Inl e)"
      and "result = Some (Inl e, rs')"
  | (got) bs rest r' st' where "spec_read n (leftover r @ inc st) (oc st) = Some (Inr (bs, rest))"
      and "result = Some (Inr bs, r', st')" and "reader_inv r'" and "ok st'"
      and "leftover r' @ inc st' = rest" and "oc st' = oc st"
  using assms by (fastforce simp: implements_read_def split: option.splits sum.splits prod.splits)

text \<open>
  A run of reads: each frame names the operation (\<open>True\<close>: \<open>read_exact_into\<close> a
  zeroed buffer) and the size. The result is what was read, in order, and the exception that
  ended the run, if any; \<open>None\<close> if some read never returns.
\<close>

definition read_frame ::
  "'s next_batch \<Rightarrow> bool \<times> nat \<Rightarrow> reader \<times> 's \<Rightarrow> ((exn + byte list) \<times> reader \<times> 's) option" where
  "read_frame nb f rs =
     (if fst f then read_exact_into nb (replicate (snd f) 0) (snd f) rs
      else read_exact nb (snd f) rs)"

fun read_frames ::
  "'s next_batch \<Rightarrow> (bool \<times> nat) list \<Rightarrow> reader \<times> 's \<Rightarrow> (byte list list \<times> exn option) option" where
  "read_frames nb [] rs = Some ([], None)"
| "read_frames nb (f # fs) rs =
     (case read_frame nb f rs of
        None \<Rightarrow> None
      | Some (Inl e, _) \<Rightarrow> Some ([], Some e)
      | Some (Inr bs, rs') \<Rightarrow> map_option (apfst ((#) bs)) (read_frames nb fs rs'))"

fun spec_frames ::
  "nat list \<Rightarrow> byte list \<Rightarrow> stream_end option \<Rightarrow> (byte list list \<times> exn option) option" where
  "spec_frames [] bs fin = Some ([], None)"
| "spec_frames (n # ns) bs fin =
     (case spec_read n bs fin of
        None \<Rightarrow> None
      | Some (Inl e) \<Rightarrow> Some ([], Some e)
      | Some (Inr (d, rest)) \<Rightarrow> map_option (apfst ((#) d)) (spec_frames ns rest fin))"

subsection \<open>One batch\<close>

lemma erase_consumed_simps [simp]:
  "rd_buf (erase_consumed r) = leftover r" "rd_consumed (erase_consumed r) = 0"
  by (simp_all add: erase_consumed_def leftover_def)

lemma append_batch_data:
  "data_batch cs \<Longrightarrow> append_batch buf cs = (None, buf @ batch_bytes cs)"
proof (induction cs arbitrary: buf)
  case Nil
  then show ?case by simp
next
  case (Cons c cs)
  then show ?case by (cases "cs = []") (auto simp: data_batch_Cons)
qed

lemma append_batch_end:
  "(\<And>n. e = End_error n \<Longrightarrow> 0 < n) \<Longrightarrow> append_batch buf [end_chunk e] = (Some (end_exn e), buf)"
  by (cases e) (auto simp: end_chunk_def end_exn_def)

lemma memcpy_at_length:
  "off + length bs \<le> length dest \<Longrightarrow> length (memcpy_at dest off bs) = length dest"
  by (simp add: memcpy_at_def)

lemma memcpy_at_extends:
  "off + length bs \<le> length dest \<Longrightarrow> take off dest = pre \<Longrightarrow>
     take (off + length bs) (memcpy_at dest off bs) = pre @ bs"
  by (auto simp: memcpy_at_def)

lemma memcpy_at_tail:
  "off + length bs \<le> m \<Longrightarrow> m \<le> length dest \<Longrightarrow> drop m (memcpy_at dest off bs) = drop m dest"
  by (simp add: memcpy_at_def)

text \<open>
  What \<open>read_exact_into\<close> maintains for a target of \<open>n\<close> bytes: the copied
  prefix, then what the reader still holds, then what is still incoming, is always the same
  byte sequence \<open>whole\<close>; the reader holds something only once the target is full;
  and nothing past the first \<open>n\<close> bytes of the destination is written.
\<close>

definition into_inv :: "nat \<Rightarrow> byte list \<Rightarrow> byte list \<Rightarrow> into_state \<Rightarrow> byte list \<Rightarrow> bool" where
  "into_inv n dest whole s inc \<longleftrightarrow>
     in_got s \<le> n \<and> n \<le> length dest \<and> length (in_dest s) = length dest
     \<and> drop n (in_dest s) = drop n dest
     \<and> reader_inv (in_reader s) \<and> (in_got s < n \<longrightarrow> leftover (in_reader s) = [])
     \<and> take (in_got s) (in_dest s) @ leftover (in_reader s) @ inc = whole"

text \<open>A chunk that fits, and the chunk that fills the target.\<close>

lemma copy_chunk_fits:
  assumes "into_inv n dest whole s (d @ inc)" and "in_got s + length d \<le> n" and "in_got s < n"
  shows "into_inv n dest whole
    (s\<lparr>in_dest := memcpy_at (in_dest s) (in_got s) d, in_got := in_got s + length d\<rparr>) inc"
  using assms by (auto simp: into_inv_def memcpy_at_length memcpy_at_tail memcpy_at_extends)

lemma copy_chunk_fills:
  assumes "into_inv n dest whole s (d @ inc)" and "n < in_got s + length d" and "in_got s < n"
  shows "into_inv n dest whole
    (s\<lparr>in_dest := memcpy_at (in_dest s) (in_got s) (take (n - in_got s) d), in_got := n,
       in_reader := \<lparr>rd_buf = drop (n - in_got s) d, rd_consumed = 0\<rparr>\<rparr>) inc"
proof -
  let ?t = "take (n - in_got s) d"
  have len: "in_got s + length ?t = n" using assms by simp
  have "take n (memcpy_at (in_dest s) (in_got s) ?t) = take (in_got s) (in_dest s) @ ?t"
    using assms(1) memcpy_at_extends [of "in_got s" ?t "in_dest s", OF _ refl]
    by (simp only: len into_inv_def)
  then show ?thesis
    using assms len
    by (auto simp: into_inv_def memcpy_at_length memcpy_at_tail leftover_def reader_inv_def)
qed

lemma copy_batch_inv:
  assumes "data_batch cs" and "into_inv n dest whole s (batch_bytes cs @ inc)" and "in_got s < n"
    and "length (batch_bytes (butlast cs)) < n - in_got s"
  shows "\<exists>s'. copy_batch n s cs = (None, s') \<and> into_inv n dest whole s' inc \<and> in_got s < in_got s'"
  using assms
proof (induction cs arbitrary: s)
  case Nil
  then show ?case by (simp add: data_batch_def)
next
  case (Cons c cs)
  let ?d = "chunk_data c"
  let ?s1 = "s\<lparr>in_dest := memcpy_at (in_dest s) (in_got s) ?d, in_got := in_got s + length ?d\<rparr>"
  have c: "chunk_error c = 0" "?d \<noteq> []" using Cons.prems(1) by (auto simp: data_batch_Cons)
  have inv: "into_inv n dest whole s (?d @ batch_bytes cs @ inc)" using Cons.prems(2) by simp
  show ?case
  proof (cases "in_got s + length ?d \<le> n")
    case True
    then have step: "copy_batch n s (c # cs) = copy_batch n ?s1 cs"
      using c by (simp add: Let_def)
    have inv1: "into_inv n dest whole ?s1 (batch_bytes cs @ inc)"
      by (rule copy_chunk_fits [OF inv True Cons.prems(3)])
    show ?thesis
    proof (cases "cs = []")
      case True
      then show ?thesis using inv1 c step by simp
    next
      case False
      then have "data_batch cs" "in_got ?s1 < n" "length (batch_bytes (butlast cs)) < n - in_got ?s1"
        using Cons.prems(1,4) by (auto simp: data_batch_Cons)
      from Cons.IH [OF this(1) inv1 this(2,3)] show ?thesis using step by auto
    qed
  next
    case False
    then have "cs = []" using Cons.prems(4) by (auto split: if_splits)
    with False c Cons.prems(3) copy_chunk_fills [OF inv] show ?thesis
      by (auto simp: Let_def min_def)
  qed
qed

lemma copy_batch_end:
  "(\<And>n. e = End_error n \<Longrightarrow> 0 < n) \<Longrightarrow> copy_batch k s [end_chunk e] = (Some (end_exn e), s)"
  by (cases e) (auto simp: end_chunk_def end_exn_def)

subsection \<open>The loops over any stream\<close>

context recv_stream
begin

lemma cap_pos: "0 < kBatchCapacity"
  by (simp add: kBatchCapacity_def)

lemma end_error_positive:
  "invar st \<Longrightarrow> outcome st = Some e \<Longrightarrow> e = End_error n \<Longrightarrow> 0 < n"
  using error_positive by blast

lemma read_exact_loop_enough:
  assumes "invar st" and "n \<le> length (buf @ incoming st)"
  shows "\<exists>buf' st'. read_exact_loop next_batch n buf st = Some (None, buf', st')
    \<and> n \<le> length buf' \<and> buf' @ incoming st' = buf @ incoming st
    \<and> outcome st' = outcome st \<and> invar st'"
  using assms
proof (induction "n - length buf" arbitrary: buf st rule: less_induct)
  case less
  show ?case
  proof (cases "length buf < n")
    case False
    with less.prems show ?thesis by (subst read_exact_loop.simps) auto
  next
    case True
    with less.prems(2) have "incoming st \<noteq> []" by auto
    from batch_data [OF less.prems(1) this cap_pos, of "n - length buf"] True
    obtain cs st1 where nb: "next_batch st kBatchCapacity (n - length buf) = Some (cs, st1)"
      and cs: "data_batch cs" "batch_bytes cs @ incoming st1 = incoming st"
      and st1: "outcome st1 = outcome st" "invar st1" by auto
    have one: "read_exact_loop next_batch n buf st
        = read_exact_loop next_batch n (buf @ batch_bytes cs) st1"
      using True nb append_batch_data [OF cs(1)] by (subst read_exact_loop.simps) simp
    have "n - length (buf @ batch_bytes cs) < n - length buf"
      using True data_batch_nonempty [OF cs(1)] by (simp only: length_append)
    moreover have "n \<le> length ((buf @ batch_bytes cs) @ incoming st1)"
      using less.prems(2) by (simp flip: cs(2))
    ultimately show ?thesis
      using less.hyps [OF _ st1(2)] unfolding one st1(1) cs(2) [symmetric] by fastforce
  qed
qed

lemma read_exact_loop_short:
  assumes "invar st" and "length (buf @ incoming st) < n"
  shows "case outcome st of
      None \<Rightarrow> read_exact_loop next_batch n buf st = None
    | Some e \<Rightarrow> \<exists>buf' st'. read_exact_loop next_batch n buf st = Some (Some (end_exn e), buf', st')"
  using assms
proof (induction "length (incoming st)" arbitrary: buf st rule: less_induct)
  case less
  then have lt: "length buf < n" "0 < n - length buf" by auto
  show ?case
  proof (cases "incoming st = []")
    case True
    show ?thesis
    proof (cases "outcome st")
      case None
      with batch_hang [OF less.prems(1) True None cap_pos lt(2)] lt(1) show ?thesis
        by (simp add: read_exact_loop.simps [of next_batch n buf st])
    next
      case (Some e)
      note bad = append_batch_end [OF end_error_positive [OF less.prems(1) Some]]
      from batch_end [OF less.prems(1) True Some cap_pos lt(2)] obtain st1
        where "next_batch st kBatchCapacity (n - length buf) = Some ([end_chunk e], st1)" by blast
      with Some lt(1) show ?thesis
        by (simp add: read_exact_loop.simps [of next_batch n buf st] bad del: append_batch.simps)
    qed
  next
    case False
    from batch_data [OF less.prems(1) False cap_pos lt(2)]
    obtain cs st1 where nb: "next_batch st kBatchCapacity (n - length buf) = Some (cs, st1)"
      and cs: "data_batch cs" "batch_bytes cs @ incoming st1 = incoming st"
      and st1: "outcome st1 = outcome st" "invar st1" by auto
    have one: "read_exact_loop next_batch n buf st
        = read_exact_loop next_batch n (buf @ batch_bytes cs) st1"
      using lt(1) nb append_batch_data [OF cs(1)] by (subst read_exact_loop.simps) simp
    have "length (incoming st1) < length (incoming st)"
      using data_batch_nonempty [OF cs(1)] by (simp flip: cs(2))
    from less.hyps [OF this st1(2), of "buf @ batch_bytes cs"] less.prems(2) show ?thesis
      by (simp add: one st1(1) flip: cs(2) split: option.splits)
  qed
qed

lemma read_exact_implements:
  assumes "invar st" and "reader_inv r"
  shows "implements_read (read_exact next_batch n (r, st)) incoming outcome invar n (r, st)"
proof (cases "n \<le> length (leftover r @ incoming st)")
  case True
  from read_exact_loop_enough [OF assms(1) True] obtain buf' st'
    where l: "read_exact_loop next_batch n (leftover r) st = Some (None, buf', st')"
      and b: "n \<le> length buf'" "buf' @ incoming st' = leftover r @ incoming st"
      and o: "outcome st' = outcome st" "invar st'" by blast
  have "take n buf' = take n (leftover r @ incoming st)"
    using b by (metis append_eq_conv_conj take_append diff_is_0_eq take0 append_Nil2)
  moreover have "drop n buf' @ incoming st' = drop n (leftover r @ incoming st)"
    using b by (simp flip: b(2))
  ultimately show ?thesis
    using True l b o
    by (auto simp: implements_read_def spec_read_def read_exact_def Let_def reader_inv_def
        leftover_def)
next
  case False
  then have "length (leftover r @ incoming st) < n" by simp
  from read_exact_loop_short [OF assms(1) this] False show ?thesis
    by (auto simp: implements_read_def spec_read_def read_exact_def Let_def reader_inv_def
        split: option.splits)
qed

text \<open>The same for \<open>read_exact_into\<close>, over its loop invariant.\<close>

lemma into_loop_enough:
  assumes "invar st" and "into_inv n dest whole s (incoming st)" and "n \<le> length whole"
  shows "\<exists>s' st'. read_exact_into_loop next_batch n s st = Some (None, s', st')
    \<and> into_inv n dest whole s' (incoming st') \<and> in_got s' = n
    \<and> outcome st' = outcome st \<and> invar st'"
  using assms(1,2)
proof (induction "n - in_got s" arbitrary: s st rule: less_induct)
  case less
  show ?case
  proof (cases "in_got s < n")
    case False
    with less.prems show ?thesis
      by (subst read_exact_into_loop.simps) (auto simp: into_inv_def)
  next
    case True
    then have "incoming st \<noteq> []" using less.prems(2) assms(3) by (auto simp: into_inv_def)
    from batch_data [OF less.prems(1) this cap_pos, of "n - in_got s"] True
    obtain cs st1 where nb: "next_batch st kBatchCapacity (n - in_got s) = Some (cs, st1)"
      and cs: "data_batch cs" "batch_bytes cs @ incoming st1 = incoming st"
      and lim: "length (batch_bytes (butlast cs)) < n - in_got s"
      and st1: "outcome st1 = outcome st" "invar st1" by auto
    from copy_batch_inv [OF cs(1) _ True lim, of dest whole "incoming st1"] less.prems(2) cs(2)
    obtain s1 where s1: "copy_batch n s cs = (None, s1)" "into_inv n dest whole s1 (incoming st1)"
      "in_got s < in_got s1" by auto
    have one: "read_exact_into_loop next_batch n s st = read_exact_into_loop next_batch n s1 st1"
      using True nb s1(1) by (subst read_exact_into_loop.simps) simp
    have "n - in_got s1 < n - in_got s" using s1(3) True by simp
    from less.hyps [OF this st1(2) s1(2)] show ?thesis by (simp add: one st1(1))
  qed
qed

lemma into_loop_short:
  assumes "invar st" and "into_inv n dest whole s (incoming st)" and "length whole < n"
  shows "case outcome st of
      None \<Rightarrow> read_exact_into_loop next_batch n s st = None
    | Some e \<Rightarrow> \<exists>s' st'. read_exact_into_loop next_batch n s st = Some (Some (end_exn e), s', st')
        \<and> reader_inv (in_reader s')"
  using assms(1,2)
proof (induction "length (incoming st)" arbitrary: s st rule: less_induct)
  case less
  have lt: "in_got s < n" "0 < n - in_got s"
    using less.prems(2) assms(3) by (auto simp: into_inv_def)
  show ?case
  proof (cases "incoming st = []")
    case True
    show ?thesis
    proof (cases "outcome st")
      case None
      with batch_hang [OF less.prems(1) True None cap_pos lt(2)] lt(1) show ?thesis
        by (simp add: read_exact_into_loop.simps [of next_batch n s st])
    next
      case (Some e)
      note bad = copy_batch_end [OF end_error_positive [OF less.prems(1) Some]]
      from batch_end [OF less.prems(1) True Some cap_pos lt(2)] obtain st1
        where "next_batch st kBatchCapacity (n - in_got s) = Some ([end_chunk e], st1)" by blast
      with Some lt(1) less.prems(2) show ?thesis
        by (simp add: read_exact_into_loop.simps [of next_batch n s st] bad into_inv_def
            del: copy_batch.simps)
    qed
  next
    case False
    from batch_data [OF less.prems(1) False cap_pos lt(2)]
    obtain cs st1 where nb: "next_batch st kBatchCapacity (n - in_got s) = Some (cs, st1)"
      and cs: "data_batch cs" "batch_bytes cs @ incoming st1 = incoming st"
      and lim: "length (batch_bytes (butlast cs)) < n - in_got s"
      and st1: "outcome st1 = outcome st" "invar st1" by auto
    from copy_batch_inv [OF cs(1) _ lt(1) lim, of dest whole "incoming st1"] less.prems(2) cs(2)
    obtain s1 where s1: "copy_batch n s cs = (None, s1)" "into_inv n dest whole s1 (incoming st1)"
      by auto
    have one: "read_exact_into_loop next_batch n s st = read_exact_into_loop next_batch n s1 st1"
      using lt(1) nb s1(1) by (subst read_exact_into_loop.simps) simp
    have "length (incoming st1) < length (incoming st)"
      using data_batch_nonempty [OF cs(1)] by (simp flip: cs(2))
    from less.hyps [OF this st1(2) s1(2)] show ?thesis by (simp add: one st1(1) split: option.splits)
  qed
qed

lemma into_start_inv:
  assumes "reader_inv r" and "n \<le> length dest"
  shows "into_inv n dest (leftover r @ inc) (into_start dest n r) inc"
  using assms append_take_drop_id [of n "drop (rd_consumed r) (rd_buf r)"]
  by (auto simp: into_start_def Let_def into_inv_def memcpy_at_def leftover_def reader_inv_def min_def)

lemma read_exact_into_implements:
  assumes "invar st" and "reader_inv r" and "length dest = n"
  shows "implements_read (read_exact_into next_batch dest n (r, st)) incoming outcome invar n (r, st)"
proof -
  let ?s = "into_start dest n r" and ?T = "leftover r @ incoming st"
  have inv: "into_inv n dest ?T ?s (incoming st)"
    using assms by (intro into_start_inv) auto
  show ?thesis
  proof (cases "n \<le> length ?T")
    case True
    from into_loop_enough [OF assms(1) inv True] obtain s' st'
      where l: "read_exact_into_loop next_batch n ?s st = Some (None, s', st')"
        and i: "into_inv n dest ?T s' (incoming st')" "in_got s' = n"
        and o: "outcome st' = outcome st" "invar st'" by blast
    have "in_dest s' @ (leftover (in_reader s') @ incoming st') = ?T" and "length (in_dest s') = n"
      using i assms(3) by (auto simp: into_inv_def)
    then have "in_dest s' = take n ?T" and "leftover (in_reader s') @ incoming st' = drop n ?T"
      by (metis append_eq_conv_conj)+
    with True l i o show ?thesis
      by (auto simp: implements_read_def spec_read_def read_exact_into_def into_inv_def)
  next
    case False
    then have "length ?T < n" by simp
    from into_loop_short [OF assms(1) inv this] False show ?thesis
      by (auto simp: implements_read_def spec_read_def read_exact_into_def split: option.splits)
  qed
qed

text \<open>Any run of reads is the run on the plain byte sequence.\<close>

lemma read_frame_implements:
  assumes "invar st" and "reader_inv r"
  shows "implements_read (read_frame next_batch f (r, st)) incoming outcome invar (snd f) (r, st)"
  using assms by (simp add: read_frame_def read_exact_implements read_exact_into_implements)

lemma read_frames_spec:
  assumes "invar st" and "reader_inv r"
  shows "read_frames next_batch fs (r, st)
    = spec_frames (map snd fs) (leftover r @ incoming st) (outcome st)"
  using assms
proof (induction fs arbitrary: r st)
  case Nil
  then show ?case by simp
next
  case (Cons f fs)
  from read_frame_implements [OF Cons.prems, of f] show ?case
    by (auto simp: implements_read_def Cons.IH split: option.splits sum.splits prod.splits)
qed

end

end
