(* ===== verification/Libc_Recv_Stream.thy ===== *)
theory Libc_Recv_Stream
  imports Framed_Reader
begin

text \<open>
  \<open>RecvStreamImpl\<close> of \<open>easyio/src/libc_recv_stream.cpp\<close>: the fixed
  ring of buffers that \<open>on_ready\<close> fills from \<open>::recv\<close> and
  \<open>_take_batch\<close> hands out. The buffer memory is explicit (\<open>lr_slots\<close>), so
  that handing out a slot and overwriting it are different events. What the kernel returns
  from successive \<open>::recv\<close> calls on the socket is a list of results; an exhausted
  list means that nothing ever arrives any more.
\<close>

subsection \<open>Definitions\<close>

text \<open>A result of \<open>::recv\<close>: bytes (none of them at end of stream) or an errno.\<close>

datatype recv_result = Recv_bytes "byte list" | Recv_errno errno

record lrs =
  lr_entry_size :: nat
  lr_entries :: nat
  lr_slots :: "byte list list"
  lr_write_idx :: nat
  lr_pending :: "(nat \<times> nat) list"
  lr_checked_out_count :: nat
  lr_eof :: bool
  lr_error :: errno
  lr_waiter :: bool

definition lr_deliverable :: "lrs \<Rightarrow> bool" where
  "lr_deliverable s \<longleftrightarrow> lr_pending s \<noteq> [] \<or> lr_eof s \<or> lr_error s \<noteq> 0"

definition lr_room :: "lrs \<Rightarrow> bool" where
  "lr_room s \<longleftrightarrow> lr_error s = 0 \<and> \<not> lr_eof s
     \<and> length (lr_pending s) + lr_checked_out_count s < lr_entries s"

text \<open>One received run of bytes: written at the slot, queued, the index advanced.\<close>

definition lr_store :: "lrs \<Rightarrow> byte list \<Rightarrow> lrs" where
  "lr_store s d =
     (let idx = lr_write_idx s in
      s\<lparr>lr_slots := (lr_slots s)[idx := d @ drop (length d) (lr_slots s ! idx)],
        lr_write_idx := (idx + 1) mod lr_entries s,
        lr_pending := lr_pending s @ [(idx, length d)]\<rparr>)"

fun lr_fill :: "lrs \<Rightarrow> recv_result list \<Rightarrow> lrs \<times> recv_result list" where
  "lr_fill s [] = (s, [])"
| "lr_fill s (r # rs) =
     (if lr_room s then
        (case r of
           Recv_errno e \<Rightarrow> if e = EAGAIN then (s, rs) else (s\<lparr>lr_error := e\<rparr>, rs)
         | Recv_bytes d \<Rightarrow> if d = [] then (s\<lparr>lr_eof := True\<rparr>, rs) else lr_fill (lr_store s d) rs)
      else (s, r # rs))"

text \<open>\<open>on_ready\<close>; the flag says whether the waiting coroutine was resumed.\<close>

definition lr_on_ready :: "lrs \<Rightarrow> recv_result list \<Rightarrow> lrs \<times> recv_result list \<times> bool" where
  "lr_on_ready s rs =
     (let (s', rs') = lr_fill s rs in
      if lr_waiter s' \<and> lr_deliverable s' then (s'\<lparr>lr_waiter := False\<rparr>, rs', True)
      else (s', rs', False))"

definition lr_create :: "nat \<Rightarrow> nat \<Rightarrow> recv_result list \<Rightarrow> lrs \<times> recv_result list" where
  "lr_create entry_size entries rs =
     (let s = \<lparr>lr_entry_size = entry_size, lr_entries = entries,
               lr_slots = replicate entries (replicate entry_size 0),
               lr_write_idx = 0, lr_pending = [], lr_checked_out_count = 0,
               lr_eof = False, lr_error = 0, lr_waiter = False\<rparr>;
          (s', rs', _) = lr_on_ready s rs
      in (s', rs'))"

definition lr_return_checked_out :: "lrs \<Rightarrow> lrs" where
  "lr_return_checked_out s = s\<lparr>lr_checked_out_count := 0\<rparr>"

definition lr_ready :: "lrs \<Rightarrow> bool \<times> lrs" where
  "lr_ready s = (let s' = lr_return_checked_out s in (lr_deliverable s', s'))"

definition lr_arm :: "lrs \<Rightarrow> lrs" where
  "lr_arm s = s\<lparr>lr_waiter := True\<rparr>"

definition lr_take :: "lrs \<Rightarrow> chunk \<times> lrs" where
  "lr_take s =
     (case lr_pending s of
        p # ps \<Rightarrow> (data_chunk (slot_data (lr_slots s) p),
                   s\<lparr>lr_pending := ps, lr_checked_out_count := lr_checked_out_count s + 1\<rparr>)
      | [] \<Rightarrow> if lr_error s \<noteq> 0 then (error_chunk (lr_error s), s) else (eof_chunk, s))"

definition lr_take_batch :: "lrs \<Rightarrow> nat \<Rightarrow> nat \<Rightarrow> chunk list \<times> lrs" where
  "lr_take_batch s cap m =
     (let (t, r) = drain_pending cap m 0 0 (lr_pending s);
          s' = s\<lparr>lr_pending := r, lr_checked_out_count := lr_checked_out_count s + length t\<rparr>
      in if t = [] then ([if lr_error s \<noteq> 0 then error_chunk (lr_error s) else eof_chunk], s')
         else (map (\<lambda>p. data_chunk (slot_data (lr_slots s) p)) t, s'))"

definition lr_cancel :: "lrs \<Rightarrow> lrs \<times> bool" where
  "lr_cancel s =
     (let s' = (if lr_error s = 0 \<and> \<not> lr_eof s then s\<lparr>lr_error := ECANCELED\<rparr> else s)
      in (s'\<lparr>lr_waiter := False\<rparr>, lr_waiter s))"

text \<open>
  \<open>co_await next_batch\<close>: ask \<open>_ready\<close>; if it is not, arm the waiter and let
  the queue deliver readiness events until one resumes it; then take the batch. A readiness
  event that consumes nothing leaves the state as it was, so the wait is over for good.
\<close>

function lr_wait :: "lrs \<Rightarrow> recv_result list \<Rightarrow> (lrs \<times> recv_result list) option" where
  "lr_wait s rs =
     (case lr_on_ready s rs of (s', rs', woken) \<Rightarrow>
        if woken then Some (s', rs')
        else if length rs' < length rs then lr_wait s' rs'
        else None)"
  by pat_completeness auto
termination
  by (relation "measure (\<lambda>(s, rs). length rs)") auto

definition lr_next_batch :: "(lrs \<times> recv_result list) next_batch" where
  "lr_next_batch st cap m =
     (let (ok, s) = lr_ready (fst st) in
      if ok then (let (cs, s') = lr_take_batch s cap m in Some (cs, s', snd st))
      else (case lr_wait (lr_arm s) (snd st) of
              None \<Rightarrow> None
            | Some (s1, rs1) \<Rightarrow> (let (cs, s') = lr_take_batch s1 cap m in Some (cs, s', rs1))))"

text \<open>What the kernel still has for the stream: bytes, then an end, if any.\<close>

fun recv_bytes :: "recv_result list \<Rightarrow> byte list" where
  "recv_bytes [] = []"
| "recv_bytes (Recv_errno e # rs) = (if e = EAGAIN then recv_bytes rs else [])"
| "recv_bytes (Recv_bytes d # rs) = (if d = [] then [] else d @ recv_bytes rs)"

fun recv_end :: "recv_result list \<Rightarrow> stream_end option" where
  "recv_end [] = None"
| "recv_end (Recv_errno e # rs) = (if e = EAGAIN then recv_end rs else Some (End_error e))"
| "recv_end (Recv_bytes d # rs) = (if d = [] then Some End_eof else recv_end rs)"

text \<open>\<open>recv(2)\<close>: never more bytes than asked for, and a positive errno on failure.\<close>

fun recv_ok :: "nat \<Rightarrow> recv_result \<Rightarrow> bool" where
  "recv_ok es (Recv_bytes d) \<longleftrightarrow> length d \<le> es"
| "recv_ok es (Recv_errno e) \<longleftrightarrow> 0 < e"

definition lr_pending_bytes :: "lrs \<Rightarrow> byte list" where
  "lr_pending_bytes s = concat (map (slot_data (lr_slots s)) (lr_pending s))"

definition lr_incoming :: "lrs \<times> recv_result list \<Rightarrow> byte list" where
  "lr_incoming st = lr_pending_bytes (fst st)
     @ (if lr_error (fst st) \<noteq> 0 \<or> lr_eof (fst st) then [] else recv_bytes (snd st))"

definition lr_outcome :: "lrs \<times> recv_result list \<Rightarrow> stream_end option" where
  "lr_outcome st =
     (if lr_error (fst st) \<noteq> 0 then Some (End_error (lr_error (fst st)))
      else if lr_eof (fst st) then Some End_eof else recv_end (snd st))"

text \<open>
  The slot of the \<open>k\<close>-th oldest entry still owned by the reader: pending and
  checked-out slots are the ones just behind the write index.
\<close>

definition lr_owned :: "lrs \<Rightarrow> nat" where
  "lr_owned s = length (lr_pending s) + lr_checked_out_count s"

definition lr_owned_slots :: "lrs \<Rightarrow> nat list" where
  "lr_owned_slots s =
     map (\<lambda>k. (lr_write_idx s + lr_entries s - lr_owned s + k) mod lr_entries s) [0..<lr_owned s]"

definition lr_inv :: "lrs \<Rightarrow> bool" where
  "lr_inv s \<longleftrightarrow> 0 < lr_entries s \<and> lr_write_idx s < lr_entries s
     \<and> length (lr_slots s) = lr_entries s
     \<and> list_all (\<lambda>x. length x = lr_entry_size s) (lr_slots s)
     \<and> lr_owned s \<le> lr_entries s
     \<and> map fst (lr_pending s) = drop (lr_checked_out_count s) (lr_owned_slots s)
     \<and> list_all (\<lambda>p. 0 < snd p \<and> snd p \<le> lr_entry_size s) (lr_pending s)
     \<and> 0 \<le> lr_error s"

definition lr_stream_inv :: "lrs \<times> recv_result list \<Rightarrow> bool" where
  "lr_stream_inv st \<longleftrightarrow> lr_inv (fst st) \<and> list_all (recv_ok (lr_entry_size (fst st))) (snd st)
     \<and> \<not> lr_waiter (fst st)"

lemmas lr_defs = lr_inv_def lr_owned_def lr_owned_slots_def

lemma recv_end_positive:
  "list_all (recv_ok es) rs \<Longrightarrow> recv_end rs = Some (End_error n) \<Longrightarrow> 0 < n"
  by (induction rs rule: recv_end.induct) (auto split: if_splits)

subsection \<open>Slot ownership\<close>

lemma lr_owned_slots_distinct:
  assumes "0 < lr_entries s" and "lr_owned s \<le> lr_entries s"
  shows "distinct (lr_owned_slots s)"
proof -
  have "inj_on (\<lambda>k. (lr_write_idx s + lr_entries s - lr_owned s + k) mod lr_entries s)
    {0..<lr_owned s}"
    using assms by (intro inj_onI) (erule ring_index_inj; simp)
  then show ?thesis by (simp add: lr_owned_slots_def distinct_map)
qed

text \<open>While there is room, the slot that the next \<open>::recv\<close> writes is not owned.\<close>

lemma lr_write_slot_free:
  assumes "lr_owned s < lr_entries s" and "lr_write_idx s < lr_entries s"
  shows "lr_write_idx s \<notin> set (lr_owned_slots s)"
proof
  let ?n = "lr_entries s" and ?w = "lr_write_idx s" and ?o = "lr_owned s"
  assume "?w \<in> set (lr_owned_slots s)"
  then obtain k where k: "k < ?o" "?w = (?w + ?n - ?o + k) mod ?n"
    by (auto simp: lr_owned_slots_def)
  then have "(?w + 0) mod ?n = (?w + (?n - ?o + k)) mod ?n"
    using assms by (simp add: add.assoc)
  then have "0 = ?n - ?o + k" by (rule ring_index_inj) (use assms k in auto)
  then show False using assms(1) by simp
qed

lemma lr_store_sel [simp]:
  "lr_entries (lr_store s d) = lr_entries s" "lr_entry_size (lr_store s d) = lr_entry_size s"
  "lr_checked_out_count (lr_store s d) = lr_checked_out_count s"
  "lr_error (lr_store s d) = lr_error s" "lr_eof (lr_store s d) = lr_eof s"
  "lr_waiter (lr_store s d) = lr_waiter s"
  "lr_pending (lr_store s d) = lr_pending s @ [(lr_write_idx s, length d)]"
  "lr_owned (lr_store s d) = Suc (lr_owned s)"
  by (simp_all add: lr_store_def Let_def lr_owned_def)

lemma lr_owned_slots_store:
  assumes "lr_owned s < lr_entries s" and "lr_write_idx s < lr_entries s"
  shows "lr_owned_slots (lr_store s d) = lr_owned_slots s @ [lr_write_idx s]"
proof -
  let ?n = "lr_entries s" and ?w = "lr_write_idx s" and ?o = "lr_owned s"
  have w: "lr_write_idx (lr_store s d) = (?w + 1) mod ?n"
    by (simp add: lr_store_def Let_def)
  have "((?w + 1) mod ?n + ?n - Suc ?o + k) mod ?n = (?w + ?n - ?o + k) mod ?n" for k
  proof -
    have "((?w + 1) mod ?n + ?n - Suc ?o + k) mod ?n = ((?w + 1) mod ?n + (?n - Suc ?o + k)) mod ?n"
      using assms by (simp add: add.assoc)
    also have "\<dots> = (?w + 1 + (?n - Suc ?o + k)) mod ?n" by (simp add: mod_add_left_eq)
    also have "?w + 1 + (?n - Suc ?o + k) = ?w + ?n - ?o + k" using assms by simp
    finally show ?thesis .
  qed
  then show ?thesis using assms by (simp add: lr_owned_slots_def w)
qed

lemma lr_pending_owned:
  "lr_inv s \<Longrightarrow> fst ` set (lr_pending s) \<subseteq> set (lr_owned_slots s)"
  by (metis list.set_map lr_inv_def set_drop_subset)

lemma lr_roomD: "lr_inv s \<Longrightarrow> lr_room s \<Longrightarrow>
   lr_owned s < lr_entries s \<and> lr_write_idx s < lr_entries s \<and> lr_error s = 0 \<and> \<not> lr_eof s"
  by (simp add: lr_inv_def lr_room_def lr_owned_def)

lemma lr_inv_store:
  assumes "lr_inv s" and "lr_room s" and "d \<noteq> []" and "length d \<le> lr_entry_size s"
  shows "lr_inv (lr_store s d)"
proof -
  from lr_roomD [OF assms(1,2)] have o: "lr_owned s < lr_entries s" "lr_write_idx s < lr_entries s"
    by auto
  have "lr_checked_out_count s \<le> length (lr_owned_slots s)"
    by (simp add: lr_owned_slots_def lr_owned_def)
  then have "map fst (lr_pending (lr_store s d))
      = drop (lr_checked_out_count s) (lr_owned_slots (lr_store s d))"
    using assms(1) o by (simp add: lr_owned_slots_store lr_inv_def)
  moreover have "length (lr_slots (lr_store s d)) = lr_entries s"
    using assms(1) by (simp add: lr_store_def Let_def lr_inv_def)
  moreover have "list_all (\<lambda>x. length x = lr_entry_size s) (lr_slots (lr_store s d))"
    using assms(1,4) o by (auto simp: lr_store_def Let_def lr_inv_def list_all_length nth_list_update)
  moreover have "lr_write_idx (lr_store s d) < lr_entries s"
    using o by (simp add: lr_store_def Let_def)
  ultimately show ?thesis using assms o by (simp add: lr_inv_def)
qed

lemma lr_store_other_slot:
  assumes "lr_inv s" and "lr_room s" and "i \<in> set (lr_owned_slots s)"
  shows "lr_slots (lr_store s d) ! i = lr_slots s ! i"
proof -
  have "i \<noteq> lr_write_idx s"
    using assms lr_roomD [of s] lr_write_slot_free [of s] by auto
  then show ?thesis by (simp add: lr_store_def Let_def)
qed

lemma lr_pending_bytes_store:
  assumes "lr_inv s" and "lr_room s"
  shows "lr_pending_bytes (lr_store s d) = lr_pending_bytes s @ d"
proof -
  have w: "lr_write_idx s < length (lr_slots s)"
    using assms(1) by (simp add: lr_inv_def)
  have "map (slot_data (lr_slots (lr_store s d))) (lr_pending s)
      = map (slot_data (lr_slots s)) (lr_pending s)"
  proof (rule map_cong [OF refl])
    fix p assume "p \<in> set (lr_pending s)"
    then have "fst p \<in> set (lr_owned_slots s)" using lr_pending_owned [OF assms(1)] by blast
    then show "slot_data (lr_slots (lr_store s d)) p = slot_data (lr_slots s) p"
      by (simp add: slot_data_def lr_store_other_slot [OF assms])
  qed
  moreover have "slot_data (lr_slots (lr_store s d)) (lr_write_idx s, length d) = d"
    using w by (simp add: slot_data_def lr_store_def Let_def)
  ultimately show ?thesis
    by (simp only: lr_pending_bytes_def lr_store_sel map_append concat_append list.map concat.simps
        append_Nil2)
qed

subsection \<open>Filling the ring\<close>

text \<open>
  Induction over the receive loop: it stops for lack of room or of results, at
  \<open>EAGAIN\<close>, at an error, at end of stream, or stores a run and goes on.
\<close>

lemma lr_fill_loop_induct [consumes 3, case_names Stop Again Err Eof Store]:
  assumes "lr_inv s" and "list_all (recv_ok (lr_entry_size s)) rs" and "lr_fill s rs = (s', rs')"
    and Stop: "\<And>s rs. lr_inv s \<Longrightarrow> list_all (recv_ok (lr_entry_size s)) rs \<Longrightarrow> P s rs s rs"
    and Again: "\<And>s rs. lr_inv s \<Longrightarrow> lr_room s \<Longrightarrow> list_all (recv_ok (lr_entry_size s)) rs \<Longrightarrow>
      P s (Recv_errno EAGAIN # rs) s rs"
    and Err: "\<And>s e rs. lr_inv s \<Longrightarrow> lr_room s \<Longrightarrow> list_all (recv_ok (lr_entry_size s)) rs \<Longrightarrow>
      0 < e \<Longrightarrow> e \<noteq> EAGAIN \<Longrightarrow> P s (Recv_errno e # rs) (s\<lparr>lr_error := e\<rparr>) rs"
    and Eof: "\<And>s rs. lr_inv s \<Longrightarrow> lr_room s \<Longrightarrow> list_all (recv_ok (lr_entry_size s)) rs \<Longrightarrow>
      P s (Recv_bytes [] # rs) (s\<lparr>lr_eof := True\<rparr>) rs"
    and Store: "\<And>s d rs s' rs'. lr_inv s \<Longrightarrow> lr_room s \<Longrightarrow> d \<noteq> [] \<Longrightarrow> length d \<le> lr_entry_size s \<Longrightarrow>
      P (lr_store s d) rs s' rs' \<Longrightarrow> P s (Recv_bytes d # rs) s' rs'"
  shows "P s rs s' rs'"
  using assms(1-3)
proof (induction s rs arbitrary: s' rs' rule: lr_fill.induct)
  case (1 s)
  then show ?case using Stop [of s "[]"] by simp
next
  case (2 s r rs)
  show ?case
  proof (cases "lr_room s")
    case False
    with "2.prems" Stop show ?thesis by auto
  next
    case room: True
    show ?thesis
    proof (cases r)
      case (Recv_errno e)
      with room "2.prems" Again Err show ?thesis by (auto split: if_splits)
    next
      case (Recv_bytes d)
      show ?thesis
      proof (cases "d = []")
        case True
        with room Recv_bytes "2.prems" Eof show ?thesis by auto
      next
        case False
        with Recv_bytes "2.prems"(1,2) room have "lr_inv (lr_store s d)"
          by (intro lr_inv_store) auto
        with "2.IH" [OF room Recv_bytes False] "2.prems" Recv_bytes room False Store show ?thesis
          by auto
      qed
    qed
  qed
qed

lemma lr_fill_inv:
  assumes "lr_inv s" and "list_all (recv_ok (lr_entry_size s)) rs" and "lr_fill s rs = (s', rs')"
  shows "lr_inv s' \<and> list_all (recv_ok (lr_entry_size s')) rs'"
  using assms by (induction rule: lr_fill_loop_induct) (auto simp: lr_defs)

lemma lr_fill_frame:
  assumes "lr_inv s" and "list_all (recv_ok (lr_entry_size s)) rs" and "lr_fill s rs = (s', rs')"
  shows "lr_entries s' = lr_entries s \<and> lr_entry_size s' = lr_entry_size s
    \<and> lr_checked_out_count s' = lr_checked_out_count s \<and> lr_waiter s' = lr_waiter s
    \<and> length rs' \<le> length rs"
  using assms by (induction rule: lr_fill_loop_induct) auto

lemma lr_fill_stream:
  assumes "lr_inv s" and "list_all (recv_ok (lr_entry_size s)) rs" and "lr_fill s rs = (s', rs')"
  shows "lr_incoming (s', rs') = lr_incoming (s, rs) \<and> lr_outcome (s', rs') = lr_outcome (s, rs)"
  using assms
proof (induction rule: lr_fill_loop_induct)
  case (Store s d rs s' rs')
  then show ?case
    using lr_roomD [OF Store(1,2)] by (simp add: lr_incoming_def lr_outcome_def lr_pending_bytes_store)
qed (auto simp: lr_incoming_def lr_outcome_def lr_pending_bytes_def lr_room_def)

text \<open>Filling never touches the content of an owned slot.\<close>

lemma lr_fill_keeps_owned:
  assumes "lr_inv s" and "list_all (recv_ok (lr_entry_size s)) rs" and "lr_fill s rs = (s', rs')"
    and "i \<in> set (lr_owned_slots s)"
  shows "lr_slots s' ! i = lr_slots s ! i"
  using assms
proof (induction rule: lr_fill_loop_induct)
  case (Store s d rs s' rs')
  then show ?case
    using lr_roomD [OF Store(1,2)] by (simp add: lr_owned_slots_store lr_store_other_slot)
qed simp_all

text \<open>With room and a result to take, the loop consumes at least one result.\<close>

lemma lr_fill_progress:
  assumes "lr_inv s" and "list_all (recv_ok (lr_entry_size s)) (r # rs)" and "lr_room s"
    and "lr_fill s (r # rs) = (s', rs')"
  shows "length rs' < length (r # rs)"
proof (cases "\<exists>d. r = Recv_bytes d \<and> d \<noteq> []")
  case True
  then obtain d where d: "r = Recv_bytes d" "d \<noteq> []" by blast
  with assms have "lr_inv (lr_store s d)" by (intro lr_inv_store) auto
  then have "length rs' \<le> length rs"
    using lr_fill_frame [of "lr_store s d" rs s' rs'] assms d by simp
  then show ?thesis by simp
next
  case False
  with assms(3,4) show ?thesis by (cases r) (auto split: if_splits)
qed

subsection \<open>Handing out and reclaiming\<close>

lemma lr_inv_return_checked_out:
  assumes "lr_inv s"
  shows "lr_inv (lr_return_checked_out s)"
proof -
  let ?s = "lr_return_checked_out s"
  have o: "lr_owned ?s = length (lr_pending s)" by (simp add: lr_owned_def lr_return_checked_out_def)
  have "lr_owned_slots ?s = drop (lr_checked_out_count s) (lr_owned_slots s)"
  proof (rule nth_equalityI)
    show "length (lr_owned_slots ?s) = length (drop (lr_checked_out_count s) (lr_owned_slots s))"
      by (simp add: lr_owned_slots_def o) (simp add: lr_owned_def)
    fix k assume "k < length (lr_owned_slots ?s)"
    then have k: "k < length (lr_pending s)" by (simp add: lr_owned_slots_def o)
    have "lr_owned s \<le> lr_entries s" using assms by (simp add: lr_inv_def)
    then have "lr_write_idx s + lr_entries s - length (lr_pending s) + k
        = lr_write_idx s + lr_entries s - lr_owned s + (lr_checked_out_count s + k)"
      by (simp add: lr_owned_def)
    with k show "lr_owned_slots ?s ! k = drop (lr_checked_out_count s) (lr_owned_slots s) ! k"
      by (simp add: lr_owned_slots_def o) (simp add: lr_owned_def lr_return_checked_out_def add.assoc)
  qed
  with assms show ?thesis
    by (simp add: lr_inv_def o) (simp add: lr_return_checked_out_def lr_owned_def)
qed

lemma lr_inv_take_batch:
  assumes "lr_inv s" and "lr_take_batch s cap m = (cs, s')"
  shows "lr_inv s'"
proof -
  obtain t r where d: "drain_pending cap m 0 0 (lr_pending s) = (t, r)" by fastforce
  then have p: "lr_pending s = t @ r" using drain_pending_append by fastforce
  have s': "s' = s\<lparr>lr_pending := r, lr_checked_out_count := lr_checked_out_count s + length t\<rparr>"
    using assms(2) d by (auto simp: lr_take_batch_def Let_def split: if_splits)
  have "map fst r = drop (length t) (map fst (lr_pending s))" by (simp add: p)
  also have "\<dots> = drop (lr_checked_out_count s + length t) (lr_owned_slots s)"
    using assms(1) by (simp add: lr_inv_def add.commute)
  finally show ?thesis
    using assms(1) p by (simp add: lr_inv_def s' lr_owned_def lr_owned_slots_def add.commute add.left_commute)
qed

lemma slot_data_length:
  assumes "lr_inv s" and "p \<in> set (lr_pending s)"
  shows "length (slot_data (lr_slots s) p) = snd p \<and> 0 < snd p"
proof -
  have "fst p \<in> set (lr_owned_slots s)" using lr_pending_owned [OF assms(1)] assms(2) by blast
  then have "fst p < length (lr_slots s)" using assms(1) by (auto simp: lr_inv_def lr_owned_slots_def)
  then have "length (lr_slots s ! fst p) = lr_entry_size s"
    using assms(1) by (simp add: lr_inv_def list_all_length)
  then show ?thesis using assms by (auto simp: slot_data_def lr_inv_def list_all_iff)
qed

lemma lr_take_batch_data:
  assumes "lr_inv s" and "lr_pending s \<noteq> []" and "0 < cap" and "0 < m"
  shows "\<exists>cs s'. lr_take_batch s cap m = (cs, s') \<and> data_batch cs \<and> length cs \<le> cap
    \<and> length (batch_bytes (butlast cs)) < m
    \<and> batch_bytes cs @ lr_pending_bytes s' = lr_pending_bytes s
    \<and> lr_error s' = lr_error s \<and> lr_eof s' = lr_eof s \<and> lr_waiter s' = lr_waiter s
    \<and> lr_entry_size s' = lr_entry_size s"
proof -
  obtain t r where d: "drain_pending cap m 0 0 (lr_pending s) = (t, r)" by fastforce
  note batch = drain_batch [OF d assms(2-4) slot_data_length [OF assms(1)]]
  have t: "t \<noteq> []" by (rule drain_pending_progress [OF d assms(2-4)])
  from d t batch show ?thesis by (simp add: lr_take_batch_def Let_def lr_pending_bytes_def)
qed

lemma lr_take_batch_end:
  "lr_pending s = [] \<Longrightarrow> lr_take_batch s cap m =
     ([if lr_error s \<noteq> 0 then error_chunk (lr_error s) else eof_chunk], s)"
  by (simp add: lr_take_batch_def Let_def)

subsection \<open>Waiting\<close>

definition lr_waiting :: "lrs \<Rightarrow> bool" where
  "lr_waiting s \<longleftrightarrow> lr_inv s \<and> lr_waiter s \<and> \<not> lr_deliverable s \<and> lr_checked_out_count s = 0"

lemma lr_waiting_room: "lr_waiting s \<Longrightarrow> lr_room s"
  by (simp add: lr_waiting_def lr_room_def lr_deliverable_def lr_inv_def)

lemma lr_waiting_stream:
  "lr_waiting s \<Longrightarrow> lr_incoming (s, rs) = recv_bytes rs \<and> lr_outcome (s, rs) = recv_end rs"
  by (simp add: lr_waiting_def lr_deliverable_def lr_incoming_def lr_outcome_def lr_pending_bytes_def)

lemma lr_waiter_stream [simp]:
  "lr_incoming (s\<lparr>lr_waiter := b\<rparr>, rs) = lr_incoming (s, rs)"
  "lr_outcome (s\<lparr>lr_waiter := b\<rparr>, rs) = lr_outcome (s, rs)"
  "lr_incoming (lr_arm s, rs) = lr_incoming (s, rs)"
  "lr_outcome (lr_arm s, rs) = lr_outcome (s, rs)"
  by (simp_all add: lr_arm_def lr_incoming_def lr_outcome_def lr_pending_bytes_def)

lemma lr_deliverable_something:
  assumes "lr_inv s" and "lr_deliverable s"
  shows "\<not> (lr_incoming (s, rs) = [] \<and> lr_outcome (s, rs) = None)"
proof (cases "lr_pending s")
  case Nil
  with assms(2) show ?thesis by (auto simp: lr_deliverable_def lr_outcome_def)
next
  case (Cons p ps)
  then have "slot_data (lr_slots s) p \<noteq> []" using slot_data_length [OF assms(1), of p] by auto
  with Cons show ?thesis by (simp add: lr_incoming_def lr_pending_bytes_def)
qed

declare lr_wait.simps [simp del]

lemma lr_wait_spec:
  assumes "lr_waiting s" and "list_all (recv_ok (lr_entry_size s)) rs"
  shows "if recv_bytes rs = [] \<and> recv_end rs = None then lr_wait s rs = None
    else \<exists>s1 rs1. lr_wait s rs = Some (s1, rs1) \<and> lr_stream_inv (s1, rs1) \<and> lr_deliverable s1
      \<and> lr_incoming (s1, rs1) = recv_bytes rs \<and> lr_outcome (s1, rs1) = recv_end rs"
  using assms
proof (induction "length rs" arbitrary: s rs rule: less_induct)
  case less
  obtain s' rs' where f: "lr_fill s rs = (s', rs')" by fastforce
  have inv: "lr_inv s" using less.prems(1) by (simp add: lr_waiting_def)
  note fr = lr_fill_frame [OF inv less.prems(2) f] and iv = lr_fill_inv [OF inv less.prems(2) f]
  note str = lr_fill_stream [OF inv less.prems(2) f] lr_waiting_stream [OF less.prems(1)]
  have w: "lr_waiter s'" "lr_checked_out_count s' = 0" using fr less.prems(1) by (auto simp: lr_waiting_def)
  show ?case
  proof (cases "lr_deliverable s'")
    case True
    let ?s1 = "s'\<lparr>lr_waiter := False\<rparr>"
    have "lr_wait s rs = Some (?s1, rs')"
      using True w by (simp add: lr_wait.simps [of s rs] lr_on_ready_def f)
    moreover have "lr_stream_inv (?s1, rs')" using iv by (simp add: lr_stream_inv_def lr_defs)
    moreover have "lr_incoming (?s1, rs') = recv_bytes rs" "lr_outcome (?s1, rs') = recv_end rs"
      using str by simp_all
    moreover have "lr_deliverable ?s1" using True by (simp add: lr_deliverable_def)
    moreover have "\<not> (recv_bytes rs = [] \<and> recv_end rs = None)"
      using lr_deliverable_something [of s' rs'] True iv str by auto
    ultimately show ?thesis by auto
  next
    case False
    then have wt: "lr_waiting s'" using iv w by (simp add: lr_waiting_def)
    then have same: "recv_bytes rs' = recv_bytes rs" "recv_end rs' = recv_end rs"
      using str lr_waiting_stream [OF wt, of rs'] by auto
    show ?thesis
    proof (cases rs)
      case Nil
      then have "lr_wait s rs = None"
        using f False by (subst lr_wait.simps) (simp add: lr_on_ready_def)
      with Nil show ?thesis by simp
    next
      case (Cons r rs0)
      then have lt: "length rs' < length rs"
        using lr_fill_progress [OF inv _ lr_waiting_room [OF less.prems(1)]] less.prems(2) f by simp
      then have eq: "lr_wait s rs = lr_wait s' rs'"
        using False f by (simp add: lr_wait.simps [of s rs] lr_on_ready_def)
      show ?thesis using less.hyps [OF lt wt conjunct2 [OF iv]] unfolding same eq .
    qed
  qed
qed

subsection \<open>The backend keeps the stream contract\<close>

lemma lr_take_batch_frame:
  assumes "lr_inv s" and "\<not> lr_waiter s" and "list_all (recv_ok (lr_entry_size s)) rs"
    and "lr_take_batch s cap m = (cs, s')"
  shows "lr_stream_inv (s', rs)"
  using assms lr_inv_take_batch [OF assms(1,4)]
  by (auto simp: lr_stream_inv_def lr_take_batch_def Let_def split: if_splits prod.splits)

text \<open>Once something is deliverable, taking a batch behaves as the contract says.\<close>

lemma lr_take_contract:
  assumes "lr_stream_inv (s, rs)" and "lr_deliverable s" and "0 < cap" and "0 < m"
  shows "if lr_incoming (s, rs) \<noteq> []
    then \<exists>cs s'. lr_take_batch s cap m = (cs, s') \<and> data_batch cs \<and> length cs \<le> cap
        \<and> length (batch_bytes (butlast cs)) < m
        \<and> batch_bytes cs @ lr_incoming (s', rs) = lr_incoming (s, rs)
        \<and> lr_outcome (s', rs) = lr_outcome (s, rs) \<and> lr_stream_inv (s', rs)
    else \<exists>e. lr_outcome (s, rs) = Some e \<and> lr_take_batch s cap m = ([end_chunk e], s)"
proof (cases "lr_pending s = []")
  case True
  with assms(2) have "lr_incoming (s, rs) = []" "lr_error s \<noteq> 0 \<or> lr_eof s"
    by (auto simp: lr_deliverable_def lr_incoming_def lr_pending_bytes_def)
  with True show ?thesis
    by (auto simp: lr_take_batch_end lr_outcome_def end_chunk_def)
next
  case False
  have inv: "lr_inv s" using assms(1) by (simp add: lr_stream_inv_def)
  have "\<not> (lr_incoming (s, rs) = [] )"
    using False slot_data_length [OF inv, of "hd (lr_pending s)"]
    by (cases "lr_pending s") (auto simp: lr_incoming_def lr_pending_bytes_def)
  moreover from lr_take_batch_data [OF inv False assms(3,4)] obtain cs s'
    where t: "lr_take_batch s cap m = (cs, s')" "data_batch cs" "length cs \<le> cap"
      "length (batch_bytes (butlast cs)) < m"
      "batch_bytes cs @ lr_pending_bytes s' = lr_pending_bytes s"
      and k: "lr_error s' = lr_error s" "lr_eof s' = lr_eof s" by blast
  moreover have "batch_bytes cs @ lr_incoming (s', rs) = lr_incoming (s, rs)"
    using k by (simp add: lr_incoming_def flip: t(5))
  moreover have "lr_outcome (s', rs) = lr_outcome (s, rs)" using k by (simp add: lr_outcome_def)
  moreover have "lr_stream_inv (s', rs)"
    using assms(1) by (intro lr_take_batch_frame [OF inv _ _ t(1)]) (simp_all add: lr_stream_inv_def)
  ultimately show ?thesis by auto
qed

text \<open>Reclaiming changes neither what is incoming nor how the stream ends.\<close>

lemma lr_reclaim_stream:
  assumes "lr_stream_inv (s, rs)"
  shows "lr_stream_inv (lr_return_checked_out s, rs)
    \<and> lr_incoming (lr_return_checked_out s, rs) = lr_incoming (s, rs)
    \<and> lr_outcome (lr_return_checked_out s, rs) = lr_outcome (s, rs)"
  using assms lr_inv_return_checked_out [of s]
  by (auto simp: lr_stream_inv_def lr_return_checked_out_def lr_incoming_def lr_outcome_def
      lr_pending_bytes_def)

lemma lr_waiting_arm:
  assumes "lr_stream_inv (s, rs)" and "\<not> lr_deliverable (lr_return_checked_out s)"
  shows "lr_waiting (lr_arm (lr_return_checked_out s))"
  using assms lr_inv_return_checked_out [of s]
  by (auto simp: lr_waiting_def lr_arm_def lr_stream_inv_def lr_deliverable_def lr_defs
      lr_return_checked_out_def)

text \<open>\<open>next_batch\<close> from any state: reclaim, then take from a deliverable state or hang.\<close>

lemma lr_next_batch_reaches:
  assumes "lr_stream_inv st"
  shows "(lr_incoming st = [] \<and> lr_outcome st = None \<and> lr_next_batch st cap m = None)
    \<or> (\<exists>s rs. lr_stream_inv (s, rs) \<and> lr_deliverable s
        \<and> lr_incoming (s, rs) = lr_incoming st \<and> lr_outcome (s, rs) = lr_outcome st
        \<and> lr_next_batch st cap m = (case lr_take_batch s cap m of (cs, s') \<Rightarrow> Some (cs, s', rs)))"
proof -
  obtain s rs where st: "st = (s, rs)" by (cases st)
  let ?s = "lr_return_checked_out s"
  note rec = lr_reclaim_stream [of s rs]
  show ?thesis
  proof (cases "lr_deliverable ?s")
    case True
    then show ?thesis
      using rec assms unfolding st
      by (intro disjI2 exI [of _ ?s] exI [of _ rs])
        (simp add: lr_next_batch_def lr_ready_def Let_def split: prod.split)
  next
    case False
    have w: "lr_waiting (lr_arm ?s)" using lr_waiting_arm assms False st by simp
    have ok: "list_all (recv_ok (lr_entry_size (lr_arm ?s))) rs"
      using assms st by (simp add: lr_stream_inv_def lr_arm_def lr_return_checked_out_def)
    have same: "recv_bytes rs = lr_incoming st" "recv_end rs = lr_outcome st"
      using lr_waiting_stream [OF w, of rs] rec assms st by simp_all
    have nb: "lr_next_batch st cap m = (case lr_wait (lr_arm ?s) rs of None \<Rightarrow> None
        | Some (s1, rs1) \<Rightarrow> (case lr_take_batch s1 cap m of (cs, s') \<Rightarrow> Some (cs, s', rs1)))"
      using False unfolding st lr_next_batch_def lr_ready_def Let_def by simp
    from lr_wait_spec [OF w ok] show ?thesis
      unfolding nb same
      by (cases "lr_incoming st = [] \<and> lr_outcome st = None") (simp, fastforce)
  qed
qed

interpretation libc: recv_stream lr_next_batch lr_incoming lr_outcome lr_stream_inv
proof unfold_locales
  fix st :: "lrs \<times> recv_result list" and cap m :: nat
  assume "lr_stream_inv st" "lr_incoming st \<noteq> []" "0 < cap" "0 < m"
  then show "\<exists>cs st'. lr_next_batch st cap m = Some (cs, st')
        \<and> data_batch cs \<and> length cs \<le> cap
        \<and> length (batch_bytes (butlast cs)) < m
        \<and> batch_bytes cs @ lr_incoming st' = lr_incoming st
        \<and> lr_outcome st' = lr_outcome st \<and> lr_stream_inv st'"
    using lr_next_batch_reaches [of st cap m] lr_take_contract [of _ _ cap m] by fastforce
next
  fix st :: "lrs \<times> recv_result list" and cap m :: nat and e
  assume "lr_stream_inv st" "lr_incoming st = []" "lr_outcome st = Some e" "0 < cap" "0 < m"
  then show "\<exists>st'. lr_next_batch st cap m = Some ([end_chunk e], st')"
    using lr_next_batch_reaches [of st cap m] lr_take_contract [of _ _ cap m] by fastforce
next
  fix st :: "lrs \<times> recv_result list" and cap m :: nat
  assume "lr_stream_inv st" "lr_incoming st = []" "lr_outcome st = None" "0 < cap" "0 < m"
  then show "lr_next_batch st cap m = None"
    using lr_next_batch_reaches [of st cap m] lr_deliverable_something
    by (fastforce simp: lr_stream_inv_def)
next
  fix st :: "lrs \<times> recv_result list" and n
  assume "lr_stream_inv st" "lr_outcome st = Some (End_error n)"
  then show "0 < n"
    using recv_end_positive [of _ "snd st" n]
    by (auto simp: lr_stream_inv_def lr_outcome_def lr_inv_def split: if_splits)
qed

subsection \<open>Every interleaving of the poll loop and the reader\<close>

text \<open>
  A configuration is the stream, what the socket will return and the bytes handed to the
  reader so far. The queue may call \<open>on_ready\<close> at any time and may cancel the
  stream; a call of \<open>next_batch\<close> takes a batch at once, or suspends and takes one
  when it is resumed.
\<close>

inductive lr_step ::
  "lrs \<times> recv_result list \<times> byte list \<Rightarrow> lrs \<times> recv_result list \<times> byte list \<Rightarrow> bool" where
  lr_step_now: "\<not> lr_waiter s \<Longrightarrow> 0 < cap \<Longrightarrow> 0 < m \<Longrightarrow> lr_ready s = (True, s1) \<Longrightarrow>
    lr_take_batch s1 cap m = (cs, s2) \<Longrightarrow> lr_step (s, rs, out) (s2, rs, out @ batch_bytes cs)"
| lr_step_suspend: "\<not> lr_waiter s \<Longrightarrow> lr_ready s = (False, s1) \<Longrightarrow>
    lr_step (s, rs, out) (lr_arm s1, rs, out)"
| lr_step_quiet: "lr_on_ready s rs = (s1, rs1, False) \<Longrightarrow> lr_step (s, rs, out) (s1, rs1, out)"
| lr_step_wake: "0 < cap \<Longrightarrow> 0 < m \<Longrightarrow> lr_on_ready s rs = (s1, rs1, True) \<Longrightarrow>
    lr_take_batch s1 cap m = (cs, s2) \<Longrightarrow> lr_step (s, rs, out) (s2, rs1, out @ batch_bytes cs)"
| lr_step_cancel: "lr_cancel s = (s1, False) \<Longrightarrow> lr_step (s, rs, out) (s1, rs, out)"
| lr_step_cancel_wake: "0 < cap \<Longrightarrow> 0 < m \<Longrightarrow> lr_cancel s = (s1, True) \<Longrightarrow>
    lr_take_batch s1 cap m = (cs, s2) \<Longrightarrow> lr_step (s, rs, out) (s2, rs, out @ batch_bytes cs)"

definition lr_conf_inv :: "nat \<Rightarrow> byte list \<Rightarrow> lrs \<times> recv_result list \<times> byte list \<Rightarrow> bool" where
  "lr_conf_inv n sent c \<longleftrightarrow> (case c of (s, rs, out) \<Rightarrow>
     lr_inv s \<and> lr_entries s = n \<and> list_all (recv_ok (lr_entry_size s)) rs
     \<and> prefix (out @ lr_incoming (s, rs)) sent \<and> (lr_waiter s \<longrightarrow> lr_waiting s))"

lemma lr_conf_take:
  assumes "lr_conf_inv n sent (s, rs, out)" and "\<not> lr_waiter s" and "lr_take_batch s cap m = (cs, s')"
  shows "lr_conf_inv n sent (s', rs, out @ batch_bytes cs)"
proof -
  obtain t r where d: "drain_pending cap m 0 0 (lr_pending s) = (t, r)" by fastforce
  then have p: "lr_pending s = t @ r" using drain_pending_append by fastforce
  have "lr_inv s'" using assms lr_inv_take_batch by (auto simp: lr_conf_inv_def)
  moreover have "batch_bytes cs @ lr_incoming (s', rs) = lr_incoming (s, rs)"
    using assms(3) d p by (auto simp: lr_take_batch_def Let_def lr_incoming_def lr_pending_bytes_def
        split: if_splits)
  moreover have "lr_entries s' = lr_entries s" "lr_entry_size s' = lr_entry_size s" "\<not> lr_waiter s'"
    using assms(2,3) d by (auto simp: lr_take_batch_def Let_def split: if_splits)
  ultimately show ?thesis using assms(1) by (simp add: lr_conf_inv_def)
qed

lemma lr_conf_ready:
  assumes "lr_conf_inv n sent (s, rs, out)" and "\<not> lr_waiter s" and "lr_ready s = (ok, s1)"
  shows "lr_conf_inv n sent (s1, rs, out)" and "\<not> lr_waiter s1" and "lr_checked_out_count s1 = 0"
    and "lr_deliverable s1 = ok"
  using assms lr_inv_return_checked_out [of s]
  by (auto simp: lr_conf_inv_def lr_ready_def Let_def lr_return_checked_out_def lr_incoming_def
      lr_pending_bytes_def)

lemma lr_conf_suspend:
  assumes "lr_conf_inv n sent (s, rs, out)" and "\<not> lr_waiter s" and "lr_ready s = (False, s1)"
  shows "lr_conf_inv n sent (lr_arm s1, rs, out)"
proof -
  note r = lr_conf_ready [OF assms]
  have "lr_waiting (lr_arm s1)"
    using r by (simp add: lr_conf_inv_def lr_waiting_def lr_arm_def lr_defs lr_deliverable_def)
  then show ?thesis using r(1) by (simp add: lr_conf_inv_def lr_waiting_def) (simp add: lr_arm_def)
qed

lemma lr_conf_on_ready:
  assumes "lr_conf_inv n sent (s, rs, out)" and "lr_on_ready s rs = (s1, rs1, woken)"
  shows "lr_conf_inv n sent (s1, rs1, out)" and "woken \<longrightarrow> \<not> lr_waiter s1"
proof -
  obtain s2 rs2 where f: "lr_fill s rs = (s2, rs2)" by fastforce
  have c: "lr_inv s" "list_all (recv_ok (lr_entry_size s)) rs" using assms(1) by (auto simp: lr_conf_inv_def)
  note k = lr_fill_inv [OF c f] lr_fill_frame [OF c f] lr_fill_stream [OF c f]
  have s1: "s1 = (if woken then s2\<lparr>lr_waiter := False\<rparr> else s2)" "rs1 = rs2"
    "woken \<longleftrightarrow> lr_waiter s2 \<and> lr_deliverable s2"
    using assms(2) f by (auto simp: lr_on_ready_def Let_def split: if_splits)
  have "lr_inv (s2\<lparr>lr_waiter := False\<rparr>)" using k(1) by (simp add: lr_defs)
  moreover have "lr_waiter s2 \<and> \<not> lr_deliverable s2 \<longrightarrow> lr_waiting s2"
    using k assms(1) by (auto simp: lr_waiting_def lr_conf_inv_def)
  ultimately show "lr_conf_inv n sent (s1, rs1, out)"
    using k assms(1) s1 by (auto simp: lr_conf_inv_def)
  show "woken \<longrightarrow> \<not> lr_waiter s1" using s1 by simp
qed

lemma lr_conf_cancel:
  assumes "lr_conf_inv n sent (s, rs, out)" and "lr_cancel s = (s1, woken)"
  shows "lr_conf_inv n sent (s1, rs, out)" and "\<not> lr_waiter s1"
proof -
  have s1: "s1 = (if lr_error s = 0 \<and> \<not> lr_eof s then s\<lparr>lr_error := ECANCELED\<rparr> else s)\<lparr>lr_waiter := False\<rparr>"
    using assms(2) by (simp add: lr_cancel_def Let_def)
  have "prefix (lr_incoming (s1, rs)) (lr_incoming (s, rs))"
    by (auto simp: s1 lr_incoming_def lr_pending_bytes_def ECANCELED_def)
  then have "prefix (out @ lr_incoming (s1, rs)) (out @ lr_incoming (s, rs))" by simp
  also have "prefix (out @ lr_incoming (s, rs)) sent" using assms(1) by (simp add: lr_conf_inv_def)
  finally have "prefix (out @ lr_incoming (s1, rs)) sent" .
  then show "lr_conf_inv n sent (s1, rs, out)"
    using assms(1) by (auto simp: lr_conf_inv_def s1 lr_defs ECANCELED_def)
  show "\<not> lr_waiter s1" by (simp add: s1)
qed

lemma lr_step_inv:
  assumes "lr_step c c'" and "lr_conf_inv n sent c"
  shows "lr_conf_inv n sent c'"
  using assms
proof (induction rule: lr_step.induct)
  case (lr_step_now s cap m s1 cs s2 rs out)
  note r = lr_conf_ready [OF lr_step_now.prems lr_step_now.hyps(1,4)]
  show ?case by (rule lr_conf_take [OF r(1,2) lr_step_now.hyps(5)])
next
  case (lr_step_suspend s s1 rs out)
  show ?case by (rule lr_conf_suspend [OF lr_step_suspend.prems lr_step_suspend.hyps])
next
  case (lr_step_quiet s rs s1 rs1 out)
  show ?case by (rule lr_conf_on_ready [OF lr_step_quiet.prems lr_step_quiet.hyps])
next
  case (lr_step_wake cap m s rs s1 rs1 cs s2 out)
  note r = lr_conf_on_ready [OF lr_step_wake.prems lr_step_wake.hyps(3)]
  show ?case by (rule lr_conf_take [OF r(1) _ lr_step_wake.hyps(4)]) (simp add: r(2))
next
  case (lr_step_cancel s s1 rs out)
  show ?case by (rule lr_conf_cancel [OF lr_step_cancel.prems lr_step_cancel.hyps])
next
  case (lr_step_cancel_wake cap m s s1 cs s2 rs out)
  note r = lr_conf_cancel [OF lr_step_cancel_wake.prems lr_step_cancel_wake.hyps(3)]
  show ?case by (rule lr_conf_take [OF r lr_step_cancel_wake.hyps(4)])
qed

lemma lr_reachable_inv:
  assumes "lr_step\<^sup>*\<^sup>* c c'" and "lr_conf_inv n sent c"
  shows "lr_conf_inv n sent c'"
  using assms by (induction rule: rtranclp_induct) (auto intro: lr_step_inv)

lemma lr_create_inv:
  assumes "0 < n" and "list_all (recv_ok es) rs" and "lr_create es n rs = (s, rs')"
  shows "lr_conf_inv n (recv_bytes rs) (s, rs', [])" and "lr_stream_inv (s, rs')"
    and "lr_incoming (s, rs') = recv_bytes rs" and "lr_outcome (s, rs') = recv_end rs"
proof -
  let ?s = "\<lparr>lr_entry_size = es, lr_entries = n, lr_slots = replicate n (replicate es 0),
    lr_write_idx = 0, lr_pending = [], lr_checked_out_count = 0, lr_eof = False, lr_error = 0,
    lr_waiter = False\<rparr>"
  have inv: "lr_inv ?s" using assms(1) by (simp add: lr_defs list_all_length)
  have f: "lr_fill ?s rs = (s, rs')"
    using assms(3) lr_fill_frame [OF inv, of rs] assms(2)
    by (auto simp: lr_create_def lr_on_ready_def Let_def split: prod.splits if_splits)
  have ok: "list_all (recv_ok (lr_entry_size ?s)) rs" using assms(2) by simp
  note k = lr_fill_inv [OF inv ok f] lr_fill_frame [OF inv ok f] lr_fill_stream [OF inv ok f]
  have z: "lr_incoming (?s, rs) = recv_bytes rs" "lr_outcome (?s, rs) = recv_end rs"
    by (simp_all add: lr_incoming_def lr_outcome_def lr_pending_bytes_def)
  show i: "lr_incoming (s, rs') = recv_bytes rs" "lr_outcome (s, rs') = recv_end rs"
    using k z by simp_all
  show "lr_stream_inv (s, rs')" using k by (simp add: lr_stream_inv_def)
  show "lr_conf_inv n (recv_bytes rs) (s, rs', [])" using k i by (simp add: lr_conf_inv_def)
qed

subsection \<open>Properties\<close>



text \<open>
  C9. Over the libc stream, any sequence of \<open>read_exact\<close> and
  \<open>read_exact_into\<close> calls returns exactly the frames of the received byte sequence,
  whatever sizes \<open>::recv\<close> returns, wherever it would block and however small the
  ring; a read that cannot be filled fails the way the stream ends, or waits if it does not
  end.
\<close>

theorem libc_reads_frames:
  assumes "0 < n" and "list_all (recv_ok es) rs"
  shows "read_frames lr_next_batch fs (empty_reader, lr_create es n rs)
    = spec_frames (map snd fs) (recv_bytes rs) (recv_end rs)"
proof -
  obtain s rs' where c: "lr_create es n rs = (s, rs')" by fastforce
  with libc.read_frames_spec [of "(s, rs')" empty_reader fs] lr_create_inv [OF assms c] show ?thesis
    by (simp add: reader_inv_def leftover_def empty_reader_def)
qed

theorem libc_reads_frames_witness:
  "read_frames lr_next_batch [(False, 3), (True, 2), (False, 1)]
     (empty_reader,
      lr_create 4 1 [Recv_bytes [1, 2], Recv_errno EAGAIN, Recv_bytes [3, 4, 5], Recv_bytes []])
   = Some ([[1, 2, 3], [4, 5]], Some closed_mid_message)"
  using libc_reads_frames [of 1 4
      "[Recv_bytes [1, 2], Recv_errno EAGAIN, Recv_bytes [3, 4, 5], Recv_bytes []]"
      "[(False, 3), (True, 2), (False, 1)]"]
  by (simp add: spec_read_def end_exn_def EAGAIN_def)

end
