(* ===== verification/Uring_Recv_Stream.thy ===== *)
theory Uring_Recv_Stream
  imports Framed_Reader
begin

text \<open>
  The multishot stream of \<open>easyio/src/uring_recv_stream.cpp\<close>: \<open>RecvStreamImpl\<close>
  with the provided buffer ring and the \<open>_live\<close> flag of its \<open>RecvSink\<close>. The
  completions are the raw \<open>res\<close> and \<open>flags\<close> of a CQE, decoded bit by bit as the
  source decodes them. The kernel's half of the ring (which buffer ids it may still fill,
  what it writes into them) is part of the state; the socket is a list of items the kernel
  turns into completions while a receive operation is live.
\<close>

unbundle bit_operations_syntax

subsection \<open>Definitions\<close>

definition IORING_CQE_F_BUFFER :: u32 where "IORING_CQE_F_BUFFER = 1"
definition IORING_CQE_F_MORE :: u32 where "IORING_CQE_F_MORE = 2"
definition IORING_CQE_BUFFER_SHIFT :: nat where "IORING_CQE_BUFFER_SHIFT = 16"

record urs =
  ur_entry_size :: nat
  ur_entries :: nat
  ur_slots :: "byte list list"
  ur_ring :: "nat list"
  ur_live :: bool
  ur_pending :: "(nat \<times> nat) list"
  ur_checked_out :: "nat list"
  ur_eof :: bool
  ur_error :: errno
  ur_needs_resubmit :: bool
  ur_waiter :: bool

definition ur_deliverable :: "urs \<Rightarrow> bool" where
  "ur_deliverable s \<longleftrightarrow> ur_pending s \<noteq> [] \<or> ur_eof s \<or> ur_error s \<noteq> 0"

definition ur_submit_recv :: "urs \<Rightarrow> urs" where
  "ur_submit_recv s = s\<lparr>ur_live := True\<rparr>"

definition ur_create :: "nat \<Rightarrow> nat \<Rightarrow> urs" where
  "ur_create entry_size entries =
     ur_submit_recv
       \<lparr>ur_entry_size = entry_size, ur_entries = entries,
        ur_slots = replicate entries (replicate entry_size 0),
        ur_ring = [0..<entries], ur_live = False, ur_pending = [], ur_checked_out = [],
        ur_eof = False, ur_error = 0, ur_needs_resubmit = False, ur_waiter = False\<rparr>"

definition ur_maybe_resubmit :: "urs \<Rightarrow> urs" where
  "ur_maybe_resubmit s =
     (if ur_needs_resubmit s \<and> ur_checked_out s = []
      then ur_submit_recv (s\<lparr>ur_needs_resubmit := False\<rparr>) else s)"

definition ur_return_checked_out :: "urs \<Rightarrow> urs" where
  "ur_return_checked_out s =
     ur_maybe_resubmit
       (if ur_checked_out s \<noteq> []
        then s\<lparr>ur_ring := ur_ring s @ ur_checked_out s, ur_checked_out := []\<rparr> else s)"

definition ur_ready :: "urs \<Rightarrow> bool \<times> urs" where
  "ur_ready s = (let s' = ur_return_checked_out s in (ur_deliverable s', s'))"

definition ur_arm :: "urs \<Rightarrow> urs" where
  "ur_arm s = s\<lparr>ur_waiter := True\<rparr>"

definition ur_take :: "urs \<Rightarrow> chunk \<times> urs" where
  "ur_take s =
     (case ur_pending s of
        p # ps \<Rightarrow> (data_chunk (slot_data (ur_slots s) p),
                   s\<lparr>ur_pending := ps, ur_checked_out := ur_checked_out s @ [fst p]\<rparr>)
      | [] \<Rightarrow> if ur_error s \<noteq> 0 then (error_chunk (ur_error s), s) else (eof_chunk, s))"

definition ur_take_batch :: "urs \<Rightarrow> nat \<Rightarrow> nat \<Rightarrow> chunk list \<times> urs" where
  "ur_take_batch s cap m =
     (let (t, r) = drain_pending cap m 0 0 (ur_pending s);
          s' = s\<lparr>ur_pending := r, ur_checked_out := ur_checked_out s @ map fst t\<rparr>
      in if t = [] then ([if ur_error s \<noteq> 0 then error_chunk (ur_error s) else eof_chunk], s')
         else (map (\<lambda>p. data_chunk (slot_data (ur_slots s) p)) t, s'))"

text \<open>\<open>RecvStreamImpl::handle_cqe\<close>; the flag says whether the reader was resumed.\<close>

definition ur_handle_cqe :: "urs \<Rightarrow> int \<Rightarrow> u32 \<Rightarrow> urs \<times> bool" where
  "ur_handle_cqe s res flags =
     (let f_more = (flags AND IORING_CQE_F_MORE \<noteq> 0);
          (s1, enobufs) =
            (if res < 0 then
               (if - res = ENOBUFS then (s\<lparr>ur_needs_resubmit := True\<rparr>, True)
                else (s\<lparr>ur_error := - res\<rparr>, False))
             else if flags AND IORING_CQE_F_BUFFER \<noteq> 0 then
               (let buf_idx = unat (drop_bit IORING_CQE_BUFFER_SHIFT flags);
                    s' = s\<lparr>ur_pending := ur_pending s @ [(buf_idx, nat res)]\<rparr>
                in if \<not> f_more then (s'\<lparr>ur_needs_resubmit := True\<rparr>, True) else (s', False))
             else (s\<lparr>ur_eof := True\<rparr>, False));
          s2 = (if \<not> f_more \<and> ur_error s1 = 0 \<and> \<not> ur_eof s1 \<and> \<not> enobufs
                then s1\<lparr>ur_eof := True\<rparr> else s1);
          s3 = (if enobufs then ur_maybe_resubmit s2 else s2)
      in if ur_waiter s3 \<and> ur_deliverable s3 then (s3\<lparr>ur_waiter := False\<rparr>, True)
         else (s3, False))"

text \<open>\<open>RecvSink::on_cqe\<close> while the stream is attached.\<close>

definition ur_on_cqe :: "urs \<Rightarrow> int \<Rightarrow> u32 \<Rightarrow> urs \<times> bool" where
  "ur_on_cqe s res flags =
     ur_handle_cqe (if flags AND IORING_CQE_F_MORE = 0 then s\<lparr>ur_live := False\<rparr> else s) res flags"

text \<open>
  The kernel. A socket item is a run of bytes (with whether its completion carries
  \<open>IORING_CQE_F_MORE\<close>), the end of the stream, or an error. A run needs a buffer of
  the ring: the kernel fills the one at the ring's head. With no buffer the operation ends
  with \<open>ENOBUFS\<close> and the run stays in the socket (the last component).
\<close>

datatype sock_item = Sock_data "byte list" bool | Sock_eof | Sock_error errno

definition buffer_flags :: "nat \<Rightarrow> bool \<Rightarrow> u32" where
  "buffer_flags i f_more =
     IORING_CQE_F_BUFFER OR (if f_more then IORING_CQE_F_MORE else 0)
     OR push_bit IORING_CQE_BUFFER_SHIFT (of_nat i)"

definition kernel_cqe :: "urs \<Rightarrow> sock_item \<Rightarrow> urs \<times> int \<times> u32 \<times> bool" where
  "kernel_cqe s it =
     (case it of
        Sock_data d f_more \<Rightarrow>
          (case ur_ring s of
             [] \<Rightarrow> (s, - ENOBUFS, 0, True)
           | i # is \<Rightarrow> (s\<lparr>ur_ring := is,
                          ur_slots := (ur_slots s)[i := d @ drop (length d) (ur_slots s ! i)]\<rparr>,
                        int (length d), buffer_flags i f_more, False))
      | Sock_eof \<Rightarrow> (s, 0, 0, False)
      | Sock_error e \<Rightarrow> (s, - e, 0, False))"

text \<open>
  The suspended reader: completions arrive while an operation is live. When the ring is
  empty the operation fails with \<open>ENOBUFS\<close> again and again, since only the reader
  returns buffers: it is never resumed.
\<close>

fun ur_wait :: "urs \<Rightarrow> sock_item list \<Rightarrow> (urs \<times> sock_item list) option" where
  "ur_wait s [] = None"
| "ur_wait s (it # its) =
     (if \<not> ur_live s then None
      else (case kernel_cqe s it of (s1, res, flags, stays) \<Rightarrow>
              (case ur_on_cqe s1 res flags of (s2, woken) \<Rightarrow>
                 if woken then Some (s2, if stays then it # its else its)
                 else if stays then None else ur_wait s2 its)))"

definition ur_next_batch :: "(urs \<times> sock_item list) next_batch" where
  "ur_next_batch st cap m =
     (let (ok, s) = ur_ready (fst st) in
      if ok then (let (cs, s') = ur_take_batch s cap m in Some (cs, s', snd st))
      else (case ur_wait (ur_arm s) (snd st) of
              None \<Rightarrow> None
            | Some (s1, its1) \<Rightarrow> (let (cs, s') = ur_take_batch s1 cap m in Some (cs, s', its1))))"

fun sock_bytes :: "sock_item list \<Rightarrow> byte list" where
  "sock_bytes [] = []"
| "sock_bytes (Sock_data d f_more # its) = d @ sock_bytes its"
| "sock_bytes (Sock_eof # its) = []"
| "sock_bytes (Sock_error e # its) = []"

fun sock_end :: "sock_item list \<Rightarrow> stream_end option" where
  "sock_end [] = None"
| "sock_end (Sock_data d f_more # its) = sock_end its"
| "sock_end (Sock_eof # its) = Some End_eof"
| "sock_end (Sock_error e # its) = Some (End_error e)"

fun sock_ok :: "nat \<Rightarrow> sock_item \<Rightarrow> bool" where
  "sock_ok es (Sock_data d f_more) \<longleftrightarrow> d \<noteq> [] \<and> length d \<le> es"
| "sock_ok es Sock_eof \<longleftrightarrow> True"
| "sock_ok es (Sock_error e) \<longleftrightarrow> 0 < e \<and> e \<noteq> ENOBUFS"

definition ur_pending_bytes :: "urs \<Rightarrow> byte list" where
  "ur_pending_bytes s = concat (map (slot_data (ur_slots s)) (ur_pending s))"

definition ur_ended :: "urs \<Rightarrow> bool" where
  "ur_ended s \<longleftrightarrow> ur_error s \<noteq> 0 \<or> ur_eof s"

definition ur_incoming :: "urs \<times> sock_item list \<Rightarrow> byte list" where
  "ur_incoming st = ur_pending_bytes (fst st)
     @ (if ur_ended (fst st) then [] else sock_bytes (snd st))"

definition ur_outcome :: "urs \<times> sock_item list \<Rightarrow> stream_end option" where
  "ur_outcome st =
     (if ur_error (fst st) \<noteq> 0 then Some (End_error (ur_error (fst st)))
      else if ur_eof (fst st) then Some End_eof else sock_end (snd st))"

text \<open>
  Buffer ownership: every buffer id is in exactly one place, the kernel's ring, the pending
  queue or the reader's hands. An operation is live unless the stream ended or a resubmit
  is waiting for the reader to give its buffers back.
\<close>

definition ur_owners :: "urs \<Rightarrow> nat list" where
  "ur_owners s = ur_ring s @ map fst (ur_pending s) @ ur_checked_out s"

definition ur_inv :: "urs \<Rightarrow> bool" where
  "ur_inv s \<longleftrightarrow> 0 < ur_entries s \<and> ur_entries s \<le> 32768
     \<and> length (ur_slots s) = ur_entries s
     \<and> list_all (\<lambda>x. length x = ur_entry_size s) (ur_slots s)
     \<and> mset (ur_owners s) = mset [0..<ur_entries s]
     \<and> list_all (\<lambda>p. 0 < snd p \<and> snd p \<le> ur_entry_size s) (ur_pending s)
     \<and> 0 \<le> ur_error s
     \<and> (ur_live s \<longleftrightarrow> \<not> ur_ended s \<and> \<not> ur_needs_resubmit s)
     \<and> (ur_needs_resubmit s \<longrightarrow> ur_checked_out s \<noteq> [] \<and> \<not> ur_ended s)"

definition ur_stream_inv :: "urs \<times> sock_item list \<Rightarrow> bool" where
  "ur_stream_inv st \<longleftrightarrow> ur_inv (fst st) \<and> list_all (sock_ok (ur_entry_size (fst st))) (snd st)
     \<and> \<not> ur_waiter (fst st)"

subsection \<open>Completion flags\<close>

lemma buffer_flags_bits:
  assumes "i < 65536"
  shows "buffer_flags i f_more AND IORING_CQE_F_BUFFER \<noteq> 0"
    and "(buffer_flags i f_more AND IORING_CQE_F_MORE \<noteq> 0) = f_more"
    and "unat (drop_bit IORING_CQE_BUFFER_SHIFT (buffer_flags i f_more)) = i"
proof -
  let ?f = "buffer_flags i f_more"
  have b0: "bit ?f 0" and b1: "bit ?f 1 = f_more"
    by (auto simp: buffer_flags_def IORING_CQE_F_BUFFER_def IORING_CQE_F_MORE_def
        IORING_CQE_BUFFER_SHIFT_def bit_simps bit_numeral_rec)
  have "bit (?f AND IORING_CQE_F_BUFFER) 0"
    using b0 by (simp add: bit_and_iff IORING_CQE_F_BUFFER_def)
  then show "?f AND IORING_CQE_F_BUFFER \<noteq> 0" by auto
  show "(?f AND IORING_CQE_F_MORE \<noteq> 0) = f_more"
  proof
    assume "?f AND IORING_CQE_F_MORE \<noteq> 0"
    then obtain n where "bit (?f AND IORING_CQE_F_MORE) n" by (metis bit_eqI bit_0_eq bot_apply bot_bool_def)
    then show f_more
      using b1 by (auto simp: bit_and_iff IORING_CQE_F_MORE_def bit_numeral_rec bit_1_iff split: nat.splits)
  next
    assume f_more
    then have "bit (?f AND IORING_CQE_F_MORE) 1"
      using b1 by (simp add: bit_and_iff IORING_CQE_F_MORE_def bit_numeral_rec)
    then show "?f AND IORING_CQE_F_MORE \<noteq> 0" by auto
  qed
  have "drop_bit IORING_CQE_BUFFER_SHIFT ?f = of_nat i"
  proof (rule bit_word_eqI)
    fix n assume "n < LENGTH(32)"
    have "n < 16" if "bit i n"
    proof (rule ccontr)
      assume "\<not> n < 16"
      then have "i < 2 ^ n" using assms power_increasing [of 16 n "2 :: nat"] by simp
      then show False using that by (simp add: bit_iff_odd)
    qed
    then show "bit (drop_bit IORING_CQE_BUFFER_SHIFT ?f) n = bit (of_nat i :: u32) n"
      by (auto simp: buffer_flags_def IORING_CQE_F_BUFFER_def IORING_CQE_F_MORE_def
          IORING_CQE_BUFFER_SHIFT_def bit_simps bit_numeral_rec split: nat.splits)
  qed
  then show "unat (drop_bit IORING_CQE_BUFFER_SHIFT ?f) = i"
    using assms by (simp add: unat_of_nat)
qed

subsection \<open>What each completion does\<close>

definition ur_wake :: "urs \<Rightarrow> urs \<times> bool" where
  "ur_wake s = (if ur_waiter s \<and> ur_deliverable s then (s\<lparr>ur_waiter := False\<rparr>, True) else (s, False))"

lemma ur_on_cqe_data:
  assumes "i < 65536"
  shows "ur_on_cqe s (int n) (buffer_flags i f_more) =
    ur_wake (if f_more then s\<lparr>ur_pending := ur_pending s @ [(i, n)]\<rparr>
             else ur_maybe_resubmit (s\<lparr>ur_live := False, ur_pending := ur_pending s @ [(i, n)],
                                       ur_needs_resubmit := True\<rparr>))"
  using buffer_flags_bits [OF assms, of f_more]
  by (cases f_more) (simp_all add: ur_on_cqe_def ur_handle_cqe_def Let_def ur_wake_def)

lemma ur_on_cqe_enobufs:
  "ur_on_cqe s (- ENOBUFS) 0 =
     ur_wake (ur_maybe_resubmit (s\<lparr>ur_live := False, ur_needs_resubmit := True\<rparr>))"
  by (simp add: ur_on_cqe_def ur_handle_cqe_def Let_def ur_wake_def ENOBUFS_def)

lemma ur_on_cqe_eof:
  "ur_on_cqe s 0 0 = ur_wake (s\<lparr>ur_live := False, ur_eof := True\<rparr>)"
  by (simp add: ur_on_cqe_def ur_handle_cqe_def Let_def ur_wake_def)

lemma ur_on_cqe_error:
  "0 < e \<Longrightarrow> e \<noteq> ENOBUFS \<Longrightarrow> ur_on_cqe s (- e) 0 = ur_wake (s\<lparr>ur_live := False, ur_error := e\<rparr>)"
  by (simp add: ur_on_cqe_def ur_handle_cqe_def Let_def ur_wake_def)

lemmas ur_on_cqe_eqs = ur_on_cqe_data ur_on_cqe_enobufs ur_on_cqe_eof ur_on_cqe_error

text \<open>One socket item: the kernel's completion and its handling.\<close>

definition ur_item :: "urs \<Rightarrow> sock_item \<Rightarrow> urs \<times> bool \<times> bool" where
  "ur_item s it =
     (case kernel_cqe s it of (s1, res, flags, stays) \<Rightarrow>
        (case ur_on_cqe s1 res flags of (s2, woken) \<Rightarrow> (s2, woken, stays)))"

lemma ur_wait_item:
  "ur_wait s (it # its) =
     (if \<not> ur_live s then None
      else (case ur_item s it of (s2, woken, stays) \<Rightarrow>
              if woken then Some (s2, if stays then it # its else its)
              else if stays then None else ur_wait s2 its))"
  by (simp add: ur_item_def split: prod.splits)

lemma ur_inv_wake: "ur_inv (fst (ur_wake s)) = ur_inv s"
  by (simp add: ur_wake_def ur_inv_def ur_owners_def ur_ended_def)

lemma ur_wake_sel [simp]:
  "ur_pending (fst (ur_wake s)) = ur_pending s" "ur_slots (fst (ur_wake s)) = ur_slots s"
  "ur_checked_out (fst (ur_wake s)) = ur_checked_out s" "ur_error (fst (ur_wake s)) = ur_error s"
  "ur_eof (fst (ur_wake s)) = ur_eof s" "ur_entry_size (fst (ur_wake s)) = ur_entry_size s"
  "ur_entries (fst (ur_wake s)) = ur_entries s" "ur_live (fst (ur_wake s)) = ur_live s"
  "ur_ring (fst (ur_wake s)) = ur_ring s" "ur_needs_resubmit (fst (ur_wake s)) = ur_needs_resubmit s"
  by (simp_all add: ur_wake_def)

lemma ur_wake_flag: "snd (ur_wake s) = (ur_waiter s \<and> ur_deliverable s)"
  by (simp add: ur_wake_def)

lemma ur_maybe_resubmit_sel [simp]:
  "ur_pending (ur_maybe_resubmit s) = ur_pending s" "ur_slots (ur_maybe_resubmit s) = ur_slots s"
  "ur_checked_out (ur_maybe_resubmit s) = ur_checked_out s" "ur_error (ur_maybe_resubmit s) = ur_error s"
  "ur_eof (ur_maybe_resubmit s) = ur_eof s" "ur_entry_size (ur_maybe_resubmit s) = ur_entry_size s"
  "ur_entries (ur_maybe_resubmit s) = ur_entries s" "ur_ring (ur_maybe_resubmit s) = ur_ring s"
  "ur_waiter (ur_maybe_resubmit s) = ur_waiter s"
  "ur_live (ur_maybe_resubmit s) =
     (ur_live s \<or> ur_needs_resubmit s \<and> ur_checked_out s = [])"
  "ur_needs_resubmit (ur_maybe_resubmit s) = (ur_needs_resubmit s \<and> ur_checked_out s \<noteq> [])"
  by (auto simp: ur_maybe_resubmit_def ur_submit_recv_def)

subsection \<open>Buffer ownership\<close>

lemma ur_owner_bound:
  assumes "ur_inv s" and "i \<in> set (ur_owners s)"
  shows "i < ur_entries s"
proof -
  have "set (ur_owners s) = set [0..<ur_entries s]"
    using assms(1) by (metis mset_eq_setD ur_inv_def)
  with assms(2) show ?thesis by simp
qed

lemma ur_owners_distinct: "ur_inv s \<Longrightarrow> distinct (ur_owners s)"
  by (metis distinct_upt mset_eq_imp_distinct_iff ur_inv_def)

lemma ur_slot_data_length:
  assumes "ur_inv s" and "p \<in> set (ur_pending s)"
  shows "length (slot_data (ur_slots s) p) = snd p \<and> 0 < snd p"
proof -
  have "fst p < length (ur_slots s)"
    using ur_owner_bound [OF assms(1), of "fst p"] assms by (auto simp: ur_owners_def ur_inv_def)
  then have "length (ur_slots s ! fst p) = ur_entry_size s"
    using assms(1) by (simp add: ur_inv_def list_all_length)
  then show ?thesis using assms by (auto simp: slot_data_def ur_inv_def list_all_iff)
qed

text \<open>The kernel writes into a ring buffer, so no pending or checked-out one changes.\<close>

lemma ur_kernel_write_safe:
  assumes "ur_inv s" and "ur_ring s = i # is" and "j \<in> fst ` set (ur_pending s) \<union> set (ur_checked_out s)"
  shows "(ur_slots s)[i := d] ! j = ur_slots s ! j"
proof -
  have "i \<noteq> j" using ur_owners_distinct [OF assms(1)] assms(2,3) by (auto simp: ur_owners_def)
  then show ?thesis by simp
qed

lemma ur_pending_bytes_data:
  assumes "ur_inv s" and "ur_ring s = i # is"
  shows "concat (map (slot_data ((ur_slots s)[i := d @ x])) (ur_pending s @ [(i, length d)]))
    = ur_pending_bytes s @ d"
proof -
  have "map (slot_data ((ur_slots s)[i := d @ x])) (ur_pending s) = map (slot_data (ur_slots s)) (ur_pending s)"
    using ur_kernel_write_safe [OF assms] by (intro map_cong) (auto simp: slot_data_def)
  moreover have "i < length (ur_slots s)"
    using ur_owner_bound [OF assms(1), of i] assms by (simp add: ur_owners_def ur_inv_def)
  then have "slot_data ((ur_slots s)[i := d @ x]) (i, length d) = d" by (simp add: slot_data_def)
  ultimately show ?thesis
    by (simp only: ur_pending_bytes_def map_append concat_append list.map concat.simps append_Nil2)
qed

lemma ur_item_data:
  assumes "ur_inv s" and "ur_ring s = i # is"
  shows "ur_item s (Sock_data d f_more) =
    (let s1 = s\<lparr>ur_ring := is, ur_slots := (ur_slots s)[i := d @ drop (length d) (ur_slots s ! i)]\<rparr>;
         s2 = (if f_more then s1\<lparr>ur_pending := ur_pending s @ [(i, length d)]\<rparr>
               else ur_maybe_resubmit (s1\<lparr>ur_live := False, ur_pending := ur_pending s @ [(i, length d)],
                                         ur_needs_resubmit := True\<rparr>))
     in (fst (ur_wake s2), snd (ur_wake s2), False))"
proof -
  have "i < 65536" using ur_owner_bound [OF assms(1), of i] assms by (simp add: ur_owners_def ur_inv_def)
  then show ?thesis
    using assms(2) by (simp add: ur_item_def kernel_cqe_def ur_on_cqe_data Let_def split: prod.split)
qed

lemma ur_item_no_buffer:
  "ur_ring s = [] \<Longrightarrow> ur_item s (Sock_data d f_more) =
     (let s2 = ur_maybe_resubmit (s\<lparr>ur_live := False, ur_needs_resubmit := True\<rparr>)
      in (fst (ur_wake s2), snd (ur_wake s2), True))"
  by (simp add: ur_item_def kernel_cqe_def ur_on_cqe_enobufs Let_def split: prod.split)

lemma ur_item_eof:
  "ur_item s Sock_eof =
     (let s2 = s\<lparr>ur_live := False, ur_eof := True\<rparr> in (fst (ur_wake s2), snd (ur_wake s2), False))"
  by (simp add: ur_item_def kernel_cqe_def ur_on_cqe_eof Let_def split: prod.split)

lemma ur_item_error:
  "0 < e \<Longrightarrow> e \<noteq> ENOBUFS \<Longrightarrow> ur_item s (Sock_error e) =
     (let s2 = s\<lparr>ur_live := False, ur_error := e\<rparr> in (fst (ur_wake s2), snd (ur_wake s2), False))"
  by (simp add: ur_item_def kernel_cqe_def ur_on_cqe_error Let_def split: prod.split)

text \<open>Every completion keeps the invariant, and the byte stream stays what it is.\<close>

lemma ur_item_inv:
  assumes "ur_inv s" and "ur_live s" and "sock_ok (ur_entry_size s) it"
    and "ur_item s it = (s2, woken, stays)"
  shows "ur_inv s2 \<and> ur_entry_size s2 = ur_entry_size s \<and> ur_checked_out s2 = ur_checked_out s"
proof (cases it)
  case (Sock_data d f_more)
  show ?thesis
  proof (cases "ur_ring s")
    case Nil
    with assms Sock_data show ?thesis
      by (auto simp: ur_item_no_buffer Let_def ur_inv_wake) (auto simp: ur_inv_def ur_owners_def ur_ended_def)
  next
    case (Cons i "is")
    with ur_owner_bound [OF assms(1), of i] have "i < ur_entries s" by (simp add: ur_owners_def)
    then have len: "list_all (\<lambda>x. length x = ur_entry_size s)
        ((ur_slots s)[i := d @ drop (length d) (ur_slots s ! i)])"
      using assms(1,3) Sock_data by (auto simp: ur_inv_def list_all_length nth_list_update)
    show ?thesis
      using assms Sock_data Cons len
      by (cases f_more) (auto simp: ur_item_data [OF assms(1) Cons] Let_def ur_inv_wake,
        auto simp: ur_inv_def ur_owners_def ur_ended_def)
  qed
next
  case Sock_eof
  with assms show ?thesis
    by (auto simp: ur_item_eof Let_def ur_inv_wake) (auto simp: ur_inv_def ur_owners_def ur_ended_def)
next
  case (Sock_error e)
  with assms show ?thesis
    by (auto simp: ur_item_error Let_def ur_inv_wake) (auto simp: ur_inv_def ur_owners_def ur_ended_def)
qed

lemma ur_item_stream:
  assumes "ur_inv s" and "ur_live s" and "sock_ok (ur_entry_size s) it"
    and "ur_item s it = (s2, woken, stays)"
  shows "ur_incoming (s2, if stays then it # its else its) = ur_incoming (s, it # its)
    \<and> ur_outcome (s2, if stays then it # its else its) = ur_outcome (s, it # its)"
proof -
  have live: "ur_error s = 0" "\<not> ur_eof s" using assms(1,2) by (auto simp: ur_inv_def ur_ended_def)
  show ?thesis
  proof (cases it)
    case (Sock_data d f_more)
    show ?thesis
    proof (cases "ur_ring s")
      case Nil
      with assms Sock_data live show ?thesis
        by (auto simp: ur_item_no_buffer Let_def ur_incoming_def ur_outcome_def ur_ended_def ur_pending_bytes_def)
    next
      case (Cons i "is")
      with assms(4) Sock_data live show ?thesis
        using ur_pending_bytes_data [OF assms(1) Cons, of d "drop (length d) (ur_slots s ! i)"]
        by (cases f_more) (auto simp: ur_item_data [OF assms(1) Cons] Let_def ur_incoming_def
            ur_outcome_def ur_ended_def ur_pending_bytes_def simp flip: append_assoc)
    qed
  next
    case Sock_eof
    with assms live show ?thesis
      by (auto simp: ur_item_eof Let_def ur_incoming_def ur_outcome_def ur_ended_def ur_pending_bytes_def)
  next
    case (Sock_error e)
    with assms live show ?thesis
      by (auto simp: ur_item_error Let_def ur_incoming_def ur_outcome_def ur_ended_def ur_pending_bytes_def)
  qed
qed

subsection \<open>Handing out and reclaiming\<close>

lemma ur_reclaim:
  assumes "ur_inv s"
  shows "ur_inv (ur_return_checked_out s)" "ur_checked_out (ur_return_checked_out s) = []"
    and "ur_incoming (ur_return_checked_out s, its) = ur_incoming (s, its)"
    and "ur_outcome (ur_return_checked_out s, its) = ur_outcome (s, its)"
    and "ur_entry_size (ur_return_checked_out s) = ur_entry_size s"
    and "ur_waiter (ur_return_checked_out s) = ur_waiter s"
  using assms
  by (auto simp: ur_return_checked_out_def ur_inv_def ur_owners_def ur_ended_def ur_incoming_def
      ur_outcome_def ur_pending_bytes_def ac_simps)

lemma ur_inv_take_batch:
  assumes "ur_inv s" and "ur_take_batch s cap m = (cs, s')"
  shows "ur_inv s' \<and> ur_entry_size s' = ur_entry_size s \<and> ur_waiter s' = ur_waiter s"
proof -
  obtain t r where d: "drain_pending cap m 0 0 (ur_pending s) = (t, r)" by fastforce
  then have p: "ur_pending s = t @ r" using drain_pending_append by fastforce
  have s': "s' = s\<lparr>ur_pending := r, ur_checked_out := ur_checked_out s @ map fst t\<rparr>"
    using assms(2) d by (auto simp: ur_take_batch_def Let_def split: if_splits)
  show ?thesis using assms(1) p by (auto simp: s' ur_inv_def ur_owners_def ur_ended_def ac_simps)
qed

lemma ur_deliverable_something:
  assumes "ur_inv s" and "ur_deliverable s"
  shows "\<not> (ur_incoming (s, its) = [] \<and> ur_outcome (s, its) = None)"
proof (cases "ur_pending s")
  case Nil
  with assms(2) show ?thesis by (auto simp: ur_deliverable_def ur_outcome_def)
next
  case (Cons p ps)
  then have "slot_data (ur_slots s) p \<noteq> []" using ur_slot_data_length [OF assms(1), of p] by auto
  with Cons show ?thesis by (simp add: ur_incoming_def ur_pending_bytes_def)
qed

lemma ur_take_contract:
  assumes "ur_stream_inv (s, its)" and "ur_deliverable s" and "0 < cap" and "0 < m"
  shows "if ur_incoming (s, its) \<noteq> []
    then \<exists>cs s'. ur_take_batch s cap m = (cs, s') \<and> data_batch cs \<and> length cs \<le> cap
        \<and> length (batch_bytes (butlast cs)) < m
        \<and> batch_bytes cs @ ur_incoming (s', its) = ur_incoming (s, its)
        \<and> ur_outcome (s', its) = ur_outcome (s, its) \<and> ur_stream_inv (s', its)
    else \<exists>e. ur_outcome (s, its) = Some e \<and> ur_take_batch s cap m = ([end_chunk e], s)"
proof (cases "ur_pending s = []")
  case True
  with assms(2) show ?thesis
    by (auto simp: ur_deliverable_def ur_incoming_def ur_pending_bytes_def ur_take_batch_def Let_def
        ur_outcome_def ur_ended_def end_chunk_def)
next
  case False
  have inv: "ur_inv s" using assms(1) by (simp add: ur_stream_inv_def)
  obtain t r where d: "drain_pending cap m 0 0 (ur_pending s) = (t, r)" by fastforce
  note batch = drain_batch [OF d False assms(3,4) ur_slot_data_length [OF inv]]
  have t: "t \<noteq> []" by (rule drain_pending_progress [OF d False assms(3,4)])
  let ?cs = "map (\<lambda>p. data_chunk (slot_data (ur_slots s) p)) t"
  let ?s = "s\<lparr>ur_pending := r, ur_checked_out := ur_checked_out s @ map fst t\<rparr>"
  have take: "ur_take_batch s cap m = (?cs, ?s)" using d t by (simp add: ur_take_batch_def Let_def)
  have "ur_stream_inv (?s, its)"
    using ur_inv_take_batch [OF inv take] assms(1) by (simp add: ur_stream_inv_def)
  moreover have "batch_bytes ?cs @ ur_incoming (?s, its) = ur_incoming (s, its)"
    using batch by (simp add: ur_incoming_def ur_pending_bytes_def ur_ended_def)
  moreover have "ur_incoming (s, its) \<noteq> []"
    using calculation(2) data_batch_nonempty batch by fastforce
  moreover have "ur_outcome (?s, its) = ur_outcome (s, its)" by (simp add: ur_outcome_def)
  ultimately show ?thesis using take batch by auto
qed

subsection \<open>Waiting\<close>

definition ur_waiting :: "urs \<Rightarrow> bool" where
  "ur_waiting s \<longleftrightarrow> ur_inv s \<and> ur_waiter s \<and> \<not> ur_deliverable s \<and> ur_checked_out s = []"

lemma ur_waiting_live: "ur_waiting s \<Longrightarrow> ur_live s"
  by (auto simp: ur_waiting_def ur_inv_def ur_deliverable_def ur_ended_def)

lemma ur_waiting_ring: "ur_waiting s \<Longrightarrow> ur_ring s \<noteq> []"
  by (auto simp: ur_waiting_def ur_inv_def ur_deliverable_def ur_owners_def mset_set_empty_iff)

lemma ur_waiting_stream:
  "ur_waiting s \<Longrightarrow> ur_incoming (s, its) = sock_bytes its \<and> ur_outcome (s, its) = sock_end its"
  by (simp add: ur_waiting_def ur_deliverable_def ur_incoming_def ur_outcome_def ur_pending_bytes_def
      ur_ended_def)

text \<open>The first socket item already wakes a waiting reader.\<close>

lemma ur_waiting_woken:
  assumes "ur_waiting s" and "sock_ok (ur_entry_size s) it"
  shows "\<exists>s2. ur_item s it = (s2, True, False) \<and> ur_deliverable s2 \<and> \<not> ur_waiter s2"
proof (cases it)
  case (Sock_data d f_more)
  from ur_waiting_ring [OF assms(1)] obtain i "is" where r: "ur_ring s = i # is" by (cases "ur_ring s") auto
  show ?thesis
    using assms(1) Sock_data
    by (cases f_more) (auto simp: ur_item_data [OF _ r] Let_def ur_wake_def ur_waiting_def ur_deliverable_def)
next
  case Sock_eof
  with assms show ?thesis by (auto simp: ur_item_eof Let_def ur_wake_def ur_waiting_def ur_deliverable_def)
next
  case (Sock_error e)
  with assms show ?thesis
    by (auto simp: ur_item_error Let_def ur_wake_def ur_waiting_def ur_deliverable_def)
qed

lemma ur_wait_spec:
  assumes "ur_waiting s" and "list_all (sock_ok (ur_entry_size s)) its"
  shows "if its = [] then ur_wait s its = None
    else \<exists>s1. ur_wait s its = Some (s1, tl its) \<and> ur_stream_inv (s1, tl its) \<and> ur_deliverable s1
      \<and> ur_incoming (s1, tl its) = sock_bytes its \<and> ur_outcome (s1, tl its) = sock_end its"
proof (cases its)
  case (Cons it its')
  have inv: "ur_inv s" using assms(1) by (simp add: ur_waiting_def)
  have live: "ur_live s" by (rule ur_waiting_live [OF assms(1)])
  from ur_waiting_woken [OF assms(1), of it] assms(2) Cons obtain s2
    where it: "ur_item s it = (s2, True, False)" and s2: "ur_deliverable s2" "\<not> ur_waiter s2" by auto
  note k = ur_item_inv [OF inv live _ it] ur_item_stream [OF inv live _ it, of its']
  have "ur_wait s its = Some (s2, its')" using Cons live it by (simp add: ur_wait_item del: ur_wait.simps)
  with k s2 assms(2) Cons ur_waiting_stream [OF assms(1), of its] show ?thesis
    by (simp add: ur_stream_inv_def)
qed simp

subsection \<open>The backend keeps the stream contract\<close>

lemma ur_waiter_stream [simp]:
  "ur_incoming (ur_arm s, its) = ur_incoming (s, its)" "ur_outcome (ur_arm s, its) = ur_outcome (s, its)"
  "ur_entry_size (ur_arm s) = ur_entry_size s" "ur_entries (ur_arm s) = ur_entries s"
  by (simp_all add: ur_arm_def ur_incoming_def ur_outcome_def ur_pending_bytes_def ur_ended_def)

lemma ur_waiting_arm:
  assumes "ur_inv s" and "\<not> ur_deliverable (ur_return_checked_out s)"
  shows "ur_waiting (ur_arm (ur_return_checked_out s))"
  using ur_reclaim [OF assms(1)] assms(2)
  by (auto simp: ur_waiting_def ur_arm_def ur_inv_def ur_owners_def ur_ended_def ur_deliverable_def)

lemma sock_nothing: "list_all (sock_ok es) its \<Longrightarrow> (sock_bytes its = [] \<and> sock_end its = None) = (its = [])"
  by (induction its rule: sock_bytes.induct) auto

lemma ur_next_batch_reaches:
  assumes "ur_stream_inv st"
  shows "(ur_incoming st = [] \<and> ur_outcome st = None \<and> ur_next_batch st cap m = None)
    \<or> (\<exists>s its. ur_stream_inv (s, its) \<and> ur_deliverable s
        \<and> ur_incoming (s, its) = ur_incoming st \<and> ur_outcome (s, its) = ur_outcome st
        \<and> ur_next_batch st cap m = (case ur_take_batch s cap m of (cs, s') \<Rightarrow> Some (cs, s', its)))"
proof -
  obtain s its where st: "st = (s, its)" by (cases st)
  let ?s = "ur_return_checked_out s"
  have inv: "ur_inv s" using assms st by (simp add: ur_stream_inv_def)
  note rec = ur_reclaim [OF inv]
  show ?thesis
  proof (cases "ur_deliverable ?s")
    case True
    then show ?thesis
      using rec assms unfolding st
      by (intro disjI2 exI [of _ ?s] exI [of _ its])
        (simp add: ur_next_batch_def ur_ready_def Let_def ur_stream_inv_def split: prod.split)
  next
    case False
    have w: "ur_waiting (ur_arm ?s)" by (rule ur_waiting_arm [OF inv False])
    have ok: "list_all (sock_ok (ur_entry_size (ur_arm ?s))) its"
      using assms st rec by (simp add: ur_stream_inv_def)
    have same: "sock_bytes its = ur_incoming st" "sock_end its = ur_outcome st"
      using ur_waiting_stream [OF w, of its] rec(3,4) st by simp_all
    have nb: "ur_next_batch st cap m = (case ur_wait (ur_arm ?s) its of None \<Rightarrow> None
        | Some (s1, its1) \<Rightarrow> (case ur_take_batch s1 cap m of (cs, s') \<Rightarrow> Some (cs, s', its1)))"
      using False unfolding st ur_next_batch_def ur_ready_def Let_def by simp
    from ur_wait_spec [OF w ok] sock_nothing [OF ok] show ?thesis
      unfolding nb same by (cases "its = []") (simp, fastforce)
  qed
qed

lemma sock_end_positive:
  "list_all (sock_ok es) its \<Longrightarrow> sock_end its = Some (End_error n) \<Longrightarrow> 0 < n"
  by (induction its rule: sock_end.induct) auto

interpretation uring: recv_stream ur_next_batch ur_incoming ur_outcome ur_stream_inv
proof unfold_locales
  fix st :: "urs \<times> sock_item list" and cap m :: nat
  assume "ur_stream_inv st" "ur_incoming st \<noteq> []" "0 < cap" "0 < m"
  then show "\<exists>cs st'. ur_next_batch st cap m = Some (cs, st')
        \<and> data_batch cs \<and> length cs \<le> cap
        \<and> length (batch_bytes (butlast cs)) < m
        \<and> batch_bytes cs @ ur_incoming st' = ur_incoming st
        \<and> ur_outcome st' = ur_outcome st \<and> ur_stream_inv st'"
    using ur_next_batch_reaches [of st cap m] ur_take_contract [of _ _ cap m] by fastforce
next
  fix st :: "urs \<times> sock_item list" and cap m :: nat and e
  assume "ur_stream_inv st" "ur_incoming st = []" "ur_outcome st = Some e" "0 < cap" "0 < m"
  then show "\<exists>st'. ur_next_batch st cap m = Some ([end_chunk e], st')"
    using ur_next_batch_reaches [of st cap m] ur_take_contract [of _ _ cap m] by fastforce
next
  fix st :: "urs \<times> sock_item list" and cap m :: nat
  assume "ur_stream_inv st" "ur_incoming st = []" "ur_outcome st = None" "0 < cap" "0 < m"
  then show "ur_next_batch st cap m = None"
    using ur_next_batch_reaches [of st cap m] ur_deliverable_something
    by (fastforce simp: ur_stream_inv_def)
next
  fix st :: "urs \<times> sock_item list" and n
  assume "ur_stream_inv st" "ur_outcome st = Some (End_error n)"
  then show "0 < n"
    using sock_end_positive [of _ "snd st" n]
    by (auto simp: ur_stream_inv_def ur_outcome_def ur_inv_def split: if_splits)
qed

subsection \<open>Every interleaving of the kernel and the reader\<close>

text \<open>
  Completions may arrive at any time, not only while the reader waits. A configuration is
  the stream, what the socket still holds and the bytes handed to the reader so far; a step
  is a completion or a call of \<open>next_batch\<close>, which either takes a batch at once or
  suspends and takes one when a completion resumes it.
\<close>

inductive ur_step ::
  "urs \<times> sock_item list \<times> byte list \<Rightarrow> urs \<times> sock_item list \<times> byte list \<Rightarrow> bool" where
  ur_step_now: "\<not> ur_waiter s \<Longrightarrow> 0 < cap \<Longrightarrow> 0 < m \<Longrightarrow> ur_ready s = (True, s1) \<Longrightarrow>
    ur_take_batch s1 cap m = (cs, s2) \<Longrightarrow> ur_step (s, its, out) (s2, its, out @ batch_bytes cs)"
| ur_step_suspend: "\<not> ur_waiter s \<Longrightarrow> ur_ready s = (False, s1) \<Longrightarrow>
    ur_step (s, its, out) (ur_arm s1, its, out)"
| ur_step_quiet: "ur_live s \<Longrightarrow> ur_item s it = (s1, False, stays) \<Longrightarrow>
    ur_step (s, it # its, out) (s1, if stays then it # its else its, out)"
| ur_step_wake: "ur_live s \<Longrightarrow> 0 < cap \<Longrightarrow> 0 < m \<Longrightarrow> ur_item s it = (s1, True, stays) \<Longrightarrow>
    ur_take_batch s1 cap m = (cs, s2) \<Longrightarrow>
    ur_step (s, it # its, out) (s2, if stays then it # its else its, out @ batch_bytes cs)"

definition ur_conf_inv :: "nat \<Rightarrow> byte list \<Rightarrow> urs \<times> sock_item list \<times> byte list \<Rightarrow> bool" where
  "ur_conf_inv n sent c \<longleftrightarrow> (case c of (s, its, out) \<Rightarrow>
     ur_inv s \<and> ur_entries s = n \<and> list_all (sock_ok (ur_entry_size s)) its
     \<and> out @ ur_incoming (s, its) = sent \<and> (ur_waiter s \<longrightarrow> ur_waiting s))"

lemma ur_itemE:
  assumes "ur_item s it = (s1, woken, stays)"
  obtains k res flags where "kernel_cqe s it = (k, res, flags, stays)"
    and "ur_on_cqe k res flags = (s1, woken)"
  using assms that by (auto simp: ur_item_def split: prod.splits)

lemma kernel_cqe_entries: "ur_entries (fst (kernel_cqe s it)) = ur_entries s"
  by (simp add: kernel_cqe_def split: sock_item.split list.split)

lemma ur_on_cqe_entries: "ur_entries (fst (ur_on_cqe s res flags)) = ur_entries s"
  by (simp add: ur_on_cqe_def ur_handle_cqe_def Let_def)

lemma ur_entries_keep:
  "ur_entries (ur_return_checked_out s) = ur_entries s"
  "ur_entries (snd (ur_take_batch s cap m)) = ur_entries s"
  "ur_entries (fst (ur_item s it)) = ur_entries s"
proof -
  show "ur_entries (ur_return_checked_out s) = ur_entries s"
    by (simp add: ur_return_checked_out_def)
  show "ur_entries (snd (ur_take_batch s cap m)) = ur_entries s"
    by (simp add: ur_take_batch_def Let_def split: prod.split)
  obtain s1 woken stays where i: "ur_item s it = (s1, woken, stays)" by (cases "ur_item s it")
  then obtain k res flags where "kernel_cqe s it = (k, res, flags, stays)"
    "ur_on_cqe k res flags = (s1, woken)" by (rule ur_itemE)
  with i kernel_cqe_entries [of s it] ur_on_cqe_entries [of k res flags]
  show "ur_entries (fst (ur_item s it)) = ur_entries s" by simp
qed

lemma ur_take_batch_stream:
  assumes "ur_inv s" and "ur_take_batch s cap m = (cs, s')"
  shows "batch_bytes cs @ ur_incoming (s', its) = ur_incoming (s, its)"
proof -
  obtain t r where d: "drain_pending cap m 0 0 (ur_pending s) = (t, r)" by fastforce
  then have p: "ur_pending s = t @ r" using drain_pending_append by fastforce
  show ?thesis
    using assms(2) d p
    by (auto simp: ur_take_batch_def Let_def ur_incoming_def ur_pending_bytes_def ur_ended_def
        split: if_splits)
qed

lemma kernel_cqe_waiter: "ur_waiter (fst (kernel_cqe s it)) = ur_waiter s"
  by (simp add: kernel_cqe_def split: sock_item.split list.split)

lemma ur_on_cqe_waiter:
  "\<not> ur_waiter s \<Longrightarrow> \<not> ur_waiter (fst (ur_on_cqe s res flags)) \<and> \<not> snd (ur_on_cqe s res flags)"
  by (simp add: ur_on_cqe_def ur_handle_cqe_def Let_def)

lemma ur_item_waiter:
  assumes "ur_inv s" and "ur_live s" and "sock_ok (ur_entry_size s) it"
    and "ur_item s it = (s1, woken, stays)" and "ur_waiter s \<longrightarrow> ur_waiting s"
  shows "\<not> ur_waiter s1 \<and> (woken \<longleftrightarrow> ur_waiter s)"
proof (cases "ur_waiter s")
  case True
  with assms ur_waiting_woken [of s it] show ?thesis by auto
next
  case False
  obtain k res flags where k: "kernel_cqe s it = (k, res, flags, stays)"
    "ur_on_cqe k res flags = (s1, woken)" by (rule ur_itemE [OF assms(4)])
  with False kernel_cqe_waiter [of s it] ur_on_cqe_waiter [of k res flags] show ?thesis by simp
qed

lemma ur_conf_item:
  assumes "ur_conf_inv n sent (s, it # its, out)" and "ur_live s"
    and "ur_item s it = (s1, woken, stays)"
  shows "ur_conf_inv n sent (s1, if stays then it # its else its, out)"
    and "ur_inv s1" and "\<not> ur_waiter s1"
  using assms ur_item_inv [of s it s1 woken stays] ur_item_stream [of s it s1 woken stays its]
    ur_item_waiter [of s it s1 woken stays] ur_entries_keep(3) [of s it]
  by (auto simp: ur_conf_inv_def)

lemma ur_conf_take:
  assumes "ur_conf_inv n sent (s, its, out)" and "\<not> ur_waiter s" and "ur_take_batch s cap m = (cs, s')"
  shows "ur_conf_inv n sent (s', its, out @ batch_bytes cs)"
  using assms ur_inv_take_batch [of s cap m cs s'] ur_take_batch_stream [of s cap m cs s' its]
    ur_entries_keep(2) [of s cap m]
  by (auto simp: ur_conf_inv_def)

lemma ur_conf_ready:
  assumes "ur_conf_inv n sent (s, its, out)" and "\<not> ur_waiter s" and "ur_ready s = (ok, s1)"
  shows "ur_conf_inv n sent (s1, its, out)" and "\<not> ur_waiter s1"
  using assms ur_reclaim [of s] by (auto simp: ur_conf_inv_def ur_ready_def Let_def ur_entries_keep)

lemma ur_step_inv:
  assumes "ur_step c c'" and "ur_conf_inv n sent c"
  shows "ur_conf_inv n sent c'"
  using assms
proof (cases rule: ur_step.cases)
  case (ur_step_now s cap m s1 cs s2 its out)
  then show ?thesis using assms(2) ur_conf_ready [of n sent s its out True s1] ur_conf_take by blast
next
  case (ur_step_suspend s s1 its out)
  with ur_conf_ready [of n sent s its out False s1] ur_waiting_arm [of s] assms(2) show ?thesis
    by (auto simp: ur_conf_inv_def ur_ready_def Let_def ur_waiting_def)
next
  case (ur_step_quiet s it s1 stays its out)
  with ur_conf_item assms(2) show ?thesis by blast
next
  case (ur_step_wake s cap m it s1 stays cs s2 its out)
  then show ?thesis using ur_conf_item [of n sent s it its out s1 True stays] ur_conf_take assms(2) by blast
qed

lemma ur_reachable_inv:
  assumes "ur_step\<^sup>*\<^sup>* c c'" and "ur_conf_inv n sent c"
  shows "ur_conf_inv n sent c'"
  using assms by (induction rule: rtranclp_induct) (auto intro: ur_step_inv)

lemma ur_inv_create:
  assumes "0 < n" and "n \<le> 32768"
  shows "ur_inv (ur_create es n)" and "\<not> ur_waiter (ur_create es n)"
    and "ur_incoming (ur_create es n, its) = sock_bytes its"
    and "ur_outcome (ur_create es n, its) = sock_end its" and "ur_entry_size (ur_create es n) = es"
    and "ur_entries (ur_create es n) = n"
  using assms
  by (auto simp: ur_create_def ur_submit_recv_def ur_inv_def ur_owners_def ur_ended_def ur_incoming_def
      ur_outcome_def ur_pending_bytes_def list_all_length)

lemma ur_conf_create:
  assumes "0 < n" and "n \<le> 32768" and "list_all (sock_ok es) its"
  shows "ur_conf_inv n (sock_bytes its) (ur_create es n, its, [])"
  using assms by (simp add: ur_conf_inv_def ur_inv_create)

subsection \<open>Properties\<close>





end
