(* ===== verification/Uring_Single_Shot.thy ===== *)
theory Uring_Single_Shot
  imports Uring_Recv_Stream
begin

text \<open>
  \<open>SingleShotRecvStreamImpl\<close> of \<open>easyio/src/uring_recv_stream.cpp\<close>: one plain
  receive operation in flight at a time into one private buffer, resubmitted once the reader
  has given the previous chunk back.
\<close>

subsection \<open>Definitions\<close>

record ssrs =
  ss_entry_size :: nat
  ss_buf :: "byte list"
  ss_live :: bool
  ss_len :: nat
  ss_has_chunk :: bool
  ss_checked_out :: bool
  ss_eof :: bool
  ss_error :: errno
  ss_waiter :: bool

definition ss_deliverable :: "ssrs \<Rightarrow> bool" where
  "ss_deliverable s \<longleftrightarrow> ss_has_chunk s \<or> ss_eof s \<or> ss_error s \<noteq> 0"

definition ss_submit_recv :: "ssrs \<Rightarrow> ssrs" where
  "ss_submit_recv s = s\<lparr>ss_live := True\<rparr>"

definition ss_create :: "nat \<Rightarrow> ssrs" where
  "ss_create entry_size =
     ss_submit_recv
       \<lparr>ss_entry_size = entry_size, ss_buf = replicate entry_size 0, ss_live = False, ss_len = 0,
        ss_has_chunk = False, ss_checked_out = False, ss_eof = False, ss_error = 0,
        ss_waiter = False\<rparr>"

definition ss_handle_cqe :: "ssrs \<Rightarrow> int \<Rightarrow> ssrs \<times> bool" where
  "ss_handle_cqe s res =
     (let s1 = (if res < 0 then s\<lparr>ss_error := - res\<rparr>
                else if res = 0 then s\<lparr>ss_eof := True\<rparr>
                else s\<lparr>ss_len := nat res, ss_has_chunk := True\<rparr>)
      in if ss_waiter s1 \<and> ss_deliverable s1 then (s1\<lparr>ss_waiter := False\<rparr>, True) else (s1, False))"

text \<open>\<open>SingleShotRecvSink::on_cqe\<close> while the stream is attached.\<close>

definition ss_on_cqe :: "ssrs \<Rightarrow> int \<Rightarrow> ssrs \<times> bool" where
  "ss_on_cqe s res = ss_handle_cqe (s\<lparr>ss_live := False\<rparr>) res"

definition ss_reclaim :: "ssrs \<Rightarrow> ssrs" where
  "ss_reclaim s =
     (if ss_checked_out s then
        (let s1 = s\<lparr>ss_checked_out := False\<rparr>
         in if ss_error s1 = 0 \<and> \<not> ss_eof s1 then ss_submit_recv s1 else s1)
      else s)"

definition ss_ready :: "ssrs \<Rightarrow> bool \<times> ssrs" where
  "ss_ready s = (let s' = ss_reclaim s in (ss_deliverable s', s'))"

definition ss_arm :: "ssrs \<Rightarrow> ssrs" where
  "ss_arm s = s\<lparr>ss_waiter := True\<rparr>"

definition ss_take :: "ssrs \<Rightarrow> chunk \<times> ssrs" where
  "ss_take s =
     (if ss_has_chunk s
      then (data_chunk (take (ss_len s) (ss_buf s)), s\<lparr>ss_has_chunk := False, ss_checked_out := True\<rparr>)
      else if ss_error s \<noteq> 0 then (error_chunk (ss_error s), s) else (eof_chunk, s))"

definition ss_take_batch :: "ssrs \<Rightarrow> nat \<Rightarrow> nat \<Rightarrow> chunk list \<times> ssrs" where
  "ss_take_batch s cap m = (if cap = 0 then ([], s) else (let (c, s') = ss_take s in ([c], s')))"

text \<open>The kernel fills the private buffer and completes the operation once.\<close>

definition ss_kernel_cqe :: "ssrs \<Rightarrow> sock_item \<Rightarrow> ssrs \<times> int" where
  "ss_kernel_cqe s it =
     (case it of
        Sock_data d _ \<Rightarrow> (s\<lparr>ss_buf := d @ drop (length d) (ss_buf s)\<rparr>, int (length d))
      | Sock_eof \<Rightarrow> (s, 0)
      | Sock_error e \<Rightarrow> (s, - e))"

fun ss_wait :: "ssrs \<Rightarrow> sock_item list \<Rightarrow> (ssrs \<times> sock_item list) option" where
  "ss_wait s [] = None"
| "ss_wait s (it # its) =
     (if \<not> ss_live s then None
      else (case ss_kernel_cqe s it of (s1, res) \<Rightarrow>
              (case ss_on_cqe s1 res of (s2, woken) \<Rightarrow>
                 if woken then Some (s2, its) else ss_wait s2 its)))"

definition ss_next_batch :: "(ssrs \<times> sock_item list) next_batch" where
  "ss_next_batch st cap m =
     (let (ok, s) = ss_ready (fst st) in
      if ok then (let (cs, s') = ss_take_batch s cap m in Some (cs, s', snd st))
      else (case ss_wait (ss_arm s) (snd st) of
              None \<Rightarrow> None
            | Some (s1, its1) \<Rightarrow> (let (cs, s') = ss_take_batch s1 cap m in Some (cs, s', its1))))"

fun ss_sock_ok :: "nat \<Rightarrow> sock_item \<Rightarrow> bool" where
  "ss_sock_ok es (Sock_data d f_more) \<longleftrightarrow> d \<noteq> [] \<and> length d \<le> es"
| "ss_sock_ok es Sock_eof \<longleftrightarrow> True"
| "ss_sock_ok es (Sock_error e) \<longleftrightarrow> 0 < e"

definition ss_ended :: "ssrs \<Rightarrow> bool" where
  "ss_ended s \<longleftrightarrow> ss_error s \<noteq> 0 \<or> ss_eof s"

definition ss_incoming :: "ssrs \<times> sock_item list \<Rightarrow> byte list" where
  "ss_incoming st = (if ss_has_chunk (fst st) then take (ss_len (fst st)) (ss_buf (fst st)) else [])
     @ (if ss_ended (fst st) then [] else sock_bytes (snd st))"

definition ss_outcome :: "ssrs \<times> sock_item list \<Rightarrow> stream_end option" where
  "ss_outcome st =
     (if ss_error (fst st) \<noteq> 0 then Some (End_error (ss_error (fst st)))
      else if ss_eof (fst st) then Some End_eof else sock_end (snd st))"

text \<open>
  The buffer is the kernel's exactly while an operation is live, and then nothing of it is
  pending or in the reader's hands.
\<close>

definition ss_inv :: "ssrs \<Rightarrow> bool" where
  "ss_inv s \<longleftrightarrow> length (ss_buf s) = ss_entry_size s
     \<and> (ss_has_chunk s \<longrightarrow> 0 < ss_len s \<and> ss_len s \<le> ss_entry_size s \<and> \<not> ss_checked_out s)
     \<and> 0 \<le> ss_error s
     \<and> (ss_live s \<longleftrightarrow> \<not> ss_ended s \<and> \<not> ss_has_chunk s \<and> \<not> ss_checked_out s)
     \<and> (ss_ended s \<longrightarrow> \<not> ss_has_chunk s)"

definition ss_stream_inv :: "ssrs \<times> sock_item list \<Rightarrow> bool" where
  "ss_stream_inv st \<longleftrightarrow> ss_inv (fst st) \<and> list_all (ss_sock_ok (ss_entry_size (fst st))) (snd st)
     \<and> \<not> ss_waiter (fst st)"

subsection \<open>Waiting\<close>

definition ss_waiting :: "ssrs \<Rightarrow> bool" where
  "ss_waiting s \<longleftrightarrow> ss_inv s \<and> ss_waiter s \<and> \<not> ss_deliverable s \<and> \<not> ss_checked_out s"

lemma ss_inv_create: "ss_inv (ss_create es)"
  by (simp add: ss_create_def ss_inv_def ss_submit_recv_def ss_ended_def)

lemma ss_inv_reclaim:
  assumes "ss_stream_inv (s, its)"
  shows "ss_stream_inv (ss_reclaim s, its) \<and> \<not> ss_checked_out (ss_reclaim s)
    \<and> ss_incoming (ss_reclaim s, its) = ss_incoming (s, its)
    \<and> ss_outcome (ss_reclaim s, its) = ss_outcome (s, its)"
  using assms
  by (auto simp: ss_stream_inv_def ss_reclaim_def ss_submit_recv_def ss_inv_def Let_def ss_ended_def
      ss_incoming_def ss_outcome_def)

lemma ss_waiting_stream:
  "ss_waiting s \<Longrightarrow> ss_live s \<and> ss_incoming (s, its) = sock_bytes its \<and> ss_outcome (s, its) = sock_end its"
  by (auto simp: ss_waiting_def ss_deliverable_def ss_incoming_def ss_outcome_def ss_ended_def ss_inv_def)

lemma ss_waiter_stream [simp]:
  "ss_incoming (ss_arm s, its) = ss_incoming (s, its)" "ss_outcome (ss_arm s, its) = ss_outcome (s, its)"
  by (simp_all add: ss_arm_def ss_incoming_def ss_outcome_def ss_ended_def)

lemma ss_wait_spec:
  assumes "ss_waiting s" and "list_all (ss_sock_ok (ss_entry_size s)) its"
  shows "if its = [] then ss_wait s its = None
    else \<exists>s1. ss_wait s its = Some (s1, tl its) \<and> ss_stream_inv (s1, tl its) \<and> ss_deliverable s1
      \<and> ss_incoming (s1, tl its) = sock_bytes its \<and> ss_outcome (s1, tl its) = sock_end its"
proof (cases its)
  case (Cons it its')
  note live = ss_waiting_stream [OF assms(1), of its]
  show ?thesis
  proof (cases it)
    case (Sock_data d f_more)
    with Cons assms live show ?thesis
      by (auto simp: ss_kernel_cqe_def ss_on_cqe_def ss_handle_cqe_def Let_def ss_waiting_def
          ss_deliverable_def ss_stream_inv_def ss_inv_def ss_ended_def ss_incoming_def ss_outcome_def)
  next
    case Sock_eof
    with Cons assms live show ?thesis
      by (auto simp: ss_kernel_cqe_def ss_on_cqe_def ss_handle_cqe_def Let_def ss_waiting_def
          ss_deliverable_def ss_stream_inv_def ss_inv_def ss_ended_def ss_incoming_def ss_outcome_def)
  next
    case (Sock_error e)
    with Cons assms live show ?thesis
      by (auto simp: ss_kernel_cqe_def ss_on_cqe_def ss_handle_cqe_def Let_def ss_waiting_def
          ss_deliverable_def ss_stream_inv_def ss_inv_def ss_ended_def ss_incoming_def ss_outcome_def)
  qed
qed simp

subsection \<open>The backend keeps the stream contract\<close>

lemma ss_take_contract:
  assumes "ss_stream_inv (s, its)" and "ss_deliverable s" and "0 < cap" and "0 < m"
  shows "if ss_incoming (s, its) \<noteq> []
    then \<exists>c s'. ss_take_batch s cap m = ([c], s') \<and> data_batch [c]
        \<and> chunk_data c @ ss_incoming (s', its) = ss_incoming (s, its)
        \<and> ss_outcome (s', its) = ss_outcome (s, its) \<and> ss_stream_inv (s', its)
    else \<exists>e. ss_outcome (s, its) = Some e \<and> ss_take_batch s cap m = ([end_chunk e], s)"
  using assms
  by (cases "ss_has_chunk s")
    (auto simp: ss_take_batch_def ss_take_def Let_def ss_stream_inv_def ss_inv_def ss_deliverable_def
      ss_incoming_def ss_outcome_def ss_ended_def data_batch_def end_chunk_def)

lemma ss_deliverable_something:
  "ss_inv s \<Longrightarrow> ss_deliverable s \<Longrightarrow> \<not> (ss_incoming (s, its) = [] \<and> ss_outcome (s, its) = None)"
  by (auto simp: ss_deliverable_def ss_outcome_def ss_incoming_def ss_inv_def split: if_splits)

lemma ss_sock_nothing:
  "list_all (ss_sock_ok es) its \<Longrightarrow> (sock_bytes its = [] \<and> sock_end its = None) = (its = [])"
  by (induction its rule: sock_bytes.induct) auto

lemma ss_next_batch_reaches:
  assumes "ss_stream_inv st"
  shows "(ss_incoming st = [] \<and> ss_outcome st = None \<and> ss_next_batch st cap m = None)
    \<or> (\<exists>s its. ss_stream_inv (s, its) \<and> ss_deliverable s
        \<and> ss_incoming (s, its) = ss_incoming st \<and> ss_outcome (s, its) = ss_outcome st
        \<and> ss_next_batch st cap m = (case ss_take_batch s cap m of (cs, s') \<Rightarrow> Some (cs, s', its)))"
proof -
  obtain s its where st: "st = (s, its)" by (cases st)
  let ?s = "ss_reclaim s"
  note rec = ss_inv_reclaim [OF assms [unfolded st]]
  show ?thesis
  proof (cases "ss_deliverable ?s")
    case True
    then show ?thesis
      using rec assms unfolding st
      by (intro disjI2 exI [of _ ?s] exI [of _ its])
        (simp add: ss_next_batch_def ss_ready_def Let_def split: prod.split)
  next
    case False
    have w: "ss_waiting (ss_arm ?s)" and ok: "list_all (ss_sock_ok (ss_entry_size (ss_arm ?s))) its"
      using rec False by (auto simp: ss_waiting_def ss_arm_def ss_stream_inv_def ss_inv_def
          ss_deliverable_def ss_ended_def)
    have same: "sock_bytes its = ss_incoming st" "sock_end its = ss_outcome st"
      using ss_waiting_stream [OF w, of its] rec st by simp_all
    have nb: "ss_next_batch st cap m = (case ss_wait (ss_arm ?s) its of None \<Rightarrow> None
        | Some (s1, its1) \<Rightarrow> (case ss_take_batch s1 cap m of (cs, s') \<Rightarrow> Some (cs, s', its1)))"
      using False unfolding st ss_next_batch_def ss_ready_def Let_def by simp
    from ss_wait_spec [OF w ok] ss_sock_nothing [OF ok] show ?thesis
      unfolding nb same by (cases "its = []") (simp, fastforce)
  qed
qed

lemma ss_sock_end_positive:
  "list_all (ss_sock_ok es) its \<Longrightarrow> sock_end its = Some (End_error n) \<Longrightarrow> 0 < n"
  by (induction its rule: sock_end.induct) auto

interpretation single_shot: recv_stream ss_next_batch ss_incoming ss_outcome ss_stream_inv
proof unfold_locales
  fix st :: "ssrs \<times> sock_item list" and cap m :: nat
  assume a: "ss_stream_inv st" "ss_incoming st \<noteq> []" "0 < cap" "0 < m"
  then obtain s its where s: "ss_stream_inv (s, its)" "ss_deliverable s"
    "ss_incoming (s, its) = ss_incoming st" "ss_outcome (s, its) = ss_outcome st"
    and nb: "ss_next_batch st cap m = (case ss_take_batch s cap m of (cs, s') \<Rightarrow> Some (cs, s', its))"
    using ss_next_batch_reaches [of st cap m] by blast
  from ss_take_contract [OF s(1,2) a(3,4)] s(3,4) nb a show "\<exists>cs st'. ss_next_batch st cap m = Some (cs, st')
        \<and> data_batch cs \<and> length cs \<le> cap
        \<and> length (batch_bytes (butlast cs)) < m
        \<and> batch_bytes cs @ ss_incoming st' = ss_incoming st
        \<and> ss_outcome st' = ss_outcome st \<and> ss_stream_inv st'"
    by fastforce
next
  fix st :: "ssrs \<times> sock_item list" and cap m :: nat and e
  assume "ss_stream_inv st" "ss_incoming st = []" "ss_outcome st = Some e" "0 < cap" "0 < m"
  then show "\<exists>st'. ss_next_batch st cap m = Some ([end_chunk e], st')"
    using ss_next_batch_reaches [of st cap m] ss_take_contract [of _ _ cap m] by fastforce
next
  fix st :: "ssrs \<times> sock_item list" and cap m :: nat
  assume "ss_stream_inv st" "ss_incoming st = []" "ss_outcome st = None" "0 < cap" "0 < m"
  then show "ss_next_batch st cap m = None"
    using ss_next_batch_reaches [of st cap m] ss_deliverable_something
    by (fastforce simp: ss_stream_inv_def)
next
  fix st :: "ssrs \<times> sock_item list" and n
  assume "ss_stream_inv st" "ss_outcome st = Some (End_error n)"
  then show "0 < n"
    using ss_sock_end_positive [of _ "snd st" n]
    by (auto simp: ss_stream_inv_def ss_outcome_def ss_inv_def split: if_splits)
qed

subsection \<open>Properties\<close>

text \<open>
  C19. Over the single-shot stream, any sequence of \<open>read_exact\<close> and
  \<open>read_exact_into\<close> calls returns exactly the frames of the received byte sequence,
  although one buffer is shared by every receive operation.
\<close>

theorem single_shot_reads_frames:
  assumes "list_all (ss_sock_ok es) its"
  shows "read_frames ss_next_batch fs (empty_reader, ss_create es, its)
    = spec_frames (map snd fs) (sock_bytes its) (sock_end its)"
proof -
  have "ss_stream_inv (ss_create es, its)"
    using assms ss_inv_create [of es] by (simp add: ss_stream_inv_def ss_create_def ss_submit_recv_def)
  moreover have "ss_incoming (ss_create es, its) = sock_bytes its"
    "ss_outcome (ss_create es, its) = sock_end its"
    by (simp_all add: ss_incoming_def ss_outcome_def ss_ended_def ss_create_def ss_submit_recv_def)
  ultimately show ?thesis
    using single_shot.read_frames_spec [of "(ss_create es, its)" empty_reader fs]
    by (simp add: reader_inv_def leftover_def empty_reader_def)
qed

theorem single_shot_reads_frames_witness:
  "read_frames ss_next_batch [(False, 3), (True, 2), (False, 1)]
     (empty_reader, ss_create 4, [Sock_data [1, 2] True, Sock_data [3, 4, 5] False, Sock_error ECONNRESET])
   = Some ([[1, 2, 3], [4, 5]], Some (System_error ECONNRESET))"
  using single_shot_reads_frames [of 4
      "[Sock_data [1, 2] True, Sock_data [3, 4, 5] False, Sock_error ECONNRESET]"
      "[(False, 3), (True, 2), (False, 1)]"]
  by (simp add: spec_read_def end_exn_def ECONNRESET_def)

end
