(* ===== verification/Next_Chunk.thy ===== *)
theory Next_Chunk
  imports Libc_Recv_Stream Uring_Single_Shot
begin

text \<open>
  \<open>RecvStream::next\<close> of \<open>easyio/include/easyio/recv_stream.hpp\<close>, the variant of
  \<open>next_batch\<close> that hands out one chunk through the backends' \<open>_take\<close>. The locale
  \<open>chunk_stream\<close> adds it to the contract of a stream: it is a batch of one. Hence a client
  that awaits \<open>next\<close> until the end gets exactly the bytes of the stream, on each backend.
\<close>

subsection \<open>Definitions\<close>

definition lr_next :: "lrs \<times> recv_result list \<Rightarrow> (chunk \<times> lrs \<times> recv_result list) option" where
  "lr_next st =
     (let (ok, s) = lr_ready (fst st) in
      if ok then (let (c, s') = lr_take s in Some (c, s', snd st))
      else (case lr_wait (lr_arm s) (snd st) of
              None \<Rightarrow> None
            | Some (s1, rs1) \<Rightarrow> (let (c, s') = lr_take s1 in Some (c, s', rs1))))"

definition ur_next :: "urs \<times> sock_item list \<Rightarrow> (chunk \<times> urs \<times> sock_item list) option" where
  "ur_next st =
     (let (ok, s) = ur_ready (fst st) in
      if ok then (let (c, s') = ur_take s in Some (c, s', snd st))
      else (case ur_wait (ur_arm s) (snd st) of
              None \<Rightarrow> None
            | Some (s1, its1) \<Rightarrow> (let (c, s') = ur_take s1 in Some (c, s', its1))))"

definition ss_next :: "ssrs \<times> sock_item list \<Rightarrow> (chunk \<times> ssrs \<times> sock_item list) option" where
  "ss_next st =
     (let (ok, s) = ss_ready (fst st) in
      if ok then (let (c, s') = ss_take s in Some (c, s', snd st))
      else (case ss_wait (ss_arm s) (snd st) of
              None \<Rightarrow> None
            | Some (s1, its1) \<Rightarrow> (let (c, s') = ss_take s1 in Some (c, s', its1))))"

text \<open>A client that awaits \<open>next\<close> until the stream is over: the bytes, and how it ended.\<close>

partial_function (option) read_to_end ::
  "('s \<Rightarrow> (chunk \<times> 's) option) \<Rightarrow> 's \<Rightarrow> (byte list \<times> stream_end) option" where
  "read_to_end nxt st =
     Option.bind (nxt st) (\<lambda>(c, st').
       if chunk_error c \<noteq> 0 then Some ([], End_error (- chunk_error c))
       else if chunk_data c = [] then Some ([], End_eof)
       else Option.bind (read_to_end nxt st') (\<lambda>(bs, e). Some (chunk_data c @ bs, e)))"

subsection \<open>The contract\<close>

locale chunk_stream = recv_stream next_batch incoming outcome invar
  for next_batch :: "'s next_batch" and incoming :: "'s \<Rightarrow> byte list"
    and outcome :: "'s \<Rightarrow> stream_end option" and invar :: "'s \<Rightarrow> bool" +
  fixes nxt :: "'s \<Rightarrow> (chunk \<times> 's) option"
  assumes nxt_batch: "nxt st = map_option (apfst hd) (next_batch st 1 1)"
begin

lemma nxt_data:
  assumes "invar st" and "incoming st \<noteq> []"
  shows "\<exists>c st'. nxt st = Some (c, st') \<and> chunk_error c = 0 \<and> chunk_data c \<noteq> []
    \<and> chunk_data c @ incoming st' = incoming st \<and> outcome st' = outcome st \<and> invar st'"
proof -
  obtain cs st' where b: "next_batch st 1 1 = Some (cs, st')" "data_batch cs" "length cs \<le> 1"
    "batch_bytes cs @ incoming st' = incoming st" "outcome st' = outcome st" "invar st'"
    using batch_data [OF assms, of 1 1] by auto
  then obtain c where "cs = [c]" by (cases cs) (auto simp: data_batch_def)
  with b show ?thesis by (simp add: nxt_batch data_batch_Cons)
qed

lemma nxt_end: "invar st \<Longrightarrow> incoming st = [] \<Longrightarrow> outcome st = Some e \<Longrightarrow> \<exists>st'. nxt st = Some (end_chunk e, st')"
  using batch_end [of st e 1 1] by (auto simp: nxt_batch)

lemma nxt_hang: "invar st \<Longrightarrow> incoming st = [] \<Longrightarrow> outcome st = None \<Longrightarrow> nxt st = None"
  using batch_hang [of st 1 1] by (simp add: nxt_batch)

lemma read_to_end_all:
  "invar st \<Longrightarrow> read_to_end nxt st = map_option (Pair (incoming st)) (outcome st)"
proof (induction "length (incoming st)" arbitrary: st rule: less_induct)
  case less
  show ?case
  proof (cases "incoming st = []")
    case True
    show ?thesis
    proof (cases "outcome st")
      case None
      with nxt_hang less.prems True show ?thesis by (simp add: read_to_end.simps)
    next
      case (Some e)
      from nxt_end [OF less.prems True Some] error_positive [OF less.prems] Some True show ?thesis
        by (cases e) (auto simp: read_to_end.simps end_chunk_def)
    qed
  next
    case False
    from nxt_data [OF less.prems False] obtain c st' where n: "nxt st = Some (c, st')"
      "chunk_error c = 0" "chunk_data c \<noteq> []" "chunk_data c @ incoming st' = incoming st"
      "outcome st' = outcome st" "invar st'" by blast
    have "length (incoming st') < length (incoming st)" using n(3,4) by (metis length_append
          length_greater_0_conv less_add_same_cancel2)
    from less.hyps [OF this n(6)] n show ?thesis
      by (subst read_to_end.simps) (cases "outcome st"; simp)
  qed
qed

end

subsection \<open>The three streams\<close>

lemma drain_pending_full: "drain_pending cap m cap b ps = ([], ps)"
  by (cases ps) simp_all

interpretation libc_chunks: chunk_stream lr_next_batch lr_incoming lr_outcome lr_stream_inv lr_next
proof unfold_locales
  have "lr_take_batch s 1 1 = apfst (\<lambda>c. [c]) (lr_take s)" for s
    by (simp add: lr_take_batch_def lr_take_def drain_pending_full split: list.split)
  then show "lr_next st = map_option (apfst hd) (lr_next_batch st 1 1)" for st
    by (auto simp: lr_next_def lr_next_batch_def Let_def split: prod.split option.split)
qed

interpretation uring_chunks: chunk_stream ur_next_batch ur_incoming ur_outcome ur_stream_inv ur_next
proof unfold_locales
  have "ur_take_batch s 1 1 = apfst (\<lambda>c. [c]) (ur_take s)" for s
    by (simp add: ur_take_batch_def ur_take_def drain_pending_full split: list.split)
  then show "ur_next st = map_option (apfst hd) (ur_next_batch st 1 1)" for st
    by (auto simp: ur_next_def ur_next_batch_def Let_def split: prod.split option.split)
qed

interpretation single_shot_chunks: chunk_stream ss_next_batch ss_incoming ss_outcome ss_stream_inv ss_next
proof unfold_locales
  show "ss_next st = map_option (apfst hd) (ss_next_batch st 1 1)" for st
    by (auto simp: ss_next_def ss_next_batch_def ss_take_batch_def Let_def split: prod.split option.split)
qed

text \<open>
  On each backend, awaiting \<open>next\<close> until the end gives the bytes the socket delivers and the
  way it ends, and does not return exactly when the peer goes silent without closing.
\<close>

lemma chunks_deliver_stream:
  assumes "lr_stream_inv lst" and "ur_stream_inv ust" and "ss_stream_inv sst"
  shows "read_to_end lr_next lst = map_option (Pair (lr_incoming lst)) (lr_outcome lst)"
    and "read_to_end ur_next ust = map_option (Pair (ur_incoming ust)) (ur_outcome ust)"
    and "read_to_end ss_next sst = map_option (Pair (ss_incoming sst)) (ss_outcome sst)"
  using assms libc_chunks.read_to_end_all uring_chunks.read_to_end_all single_shot_chunks.read_to_end_all
  by blast+

end
