(* ===== verification/Send_All.thy ===== *)
theory Send_All
  imports Prelude
begin

text \<open>
  The two \<open>send_all\<close> overloads of \<open>easyio/src/queue.cpp\<close>, over any
  \<open>Queue::send\<close> and \<open>Queue::sendmsg\<close>. A send operation takes the state of the
  connection and the bytes offered and returns the count the kernel accepted or the
  exception thrown; \<open>None\<close> means that its coroutine is never resumed. An access outside
  the \<open>iovec\<close> array is a result of its own, so that its absence is a theorem. The
  locale \<open>byte_sink\<close> is what the loops rely on.
\<close>

subsection \<open>Definitions\<close>

type_synonym 'k send_op = "'k \<Rightarrow> byte list \<Rightarrow> ((exn + nat) \<times> 'k) option"
type_synonym 'k sendmsg_op = "'k \<Rightarrow> byte list list \<Rightarrow> ((exn + nat) \<times> 'k) option"

datatype send_result = Sent | Threw exn | Out_of_bounds

partial_function (option) send_all_loop ::
  "'k send_op \<Rightarrow> byte list \<Rightarrow> nat \<Rightarrow> 'k \<Rightarrow> (send_result \<times> 'k) option" where
  "send_all_loop snd_op p off k =
     (if off < length p then
        (case snd_op k (drop off p) of
           None \<Rightarrow> None
         | Some (Inl e, k') \<Rightarrow> Some (Threw e, k')
         | Some (Inr n, k') \<Rightarrow> send_all_loop snd_op p (off + n) k')
      else Some (Sent, k))"

definition send_all :: "'k send_op \<Rightarrow> byte list \<Rightarrow> 'k \<Rightarrow> (send_result \<times> 'k) option" where
  "send_all snd_op p k = send_all_loop snd_op p 0 k"

text \<open>
  The inner loop of the gathered version: drop \<open>n\<close> accepted bytes from the vectors,
  starting at vector \<open>first\<close>.
\<close>

function iov_advance :: "nat \<Rightarrow> byte list list \<Rightarrow> nat \<Rightarrow> (byte list list \<times> nat) option" where
  "iov_advance n iov first =
     (if n = 0 then Some (iov, first)
      else if length iov \<le> first then None
      else if n < length (iov ! first)
           then Some (iov[first := drop n (iov ! first)], first)
           else iov_advance (n - length (iov ! first)) iov (Suc first))"
  by pat_completeness auto
termination
  by (relation "measure (\<lambda>(n, iov, first). length iov - first)") auto

partial_function (option) send_iov_loop ::
  "'k sendmsg_op \<Rightarrow> nat \<Rightarrow> nat \<Rightarrow> byte list list \<Rightarrow> nat \<Rightarrow> 'k \<Rightarrow> (send_result \<times> 'k) option" where
  "send_iov_loop sndmsg_op total_size sent iov first k =
     (if sent < total_size then
        (case sndmsg_op k (drop first iov) of
           None \<Rightarrow> None
         | Some (Inl e, k') \<Rightarrow> Some (Threw e, k')
         | Some (Inr n, k') \<Rightarrow>
             (case iov_advance n iov first of
                None \<Rightarrow> Some (Out_of_bounds, k')
              | Some (iov', first') \<Rightarrow> send_iov_loop sndmsg_op total_size (sent + n) iov' first' k'))
      else Some (Sent, k))"

definition send_all_iov ::
  "'k sendmsg_op \<Rightarrow> byte list \<Rightarrow> byte list \<Rightarrow> 'k \<Rightarrow> (send_result \<times> 'k) option" where
  "send_all_iov sndmsg_op buf1 buf2 k =
     send_iov_loop sndmsg_op (length buf1 + length buf2) 0 [buf1, buf2] 0 k"

declare iov_advance.simps [simp del]

subsection \<open>Advancing the vectors\<close>

text \<open>Advancing by no more than what is left stays in bounds and drops exactly that much.\<close>

lemma iov_advance_drops:
  assumes "n \<le> length (concat (drop first iov))"
  shows "\<exists>iov' first'. iov_advance n iov first = Some (iov', first')
    \<and> concat (drop first' iov') = drop n (concat (drop first iov))"
  using assms
proof (induction n iov first rule: iov_advance.induct)
  case (1 n iov first)
  show ?case
  proof (cases "n = 0 \<or> length iov \<le> first")
    case True
    with "1.prems" show ?thesis by (auto simp: iov_advance.simps [of n])
  next
    case False
    then have d: "drop first iov = iov ! first # drop (Suc first) iov"
      by (simp add: Cons_nth_drop_Suc)
    show ?thesis
    proof (cases "n < length (iov ! first)")
      case True
      have "drop first (iov[first := drop n (iov ! first)])
          = drop n (iov ! first) # drop (Suc first) iov"
        using False by (simp add: drop_update_swap d)
      with True False d show ?thesis by (simp add: iov_advance.simps [of n])
    next
      case ge: False
      then have "n - length (iov ! first) \<le> length (concat (drop (Suc first) iov))"
        using "1.prems" d by simp
      from "1.IH" [OF _ _ ge this] False ge d show ?thesis
        by (auto simp: iov_advance.simps [of n])
    qed
  qed
qed

subsection \<open>The contract of a sink\<close>

text \<open>
  \<open>wire\<close> is everything the peer will have received. A send of a non-empty run either
  puts a non-empty prefix of it on the wire and returns its length, or throws and puts
  nothing. A gathered send is the send of the concatenation.
\<close>

locale byte_sink =
  fixes snd_op :: "'k send_op"
    and sndmsg_op :: "'k sendmsg_op"
    and wire :: "'k \<Rightarrow> byte list"
    and ok :: "'k \<Rightarrow> bool"
  assumes accepts: "ok k \<Longrightarrow> bs \<noteq> [] \<Longrightarrow> snd_op k bs = Some (Inr n, k') \<Longrightarrow>
      0 < n \<and> n \<le> length bs \<and> wire k' = wire k @ take n bs \<and> ok k'"
    and rejects: "ok k \<Longrightarrow> bs \<noteq> [] \<Longrightarrow> snd_op k bs = Some (Inl e, k') \<Longrightarrow> wire k' = wire k \<and> ok k'"
    and gathers: "sndmsg_op k iov = snd_op k (concat iov)"
begin

text \<open>One round of the loop: the send throws, or the rest of the bytes is left to send.\<close>

lemma send_all_loop_round:
  assumes "ok k" and "off < length p" and "send_all_loop snd_op p off k = Some (r, k')"
  obtains (threw) e where "r = Threw e" and "wire k' = wire k" and "ok k'"
  | (some) n k1 where "0 < n" and "off + n \<le> length p" and "wire k1 = wire k @ take n (drop off p)"
      and "ok k1" and "send_all_loop snd_op p (off + n) k1 = Some (r, k')"
proof -
  have ne: "drop off p \<noteq> []" using assms(2) by simp
  obtain x k1 where s: "snd_op k (drop off p) = Some (x, k1)"
    using assms(2,3) by (cases "snd_op k (drop off p)") (auto simp: send_all_loop.simps [of snd_op p off])
  show thesis
  proof (cases x)
    case (Inl e)
    with s assms(2,3) rejects [OF assms(1) ne, of e k1] threw show thesis
      by (auto simp: send_all_loop.simps [of snd_op p off])
  next
    case (Inr n)
    with accepts [OF assms(1) ne, of n k1] s assms(2,3) some [of n k1] show thesis
      by (auto simp: send_all_loop.simps [of snd_op p off])
  qed
qed

lemma send_all_loop_outcome:
  assumes "ok k" and "off \<le> length p" and "send_all_loop snd_op p off k = Some (r, k')"
  shows "ok k' \<and> (r = Sent \<and> wire k' = wire k @ drop off p
    \<or> (\<exists>e m. r = Threw e \<and> off + m < length p \<and> wire k' = wire k @ take m (drop off p)))"
  using assms
proof (induction "length p - off" arbitrary: off k rule: less_induct)
  case less
  show ?case
  proof (cases "off < length p")
    case False
    with less.prems show ?thesis by (simp add: send_all_loop.simps [of snd_op p "length p"])
  next
    case True
    from less.prems(1) True less.prems(3) show ?thesis
    proof (cases rule: send_all_loop_round)
      case (threw e)
      with True show ?thesis by (auto intro!: exI [of _ 0])
    next
      case (some n k1)
      have lt: "length p - (off + n) < length p - off" using some(1) True by simp
      from less.hyps [OF lt some(4,2,5)]
      consider "ok k'" "r = Sent" "wire k' = wire k1 @ drop (off + n) p"
        | e m where "ok k'" "r = Threw e" "off + n + m < length p" "wire k' = wire k1 @ take m (drop (off + n) p)"
        by auto
      then show ?thesis
      proof cases
        case 1
        have "take n (drop off p) @ drop (off + n) p = drop off p"
          by (metis append_take_drop_id drop_drop add.commute)
        with 1 some(3) show ?thesis by simp
      next
        case (2 e m)
        have "take n (drop off p) @ take m (drop (off + n) p) = take (n + m) (drop off p)"
          by (simp add: take_add add.commute [of off n])
        with 2 some(3) show ?thesis by (auto intro!: exI [of _ "n + m"])
      qed
    qed
  qed
qed

lemma send_all_outcome:
  assumes "ok k" and "send_all snd_op p k = Some (r, k')"
  shows "ok k' \<and> (r = Sent \<and> wire k' = wire k @ p
    \<or> (\<exists>e m. r = Threw e \<and> m < length p \<and> wire k' = wire k @ take m p))"
  using send_all_loop_outcome [of k 0 p r k'] assms by (simp add: send_all_def)

text \<open>If every single send returns, the whole does.\<close>

lemma send_all_returns:
  assumes "\<And>k bs. ok k \<Longrightarrow> bs \<noteq> [] \<Longrightarrow> snd_op k bs \<noteq> None" and "ok k"
  shows "send_all snd_op p k \<noteq> None"
proof -
  have "ok k \<Longrightarrow> send_all_loop snd_op p off k \<noteq> None" for off
  proof (induction "length p - off" arbitrary: off k rule: less_induct)
    case less
    show ?case
    proof (cases "off < length p")
      case True
      with assms(1) [OF less.prems, of "drop off p"] obtain x k1
        where s: "snd_op k (drop off p) = Some (x, k1)" by auto
      with True less accepts [OF less.prems, of "drop off p" _ k1] show ?thesis
        by (cases x) (auto simp: send_all_loop.simps [of snd_op p off])
    qed (simp add: send_all_loop.simps [of snd_op p off])
  qed
  with assms(2) show ?thesis by (simp add: send_all_def)
qed

text \<open>The gathered loop does what the contiguous one does on the concatenation.\<close>

lemma send_iov_loop_eq:
  assumes "ok k" and "off \<le> length p" and "concat (drop first iov) = drop off p"
  shows "send_iov_loop sndmsg_op (length p) off iov first k = send_all_loop snd_op p off k"
  using assms
proof (induction "length p - off" arbitrary: off k iov first rule: less_induct)
  case less
  note unf = send_all_loop.simps [of snd_op p off] send_iov_loop.simps [of sndmsg_op "length p" off]
  show ?case
  proof (cases "off < length p")
    case False
    then show ?thesis by (simp add: unf)
  next
    case True
    then have ne: "drop off p \<noteq> []" by simp
    have g: "sndmsg_op k (drop first iov) = snd_op k (drop off p)" by (simp add: gathers less.prems(3))
    show ?thesis
    proof (cases "\<exists>n k1. snd_op k (drop off p) = Some (Inr n, k1)")
      case False
      with True g show ?thesis by (auto simp: unf split: option.splits sum.splits)
    next
      case True
      then obtain n k1 where s: "snd_op k (drop off p) = Some (Inr n, k1)" by blast
      from accepts [OF less.prems(1) ne s] have n: "0 < n" "n \<le> length (drop off p)" "ok k1" by auto
      then have "n \<le> length (concat (drop first iov))" using less.prems(3) by simp
      from iov_advance_drops [OF this] less.prems(3) obtain iov' first'
        where a: "iov_advance n iov first = Some (iov', first')"
          and c: "concat (drop first' iov') = drop (off + n) p" by (auto simp: add.commute)
      have "send_iov_loop sndmsg_op (length p) (off + n) iov' first' k1 = send_all_loop snd_op p (off + n) k1"
        using less.hyps [OF _ n(3) _ c] n by simp
      then show ?thesis using s g a by (simp add: unf)
    qed
  qed
qed

lemma send_all_iov_eq:
  assumes "ok k"
  shows "send_all_iov sndmsg_op a b k = send_all snd_op (a @ b) k"
  using send_iov_loop_eq [OF assms, of 0 "a @ b" 0 "[a, b]"]
  by (simp add: send_all_iov_def send_all_def)

end

end
