(* ===== verification/Libc_Ops.thy ===== *)
theory Libc_Ops
  imports Send_All
begin

text \<open>
  The operations of the libc backend, \<open>easyio/src/libc_queue.cpp\<close>: the awaiters for
  accept, connect, send and sendmsg, and the synchronous file operations. A system call
  returns a count or an errno; the results that successive calls on one descriptor will
  return are a list. An awaiter tries its call at once and again on every readiness event
  until the call does not answer \<open>EAGAIN\<close>.
\<close>

subsection \<open>System calls\<close>

datatype sys_result = Sys_ok nat | Sys_errno errno

fun sys_ok :: "sys_result \<Rightarrow> bool" where
  "sys_ok (Sys_ok n) \<longleftrightarrow> True"
| "sys_ok (Sys_errno e) \<longleftrightarrow> 0 < e"

text \<open>
  A connected socket: what the next send calls will answer, and the bytes accepted so far.
  A send that succeeds accepts a prefix of what it was offered.
\<close>

type_synonym send_sock = "sys_result list \<times> byte list"

fun sys_send :: "send_sock \<Rightarrow> byte list \<Rightarrow> (sys_result \<times> send_sock) option" where
  "sys_send ([], w) bs = None"
| "sys_send (Sys_ok n # rs, w) bs =
     (let c = min n (length bs) in Some (Sys_ok c, rs, w @ take c bs))"
| "sys_send (Sys_errno e # rs, w) bs = Some (Sys_errno e, rs, w)"

definition send_sock_ok :: "send_sock \<Rightarrow> bool" where
  "send_sock_ok k \<longleftrightarrow> list_all (\<lambda>r. sys_ok r \<and> r \<noteq> Sys_ok 0) (fst k)"

subsection \<open>Awaiters\<close>

text \<open>
  \<open>_try\<close> of the three awaiters: \<open>None\<close> when the call would block, otherwise the
  result kept for \<open>await_resume\<close>.
\<close>

definition awaiter_try :: "sys_result \<Rightarrow> int option" where
  "awaiter_try r =
     (case r of
        Sys_ok n \<Rightarrow> Some (int n)
      | Sys_errno e \<Rightarrow> if e = EAGAIN then None else Some (- e))"

definition awaiter_cancel :: int where
  "awaiter_cancel = - ECANCELED"

text \<open>What the operations make of an awaiter's result.\<close>

definition op_result :: "int \<Rightarrow> exn + nat" where
  "op_result res = (if res < 0 then Inl (System_error (- res)) else Inr (nat res))"

text \<open>\<open>co_await AcceptAwaiter\<close> and \<open>Queue::accept\<close>.\<close>

fun accept_await :: "sys_result list \<Rightarrow> (int \<times> sys_result list) option" where
  "accept_await [] = None"
| "accept_await (r # rs) =
     (case awaiter_try r of None \<Rightarrow> accept_await rs | Some res \<Rightarrow> Some (res, rs))"

definition libc_accept :: "sys_result list \<Rightarrow> ((exn + nat) \<times> sys_result list) option" where
  "libc_accept rs = map_option (apfst op_result) (accept_await rs)"

text \<open>
  \<open>ConnectAwaiter\<close>: the constructor calls \<open>::connect\<close>; if it is in progress, the
  first writability event asks \<open>SO_ERROR\<close> (\<open>None\<close>: no such event).
\<close>

definition connect_start :: "sys_result \<Rightarrow> bool \<times> int" where
  "connect_start r =
     (case r of
        Sys_ok n \<Rightarrow> (True, 0)
      | Sys_errno e \<Rightarrow> if e = EINPROGRESS then (False, 0) else (True, - e))"

definition connect_on_ready :: "sys_result \<Rightarrow> int" where
  "connect_on_ready so_error =
     (let err = (case so_error of Sys_ok n \<Rightarrow> int n | Sys_errno e \<Rightarrow> e)
      in if err \<noteq> 0 then - err else 0)"

definition libc_connect :: "sys_result \<Rightarrow> sys_result option \<Rightarrow> (exn + nat) option" where
  "libc_connect r so_error =
     (case connect_start r of
        (True, res) \<Rightarrow> Some (op_result res)
      | (False, _) \<Rightarrow> map_option (op_result \<circ> connect_on_ready) so_error)"

text \<open>\<open>co_await SendAwaiter\<close> and \<open>Queue::send\<close>; the gathered version likewise.\<close>

function send_await :: "send_sock \<Rightarrow> byte list \<Rightarrow> (int \<times> send_sock) option" where
  "send_await k bs =
     (case sys_send k bs of
        None \<Rightarrow> None
      | Some (r, k') \<Rightarrow>
          (case awaiter_try r of None \<Rightarrow> send_await k' bs | Some res \<Rightarrow> Some (res, k')))"
  by pat_completeness auto
termination
proof (relation "measure (\<lambda>(k, bs). length (fst k))")
  fix k bs x r k'
  assume "sys_send k bs = Some x" "(r, k') = x"
  then show "((k', bs), (k, bs)) \<in> measure (\<lambda>(k, bs). length (fst k))"
    by (cases "(k, bs)" rule: sys_send.cases) (auto simp: Let_def)
qed simp

definition libc_send :: "send_sock send_op" where
  "libc_send k bs = map_option (apfst op_result) (send_await k bs)"

text \<open>\<open>::sendmsg\<close> takes the bytes of its vectors in order.\<close>

definition sendmsg_await :: "send_sock \<Rightarrow> byte list list \<Rightarrow> (int \<times> send_sock) option" where
  "sendmsg_await k iov = send_await k (concat iov)"

definition libc_sendmsg :: "send_sock sendmsg_op" where
  "libc_sendmsg k iov = map_option (apfst op_result) (sendmsg_await k iov)"

text \<open>Regular files: the call is made at once and its errno thrown.\<close>

definition libc_file_op :: "sys_result \<Rightarrow> exn + nat" where
  "libc_file_op r = (case r of Sys_ok n \<Rightarrow> Inr n | Sys_errno e \<Rightarrow> Inl (System_error e))"

declare send_await.simps [simp del]

subsection \<open>The sends are a byte sink\<close>

lemma op_result_Inr: "op_result res = Inr n \<longleftrightarrow> 0 \<le> res \<and> n = nat res"
  by (auto simp: op_result_def)

lemma op_result_Inl: "op_result res = Inl e \<longleftrightarrow> res < 0 \<and> e = System_error (- res)"
  by (auto simp: op_result_def)

lemma send_sock_ok_Cons:
  "send_sock_ok (r # rs, w) \<longleftrightarrow> sys_ok r \<and> r \<noteq> Sys_ok 0 \<and> send_sock_ok (rs, w')"
  by (auto simp: send_sock_ok_def)

text \<open>
  What a send does with the answers of the kernel: skip \<open>EAGAIN\<close>, then the first
  other answer decides.
\<close>

lemma send_await_simps:
  "send_await ([], w) bs = None"
  "send_await (Sys_ok n # rs, w) bs =
     Some (int (min n (length bs)), rs, w @ take (min n (length bs)) bs)"
  "send_await (Sys_errno e # rs, w) bs =
     (if e = EAGAIN then send_await (rs, w) bs else Some (- e, rs, w))"
  by (subst send_await.simps; simp add: awaiter_try_def Let_def)+

lemma send_await_outcome:
  assumes "send_sock_ok (rs, w)" and "bs \<noteq> []" and "send_await (rs, w) bs = Some (res, k')"
  shows "send_sock_ok k' \<and> (if 0 \<le> res
    then 0 < res \<and> nat res \<le> length bs \<and> snd k' = w @ take (nat res) bs else snd k' = w)"
  using assms
proof (induction rs arbitrary: w)
  case Nil
  then show ?case by (simp add: send_await_simps)
next
  case (Cons r rs)
  then have ok: "sys_ok r" "r \<noteq> Sys_ok 0" "send_sock_ok (rs, w)" for w
    by (auto simp: send_sock_ok_def)
  show ?case
  proof (cases r)
    case (Sys_ok n)
    with Cons.prems ok show ?thesis by (auto simp: send_await_simps send_sock_ok_def)
  next
    case (Sys_errno e)
    with Cons.prems ok show ?thesis
      by (auto simp: send_await_simps Cons.IH split: if_splits)
  qed
qed

interpretation libc_sink: byte_sink libc_send libc_sendmsg snd send_sock_ok
proof unfold_locales
  fix k :: send_sock and bs n k'
  assume "send_sock_ok k" "bs \<noteq> []" "libc_send k bs = Some (Inr n, k')"
  then show "0 < n \<and> n \<le> length bs \<and> snd k' = snd k @ take n bs \<and> send_sock_ok k'"
    using send_await_outcome [of "fst k" "snd k" bs "int n" k']
    by (auto simp: libc_send_def op_result_Inr)
next
  fix k :: send_sock and bs e k'
  assume "send_sock_ok k" "bs \<noteq> []" "libc_send k bs = Some (Inl e, k')"
  then show "snd k' = snd k \<and> send_sock_ok k'"
    using send_await_outcome [of "fst k" "snd k" bs _ k']
    by (auto simp: libc_send_def op_result_Inl)
next
  show "libc_sendmsg k iov = libc_send k (concat iov)" for k iov
    by (simp add: libc_sendmsg_def libc_send_def sendmsg_await_def)
qed

subsection \<open>Sending a message completes\<close>

text \<open>
  How many bytes a list of answers has room for, and whether it holds no error but
  \<open>EAGAIN\<close>.
\<close>

fun send_room :: "sys_result list \<Rightarrow> nat" where
  "send_room [] = 0"
| "send_room (Sys_ok n # rs) = n + send_room rs"
| "send_room (Sys_errno e # rs) = send_room rs"

fun only_eagain :: "sys_result \<Rightarrow> bool" where
  "only_eagain (Sys_ok n) \<longleftrightarrow> True"
| "only_eagain (Sys_errno e) \<longleftrightarrow> e = EAGAIN"

lemma libc_send_simps:
  "libc_send (Sys_ok n # rs, w) bs =
     Some (Inr (min n (length bs)), rs, w @ take (min n (length bs)) bs)"
  "libc_send (Sys_errno EAGAIN # rs, w) bs = libc_send (rs, w) bs"
  by (simp_all add: libc_send_def send_await_simps op_result_def)

lemma send_all_loop_eagain:
  "send_all_loop libc_send p off (rs, w) = Some (Sent, k) \<Longrightarrow> off < length p \<Longrightarrow>
     send_all_loop libc_send p off (Sys_errno EAGAIN # rs, w) = Some (Sent, k)"
  by (simp add: send_all_loop.simps [of libc_send p off] libc_send_simps)

lemma send_all_loop_completes:
  assumes "send_sock_ok (rs, w)" and "list_all only_eagain rs" and "off \<le> length p"
    and "length p - off \<le> send_room rs"
  shows "\<exists>k. send_all_loop libc_send p off (rs, w) = Some (Sent, k)"
  using assms
proof (induction rs arbitrary: off w)
  case Nil
  then show ?case by (simp add: send_all_loop.simps [of libc_send p off])
next
  case (Cons r rs)
  have ok: "send_sock_ok (rs, w')" "list_all only_eagain rs" for w'
    using Cons.prems by (auto simp: send_sock_ok_def)
  show ?case
  proof (cases "off < length p")
    case False
    then show ?thesis by (simp add: send_all_loop.simps [of libc_send p off])
  next
    case True
    show ?thesis
    proof (cases r)
      case (Sys_ok n)
      let ?c = "min n (length (drop off p))"
      have "off + ?c \<le> length p" "length p - (off + ?c) \<le> send_room rs"
        using Cons.prems(4) True Sys_ok by auto
      from Cons.IH [OF ok this] True Sys_ok show ?thesis
        by (simp add: send_all_loop.simps [of libc_send p off] libc_send_simps)
    next
      case (Sys_errno e)
      then have "e = EAGAIN" "length p - off \<le> send_room rs" using Cons.prems by auto
      with Cons.IH [OF ok Cons.prems(3), of w] True Sys_errno send_all_loop_eagain show ?thesis
        by blast
    qed
  qed
qed

subsection \<open>Properties\<close>

text \<open>
  C26. A header and payload sent with the gathered \<open>send_all\<close> on the libc backend, for
  every pattern of short writes and \<open>EAGAIN\<close>: when the call returns, exactly
  header then payload was added to the wire; when it throws, a proper prefix of them was; and
  the walk over the \<open>iovec\<close> array never leaves it.
\<close>

theorem libc_send_all_exact:
  assumes "send_sock_ok (rs, w)" and "send_all_iov libc_sendmsg header payload (rs, w) = Some (r, k')"
  shows "r = Sent \<and> snd k' = w @ header @ payload
    \<or> (\<exists>e m. r = Threw e \<and> m < length (header @ payload) \<and> snd k' = w @ take m (header @ payload))"
  using libc_sink.send_all_outcome [OF assms(1), of "header @ payload" r k'] assms(2)
  by (simp add: libc_sink.send_all_iov_eq [OF assms(1)])

theorem libc_send_all_exact_witness:
  "\<exists>r k'. send_all_iov libc_sendmsg [1, 2, 3] [4, 5]
      ([Sys_ok 2, Sys_errno EAGAIN, Sys_ok 2, Sys_ok 9], [0]) = Some (r, k')
    \<and> r = Sent \<and> snd k' = [0, 1, 2, 3, 4, 5]"
proof -
  let ?k = "([Sys_ok 2, Sys_errno EAGAIN, Sys_ok 2, Sys_ok 9], [0 :: byte])"
  have ok: "send_sock_ok ?k" by (simp add: send_sock_ok_def EAGAIN_def)
  from send_all_loop_completes [of "fst ?k" "snd ?k" 0 "[1, 2, 3] @ [4, 5]"] ok obtain k'
    where c: "send_all_iov libc_sendmsg [1, 2, 3] [4, 5] ?k = Some (Sent, k')"
    by (auto simp: libc_sink.send_all_iov_eq [OF ok] send_all_def)
  with libc_send_all_exact [OF ok c] show ?thesis by simp
qed

text \<open>
  C27. The gathered \<open>send_all\<close> returns: if the socket will accept as many bytes as the
  message has, in runs of any positive size and with any number of \<open>EAGAIN\<close> answers in
  between, the call completes and the message is on the wire.
\<close>

theorem libc_send_all_completes:
  assumes "send_sock_ok (rs, w)" and "list_all only_eagain rs"
    and "length header + length payload \<le> send_room rs"
  shows "\<exists>k'. send_all_iov libc_sendmsg header payload (rs, w) = Some (Sent, k')
    \<and> snd k' = w @ header @ payload"
proof -
  from send_all_loop_completes [of rs w 0 "header @ payload"] assms obtain k'
    where c: "send_all libc_send (header @ payload) (rs, w) = Some (Sent, k')"
    by (auto simp: send_all_def)
  with libc_sink.send_all_outcome [OF assms(1) c] show ?thesis
    by (simp add: libc_sink.send_all_iov_eq [OF assms(1)])
qed

theorem libc_send_all_completes_witness:
  "\<exists>k'. send_all_iov libc_sendmsg [1, 2, 3] [] ([Sys_errno EAGAIN, Sys_ok 1, Sys_ok 2], []) = Some (Sent, k')
    \<and> snd k' = [1, 2, 3]"
  using libc_send_all_completes [of "[Sys_errno EAGAIN, Sys_ok 1, Sys_ok 2]" "[]" "[1, 2, 3]" "[]"]
  by (simp add: send_sock_ok_def EAGAIN_def)

end
