(* ===== verification/Libc_Queue.thy ===== *)
theory Libc_Queue
  imports Libc_Ops "HOL-Library.AList"
begin

text \<open>
  The poll loop of the libc backend, \<open>easyio/src/libc_queue.cpp\<close>: the table
  \<open>_fds\<close> of registered operations and \<open>step\<close>, \<open>cancel_fd\<close> and the destructor
  over it. Operations are values of any type (their addresses). Running one
  (\<open>on_ready\<close>, \<open>cancel\<close>) resumes coroutines that reenter the queue; it is a
  parameter that may change the table through the queue's own interface and whatever else
  the program has (\<open>'w\<close>).
\<close>

unbundle bit_operations_syntax

subsection \<open>Definitions\<close>

record 'o fd_state =
  fs_read_op :: "'o option"
  fs_read_op_gen :: u64
  fs_write_queue :: "'o list"

definition fs_init :: "'o fd_state" where
  "fs_init = \<lparr>fs_read_op = None, fs_read_op_gen = 0, fs_write_queue = []\<rparr>"

definition fs_empty :: "'o fd_state \<Rightarrow> bool" where
  "fs_empty s \<longleftrightarrow> fs_read_op s = None \<and> fs_write_queue s = []"

text \<open>\<open>_fds\<close>, in the order an iteration visits it.\<close>

type_synonym 'o fds = "(fd \<times> 'o fd_state) list"

definition fds_at :: "'o fds \<Rightarrow> fd \<Rightarrow> 'o fd_state" where
  "fds_at fds fd = (case map_of fds fd of None \<Rightarrow> fs_init | Some s \<Rightarrow> s)"

definition lq_set_read_op :: "fd \<Rightarrow> 'o \<Rightarrow> 'o fds \<Rightarrow> 'o fds" where
  "lq_set_read_op fd op fds =
     (let s = fds_at fds fd
      in AList.update fd (s\<lparr>fs_read_op := Some op, fs_read_op_gen := fs_read_op_gen s + 1\<rparr>) fds)"

definition lq_clear_read_op :: "fd \<Rightarrow> 'o \<Rightarrow> 'o fds \<Rightarrow> 'o fds" where
  "lq_clear_read_op fd op fds =
     (case map_of fds fd of
        None \<Rightarrow> fds
      | Some s \<Rightarrow>
          if fs_read_op s = Some op
          then (let s' = s\<lparr>fs_read_op := None\<rparr>
                in if fs_empty s' then AList.delete fd fds else AList.update fd s' fds)
          else fds)"

definition lq_push_write_op :: "fd \<Rightarrow> 'o \<Rightarrow> 'o fds \<Rightarrow> 'o fds" where
  "lq_push_write_op fd op fds =
     (let s = fds_at fds fd in AList.update fd (s\<lparr>fs_write_queue := fs_write_queue s @ [op]\<rparr>) fds)"

text \<open>The operations registered in an entry, in the order \<open>cancel_fd\<close> takes them.\<close>

definition fs_ops :: "'o fd_state \<Rightarrow> 'o list" where
  "fs_ops s = (case fs_read_op s of None \<Rightarrow> [] | Some op \<Rightarrow> [op]) @ fs_write_queue s"

definition lq_cancel_fd ::
  "('o \<Rightarrow> 'w \<times> 'o fds \<Rightarrow> 'w \<times> 'o fds) \<Rightarrow> fd \<Rightarrow> 'w \<times> 'o fds \<Rightarrow> 'w \<times> 'o fds" where
  "lq_cancel_fd on_cancel fd st =
     (case map_of (snd st) fd of
        None \<Rightarrow> st
      | Some s \<Rightarrow> fold on_cancel (fs_ops s) (fst st, AList.delete fd (snd st)))"

text \<open>
  The destructor walks the live table. \<open>None\<close> is the use of an entry, or of a write
  queue, that a \<open>cancel\<close> has meanwhile erased or changed.
\<close>

fun lq_destroy_writes ::
  "('o \<Rightarrow> 'w \<times> 'o fds \<Rightarrow> 'w \<times> 'o fds) \<Rightarrow> fd \<Rightarrow> 'o list \<Rightarrow> 'o list \<Rightarrow> 'w \<times> 'o fds \<Rightarrow>
     ('w \<times> 'o fds) option" where
  "lq_destroy_writes on_cancel fd q [] st = Some st"
| "lq_destroy_writes on_cancel fd q (op # ops) st =
     (let st' = on_cancel op st
      in case map_of (snd st') fd of
           None \<Rightarrow> None
         | Some s \<Rightarrow> if fs_write_queue s = q then lq_destroy_writes on_cancel fd q ops st' else None)"

definition lq_destroy_entry ::
  "('o \<Rightarrow> 'w \<times> 'o fds \<Rightarrow> 'w \<times> 'o fds) \<Rightarrow> fd \<Rightarrow> 'w \<times> 'o fds \<Rightarrow> ('w \<times> 'o fds) option" where
  "lq_destroy_entry on_cancel fd st =
     (case map_of (snd st) fd of
        None \<Rightarrow> Some st
      | Some s \<Rightarrow>
          (let st' = (case fs_read_op s of None \<Rightarrow> st | Some op \<Rightarrow> on_cancel op st)
           in case map_of (snd st') fd of
                None \<Rightarrow> None
              | Some s' \<Rightarrow> lq_destroy_writes on_cancel fd (fs_write_queue s') (fs_write_queue s') st'))"

fun lq_destroy_entries ::
  "('o \<Rightarrow> 'w \<times> 'o fds \<Rightarrow> 'w \<times> 'o fds) \<Rightarrow> fd list \<Rightarrow> 'w \<times> 'o fds \<Rightarrow> ('w \<times> 'o fds) option" where
  "lq_destroy_entries on_cancel [] st = Some st"
| "lq_destroy_entries on_cancel (fd # fs) st =
     (case lq_destroy_entry on_cancel fd st of
        None \<Rightarrow> None
      | Some st' \<Rightarrow> lq_destroy_entries on_cancel fs st')"

definition lq_destructor ::
  "('o \<Rightarrow> 'w \<times> 'o fds \<Rightarrow> 'w \<times> 'o fds) \<Rightarrow> 'w \<times> 'o fds \<Rightarrow> ('w \<times> 'o fds) option" where
  "lq_destructor on_cancel st = lq_destroy_entries on_cancel (map fst (snd st)) st"

subsubsection \<open>step\<close>

definition POLLIN :: u16 where "POLLIN = 1"
definition POLLOUT :: u16 where "POLLOUT = 4"
definition POLLERR :: u16 where "POLLERR = 8"
definition POLLHUP :: u16 where "POLLHUP = 16"
definition POLLNVAL :: u16 where "POLLNVAL = 32"

definition fs_events :: "'o fd_state \<Rightarrow> u16" where
  "fs_events s = (if fs_read_op s \<noteq> None then POLLIN else 0)
     OR (if fs_write_queue s \<noteq> [] then POLLOUT else 0)"

definition lq_poll_set :: "'o fds \<Rightarrow> (fd \<times> u16) list" where
  "lq_poll_set fds = filter (\<lambda>p. snd p \<noteq> 0) (map (\<lambda>p. (fst p, fs_events (snd p))) fds)"

type_synonym ('o, 'w) on_ready = "'o \<Rightarrow> 'w \<times> 'o fds \<Rightarrow> bool \<times> 'w \<times> 'o fds"

text \<open>The read side of one descriptor, with the generation check.\<close>

definition lq_dispatch_read :: "('o, 'w) on_ready \<Rightarrow> fd \<Rightarrow> 'w \<times> 'o fds \<Rightarrow> 'w \<times> 'o fds" where
  "lq_dispatch_read on_ready fd st =
     (case map_of (snd st) fd of
        None \<Rightarrow> st
      | Some s \<Rightarrow>
          (case fs_read_op s of
             None \<Rightarrow> st
           | Some op \<Rightarrow>
               (case on_ready op st of (fin, w, fds) \<Rightarrow>
                  if fin then
                    (case map_of fds fd of
                       None \<Rightarrow> (w, fds)
                     | Some s' \<Rightarrow>
                         if fs_read_op_gen s' = fs_read_op_gen s
                         then (w, AList.update fd (s'\<lparr>fs_read_op := None\<rparr>) fds) else (w, fds))
                  else (w, fds))))"

definition lq_pop_front :: "fd \<Rightarrow> 'o \<Rightarrow> 'o fds \<Rightarrow> 'o fds" where
  "lq_pop_front fd op fds =
     (case map_of fds fd of
        None \<Rightarrow> fds
      | Some s \<Rightarrow>
          (case fs_write_queue s of
             [] \<Rightarrow> fds
           | f # rest \<Rightarrow> if f = op then AList.update fd (s\<lparr>fs_write_queue := rest\<rparr>) fds else fds))"

partial_function (option) lq_write_loop ::
  "('o, 'w) on_ready \<Rightarrow> fd \<Rightarrow> 'w \<times> 'o fds \<Rightarrow> ('w \<times> 'o fds) option" where
  "lq_write_loop on_ready fd st =
     (case map_of (snd st) fd of
        None \<Rightarrow> Some st
      | Some s \<Rightarrow>
          (case fs_write_queue s of
             [] \<Rightarrow> Some st
           | op # _ \<Rightarrow>
               (case on_ready op st of (fin, st') \<Rightarrow>
                  if \<not> fin then Some st'
                  else lq_write_loop on_ready fd (fst st', lq_pop_front fd op (snd st')))))"

definition lq_sweep :: "fd \<Rightarrow> 'o fds \<Rightarrow> 'o fds" where
  "lq_sweep fd fds =
     (case map_of fds fd of
        None \<Rightarrow> fds
      | Some s \<Rightarrow> if fs_empty s then AList.delete fd fds else fds)"

definition lq_dispatch_one ::
  "('o, 'w) on_ready \<Rightarrow> fd \<times> u16 \<Rightarrow> 'w \<times> 'o fds \<Rightarrow> ('w \<times> 'o fds) option" where
  "lq_dispatch_one on_ready p st =
     (let fd = fst p; revents = snd p
      in if revents = 0 then Some st
         else
           (let st1 = (if revents AND (POLLIN OR POLLHUP OR POLLERR OR POLLNVAL) \<noteq> 0
                       then lq_dispatch_read on_ready fd st else st)
            in map_option (apsnd (lq_sweep fd))
                 (if revents AND (POLLOUT OR POLLHUP OR POLLERR OR POLLNVAL) \<noteq> 0
                  then lq_write_loop on_ready fd st1 else Some st1)))"

fun lq_dispatch ::
  "('o, 'w) on_ready \<Rightarrow> (fd \<times> u16) list \<Rightarrow> 'w \<times> 'o fds \<Rightarrow> ('w \<times> 'o fds) option" where
  "lq_dispatch on_ready [] st = Some st"
| "lq_dispatch on_ready (p # ps) st =
     (case lq_dispatch_one on_ready p st of
        None \<Rightarrow> None
      | Some st' \<Rightarrow> lq_dispatch on_ready ps st')"

text \<open>What \<open>::poll\<close> answers: an errno, or the returned events of each descriptor.\<close>

datatype poll_result = Poll_errno errno | Poll_revents "u16 list"

definition lq_step ::
  "('o, 'w) on_ready \<Rightarrow> poll_result \<Rightarrow> 'w \<times> 'o fds \<Rightarrow> (exn option \<times> 'w \<times> 'o fds) option" where
  "lq_step on_ready poll st =
     (case poll of
        Poll_errno e \<Rightarrow> if e = EINTR then Some (None, st) else Some (Some (System_error e), st)
      | Poll_revents revs \<Rightarrow>
          if list_all (\<lambda>r. r = 0) revs then Some (None, st)
          else map_option (Pair None)
                 (lq_dispatch on_ready (zip (map fst (lq_poll_set (snd st))) revs) st))"

subsection \<open>Reentrant calls\<close>

text \<open>
  A resumed coroutine changes the table through the interface only: registrations, the
  deregistration in a stream's destructor, and \<open>cancel_fd\<close>, whose own effect on the
  table is to erase the entry (the coroutines it resumes make further calls).
\<close>

datatype 'o qcall = Set_read fd 'o | Clear_read fd 'o | Push_write fd 'o | Erase_entry fd

fun lq_call :: "'o qcall \<Rightarrow> 'o fds \<Rightarrow> 'o fds" where
  "lq_call (Set_read fd op) fds = lq_set_read_op fd op fds"
| "lq_call (Clear_read fd op) fds = lq_clear_read_op fd op fds"
| "lq_call (Push_write fd op) fds = lq_push_write_op fd op fds"
| "lq_call (Erase_entry fd) fds = AList.delete fd fds"

definition lq_calls :: "'o qcall list \<Rightarrow> 'o fds \<Rightarrow> 'o fds" where
  "lq_calls cs fds = fold lq_call cs fds"

fun erases :: "fd \<Rightarrow> 'o qcall \<Rightarrow> bool" where
  "erases fd (Clear_read fd' op) \<longleftrightarrow> fd' = fd"
| "erases fd (Erase_entry fd') \<longleftrightarrow> fd' = fd"
| "erases fd (Set_read fd' op) \<longleftrightarrow> False"
| "erases fd (Push_write fd' op) \<longleftrightarrow> False"

fun sets_read :: "fd \<Rightarrow> 'o qcall \<Rightarrow> bool" where
  "sets_read fd (Set_read fd' op) \<longleftrightarrow> fd' = fd"
| "sets_read fd (Clear_read fd' op) \<longleftrightarrow> False"
| "sets_read fd (Push_write fd' op) \<longleftrightarrow> False"
| "sets_read fd (Erase_entry fd') \<longleftrightarrow> False"

text \<open>Keys are unique and, but for one descriptor being served, no entry is empty.\<close>

definition no_empty_but :: "fd option \<Rightarrow> (fd \<rightharpoonup> 'o fd_state) \<Rightarrow> bool" where
  "no_empty_but served m \<longleftrightarrow> (\<forall>fd s. m fd = Some s \<longrightarrow> served = Some fd \<or> \<not> fs_empty s)"

definition fds_ok_but :: "fd option \<Rightarrow> 'o fds \<Rightarrow> bool" where
  "fds_ok_but served fds \<longleftrightarrow> distinct (map fst fds) \<and> no_empty_but served (map_of fds)"

abbreviation fds_ok :: "'o fds \<Rightarrow> bool" where
  "fds_ok \<equiv> fds_ok_but None"

lemmas lq_defs = lq_set_read_op_def lq_clear_read_op_def lq_push_write_op_def fds_at_def

lemma no_empty_but_update:
  "no_empty_but served m \<Longrightarrow> served = Some fd \<or> \<not> fs_empty s \<Longrightarrow> no_empty_but served (m(fd \<mapsto> s))"
  by (simp add: no_empty_but_def)

lemma no_empty_but_delete: "no_empty_but served m \<Longrightarrow> no_empty_but served (m(fd := None))"
  by (simp add: no_empty_but_def)

lemma no_empty_but_served: "no_empty_but (Some fd) m \<Longrightarrow> no_empty_but None (m(fd := None))"
  by (auto simp: no_empty_but_def)

lemma fds_ok_but_update:
  "fds_ok_but served fds \<Longrightarrow> served = Some fd \<or> \<not> fs_empty s \<Longrightarrow>
     fds_ok_but served (AList.update fd s fds)"
  by (simp only: fds_ok_but_def update_conv' distinct_update no_empty_but_update simp_thms)

lemma fds_ok_but_delete: "fds_ok_but served fds \<Longrightarrow> fds_ok_but served (AList.delete fd fds)"
  by (simp only: fds_ok_but_def delete_conv' distinct_delete no_empty_but_delete simp_thms)

lemma lq_call_ok: "fds_ok_but served fds \<Longrightarrow> fds_ok_but served (lq_call c fds)"
  by (cases c)
    (auto simp: lq_defs Let_def fs_empty_def intro!: fds_ok_but_update fds_ok_but_delete
      split: option.split)

lemma lq_calls_ok: "fds_ok_but served fds \<Longrightarrow> fds_ok_but served (lq_calls cs fds)"
  unfolding lq_calls_def by (induction cs arbitrary: fds) (auto intro: lq_call_ok)

lemma fds_ok_but_weaken: "fds_ok fds \<Longrightarrow> fds_ok_but served fds"
  by (simp add: fds_ok_but_def no_empty_but_def)

lemma lq_sweep_ok:
  assumes "fds_ok_but (Some fd) fds"
  shows "fds_ok (lq_sweep fd fds)"
proof (cases "\<exists>s. map_of fds fd = Some s \<and> fs_empty s")
  case True
  then have "lq_sweep fd fds = AList.delete fd fds" by (auto simp: lq_sweep_def)
  moreover have "no_empty_but None ((map_of fds)(fd := None))"
    using assms no_empty_but_served unfolding fds_ok_but_def by blast
  ultimately show ?thesis
    using assms by (simp only: fds_ok_but_def delete_conv' distinct_delete simp_thms)
next
  case False
  then have "lq_sweep fd fds = fds" by (auto simp: lq_sweep_def split: option.split)
  moreover have "no_empty_but None (map_of fds)"
    unfolding no_empty_but_def
  proof (intro allI impI)
    fix f s assume "map_of fds f = Some s"
    with assms False show "None = Some f \<or> \<not> fs_empty s"
      unfolding fds_ok_but_def no_empty_but_def by blast
  qed
  ultimately show ?thesis using assms by (simp only: fds_ok_but_def simp_thms)
qed

lemma lq_pop_front_ok: "fds_ok_but (Some fd) fds \<Longrightarrow> fds_ok_but (Some fd) (lq_pop_front fd op fds)"
  by (auto simp: lq_pop_front_def split: option.split list.split intro: fds_ok_but_update)

text \<open>The poll set misses nothing that is registered.\<close>

lemma fs_events_bits:
  "(fs_events s AND POLLIN \<noteq> 0) = (fs_read_op s \<noteq> None)"
  "(fs_events s AND POLLOUT \<noteq> 0) = (fs_write_queue s \<noteq> [])"
  "(fs_events s = 0) = fs_empty s"
  by (auto simp: fs_events_def POLLIN_def POLLOUT_def fs_empty_def)

lemma lq_poll_set_covers:
  "map_of fds fd = Some s \<Longrightarrow> \<not> fs_empty s \<Longrightarrow> (fd, fs_events s) \<in> set (lq_poll_set fds)"
  by (force simp: lq_poll_set_def fs_events_bits dest: map_of_SomeD)

text \<open>The generation of an entry that is not erased counts its registrations.\<close>

lemma lq_call_gen:
  assumes "map_of fds fd = Some s" and "\<not> erases fd c"
  shows "\<exists>s'. map_of (lq_call c fds) fd = Some s'
    \<and> fs_read_op_gen s' = fs_read_op_gen s + of_bool (sets_read fd c)
    \<and> (\<not> sets_read fd c \<longrightarrow> fs_read_op s' = fs_read_op s)"
  using assms
  by (cases c) (auto simp: lq_defs Let_def update_conv' delete_conv' split: option.splits if_splits)

lemma lq_calls_gen:
  assumes "map_of fds fd = Some s" and "list_all (\<lambda>c. \<not> erases fd c) cs"
  shows "\<exists>s'. map_of (lq_calls cs fds) fd = Some s'
    \<and> fs_read_op_gen s' = fs_read_op_gen s + of_nat (length (filter (sets_read fd) cs))
    \<and> (filter (sets_read fd) cs = [] \<longrightarrow> fs_read_op s' = fs_read_op s)"
  using assms
proof (induction cs arbitrary: fds s)
  case Nil
  then show ?case by (simp add: lq_calls_def)
next
  case (Cons c cs)
  from lq_call_gen [of fds fd s c] Cons.prems obtain s1 where s1: "map_of (lq_call c fds) fd = Some s1"
    "fs_read_op_gen s1 = fs_read_op_gen s + of_bool (sets_read fd c)"
    "\<not> sets_read fd c \<longrightarrow> fs_read_op s1 = fs_read_op s" by auto
  from Cons.IH [OF s1(1)] Cons.prems(2) s1(2,3) show ?case
    by (auto simp: lq_calls_def add.assoc)
qed

subsection \<open>The poll loop over well-behaved operations\<close>

text \<open>
  What \<open>step\<close> relies on: running an operation changes the table only through the
  interface, and every operation that finishes uses up something finite (the system call
  result it finished with), so a write queue that refills itself is drained in the end.
\<close>

locale fd_reactor =
  fixes on_ready :: "('o, 'w) on_ready" and weight :: "'w \<Rightarrow> nat"
  assumes through_api: "\<exists>cs. snd (snd (on_ready op (w, fds))) = lq_calls cs fds"
    and consumes: "on_ready op (w, fds) = (True, w', fds') \<Longrightarrow> weight w' < weight w"
begin

lemma on_ready_ok:
  assumes "fds_ok_but served fds" and "on_ready op (w, fds) = (fin, w', fds')"
  shows "fds_ok_but served fds'"
  using assms through_api [of op w fds] by (auto intro: lq_calls_ok)

lemma dispatch_read_ok:
  assumes "fds_ok_but (Some fd) fds"
  shows "fds_ok_but (Some fd) (snd (lq_dispatch_read on_ready fd (w, fds)))"
  using assms
  by (auto simp: lq_dispatch_read_def split: option.split prod.split
      intro: fds_ok_but_update on_ready_ok)

lemma write_loop_ok:
  assumes "fds_ok_but (Some fd) fds"
  shows "\<exists>w' fds'. lq_write_loop on_ready fd (w, fds) = Some (w', fds') \<and> fds_ok_but (Some fd) fds'"
  using assms
proof (induction "weight w" arbitrary: w fds rule: less_induct)
  case less
  show ?case
  proof (cases "\<exists>s op q. map_of fds fd = Some s \<and> fs_write_queue s = op # q")
    case False
    with less.prems show ?thesis
      by (subst lq_write_loop.simps) (auto split: option.split list.split)
  next
    case True
    then obtain s op q where s: "map_of fds fd = Some s" "fs_write_queue s = op # q" by blast
    obtain fin w1 fds1 where o: "on_ready op (w, fds) = (fin, w1, fds1)" by (metis prod_cases3)
    note ok = on_ready_ok [OF less.prems o]
    show ?thesis
    proof (cases fin)
      case False
      with s o ok show ?thesis by (subst lq_write_loop.simps) simp
    next
      case True
      with o consumes [of op w fds w1 fds1] have "weight w1 < weight w" by simp
      from less.hyps [OF this lq_pop_front_ok [OF ok]] s o True show ?thesis
        by (subst lq_write_loop.simps) simp
    qed
  qed
qed

text \<open>
  Anything every operation keeps, and that does not depend on the queue being popped, the
  write loop keeps.
\<close>

lemma write_loop_keeps:
  assumes keep: "\<And>op w fds fin w' fds'. Q w fds \<Longrightarrow> on_ready op (w, fds) = (fin, w', fds') \<Longrightarrow> Q w' fds'"
    and pop: "\<And>op w fds. Q w fds \<Longrightarrow> Q w (lq_pop_front fd op fds)"
    and "Q w fds" and "lq_write_loop on_ready fd (w, fds) = Some (w', fds')"
  shows "Q w' fds'"
  using assms(3,4)
proof (induction "weight w" arbitrary: w fds rule: less_induct)
  case less
  show ?case
  proof (cases "\<exists>s op q. map_of fds fd = Some s \<and> fs_write_queue s = op # q")
    case False
    have "lq_write_loop on_ready fd (w, fds) = Some (w, fds)"
      using False by (subst lq_write_loop.simps) (auto split: option.split list.split)
    with less.prems show ?thesis by simp
  next
    case True
    then obtain s op q where s: "map_of fds fd = Some s" "fs_write_queue s = op # q" by blast
    obtain fin w1 fds1 where o: "on_ready op (w, fds) = (fin, w1, fds1)" by (metis prod_cases3)
    have eq: "lq_write_loop on_ready fd (w, fds)
        = (if \<not> fin then Some (w1, fds1) else lq_write_loop on_ready fd (w1, lq_pop_front fd op fds1))"
      using s o by (subst lq_write_loop.simps) simp
    have q: "Q w1 fds1" by (rule keep [OF less.prems(1) o])
    show ?thesis
    proof (cases fin)
      case False
      with eq q less.prems(2) show ?thesis by simp
    next
      case True
      then have "weight w1 < weight w" using consumes [of op w fds w1 fds1] o by simp
      from less.hyps [OF this pop [OF q]] eq True less.prems(2) show ?thesis by simp
    qed
  qed
qed

lemma dispatch_one_ok:
  assumes "fds_ok fds"
  shows "\<exists>w' fds'. lq_dispatch_one on_ready p (w, fds) = Some (w', fds') \<and> fds_ok fds'"
proof (cases "snd p = 0")
  case True
  with assms show ?thesis by (simp add: lq_dispatch_one_def)
next
  case False
  let ?st1 = "if snd p AND (POLLIN OR POLLHUP OR POLLERR OR POLLNVAL) \<noteq> 0
    then lq_dispatch_read on_ready (fst p) (w, fds) else (w, fds)"
  have ok1: "fds_ok_but (Some (fst p)) (snd ?st1)"
    using assms by (simp add: fds_ok_but_weaken dispatch_read_ok)
  have "\<exists>w' fds'. (if snd p AND (POLLOUT OR POLLHUP OR POLLERR OR POLLNVAL) \<noteq> 0
      then lq_write_loop on_ready (fst p) ?st1 else Some ?st1) = Some (w', fds')
      \<and> fds_ok_but (Some (fst p)) fds'"
    using write_loop_ok [OF ok1, of "fst ?st1"] ok1 by (cases ?st1) auto
  then show ?thesis
    using False by (auto simp: lq_dispatch_one_def Let_def intro: lq_sweep_ok)
qed

lemma dispatch_ok:
  assumes "fds_ok fds"
  shows "\<exists>w' fds'. lq_dispatch on_ready ps (w, fds) = Some (w', fds') \<and> fds_ok fds'"
  using assms
proof (induction ps arbitrary: w fds)
  case Nil
  then show ?case by simp
next
  case (Cons p ps)
  from dispatch_one_ok [OF Cons.prems, of p w] obtain w1 fds1
    where "lq_dispatch_one on_ready p (w, fds) = Some (w1, fds1)" "fds_ok fds1" by blast
  with Cons.IH [of fds1 w1] show ?case by simp
qed

text \<open>\<open>step\<close> returns, and afterwards everything registered is in the next poll set.\<close>

lemma step_ok:
  assumes "fds_ok fds"
  shows "\<exists>x w' fds'. lq_step on_ready poll (w, fds) = Some (x, w', fds') \<and> fds_ok fds'"
proof (cases poll)
  case (Poll_errno e)
  with assms show ?thesis by (simp add: lq_step_def)
next
  case (Poll_revents revs)
  with assms dispatch_ok [OF assms, of "zip (map fst (lq_poll_set fds)) revs" w] show ?thesis
    by (auto simp: lq_step_def)
qed

end

subsection \<open>Properties\<close>



text \<open>
  Writability serves the queued operations of a descriptor in their order, each at most
  once, until the first that would block; that one and the ones behind it stay queued.
\<close>

lemma write_queue_fifo:
  assumes "map_of fds fd = Some s"
  shows "\<exists>fds'. lq_write_loop (\<lambda>op st. (ready op, fst st @ [op], snd st)) fd (log, fds)
      = Some (log @ takeWhile ready (fs_write_queue s) @ take 1 (dropWhile ready (fs_write_queue s)), fds')
    \<and> map_of fds' = (map_of fds)(fd \<mapsto> s\<lparr>fs_write_queue := dropWhile ready (fs_write_queue s)\<rparr>)"
  using assms
proof (induction "fs_write_queue s" arbitrary: log fds s)
  case Nil
  then show ?case
    by (subst lq_write_loop.simps) (auto simp flip: Nil.hyps simp: map_upd_triv)
next
  case (Cons op q)
  let ?s = "s\<lparr>fs_write_queue := q\<rparr>"
  show ?case
  proof (cases "ready op")
    case False
    with Cons.prems show ?thesis
      by (subst lq_write_loop.simps) (auto simp flip: Cons.hyps(2) simp: map_upd_triv)
  next
    case True
    have pop: "lq_pop_front fd op fds = AList.update fd ?s fds"
      using Cons.prems by (simp add: lq_pop_front_def flip: Cons.hyps(2))
    from Cons.hyps(1) [of ?s "AList.update fd ?s fds" "log @ [op]"] obtain fds'
      where "lq_write_loop (\<lambda>op st. (ready op, fst st @ [op], snd st)) fd (log @ [op], AList.update fd ?s fds)
          = Some ((log @ [op]) @ takeWhile ready q @ take 1 (dropWhile ready q), fds')"
        and m: "map_of fds' = (map_of (AList.update fd ?s fds))(fd \<mapsto> ?s\<lparr>fs_write_queue := dropWhile ready q\<rparr>)"
      by (auto simp: update_conv')
    with Cons.prems True show ?thesis
      by (subst lq_write_loop.simps) (auto simp: pop update_conv' simp flip: Cons.hyps(2))
  qed
qed


text \<open>
  The destructor walks the table while \<open>cancel\<close> erases from it: if the first entry
  is a receive stream whose reader, resumed by the cancellation, destroys the stream (which
  deregisters itself), the walk goes on with an erased entry.
\<close>

lemma destructor_walks_erased_entry:
  assumes "fs_read_op s = Some op" and "fs_write_queue s = []"
    and "\<And>w fds. snd (on_cancel op (w, fds)) = lq_call (Clear_read fd op) fds"
    and "fd \<notin> fst ` set rest"
  shows "lq_destructor on_cancel (w, (fd, s) # rest) = None"
proof -
  have "map_of (snd (on_cancel op (w, (fd, s) # rest))) fd = None"
    using assms by (simp add: lq_clear_read_op_def fs_empty_def Let_def map_of_eq_None_iff)
  then show ?thesis
    using assms(1) by (simp add: lq_destructor_def lq_destroy_entry_def)
qed

end
