(* ===== verification/Libc_Stream_Life.thy ===== *)
theory Libc_Stream_Life
  imports Libc_Queue
begin

text \<open>
  The lifetime of the libc receive streams as operations of the poll queue
  (\<open>easyio/src/libc_recv_stream.cpp\<close>, constructor and destructor, over the table of
  \<open>libc_queue.cpp\<close>): a stream registers itself when it is made and takes itself off when it
  is destroyed, at any moment, in particular by the coroutine that its own \<open>on_ready\<close> or
  \<open>cancel\<close> resumes. Calling an operation of a destroyed stream is the event
  \<open>lt_bad\<close>.
\<close>

subsection \<open>Definitions\<close>

text \<open>The operations in the table: receive streams, and the awaiters of the other operations.\<close>

datatype 'a libc_op = Stream nat | Awaiter 'a

text \<open>The streams that exist, with their descriptor.\<close>

record 'a lt_state =
  lt_fds :: "'a libc_op fds"
  lt_live :: "nat \<rightharpoonup> fd"
  lt_bad :: bool

definition lt_init :: "'a lt_state" where
  "lt_init = \<lparr>lt_fds = [], lt_live = Map.empty, lt_bad = False\<rparr>"

text \<open>
  The constructor, as far as the table is concerned: it registers once the memory is there.
  The call of \<open>on_ready\<close> that follows has no reader to resume.
\<close>

definition lt_construct :: "bool \<Rightarrow> nat \<Rightarrow> fd \<Rightarrow> 'a lt_state \<Rightarrow> (exn + unit) \<times> 'a lt_state" where
  "lt_construct memalign i fd s =
     (if \<not> memalign then (Inl Bad_alloc, s)
      else (Inr (), s\<lparr>lt_fds := lq_set_read_op fd (Stream i) (lt_fds s), lt_live := (lt_live s)(i \<mapsto> fd)\<rparr>))"

definition lt_destruct :: "nat \<Rightarrow> 'a lt_state \<Rightarrow> 'a lt_state" where
  "lt_destruct i s =
     (case lt_live s i of
        None \<Rightarrow> s\<lparr>lt_bad := True\<rparr>
      | Some fd \<Rightarrow>
          s\<lparr>lt_fds := lq_clear_read_op fd (Stream i) (lt_fds s), lt_live := (lt_live s)(i := None)\<rparr>)"

text \<open>Calling an operation.\<close>

definition lt_call_op :: "'a libc_op \<Rightarrow> 'a lt_state \<Rightarrow> 'a lt_state" where
  "lt_call_op op s =
     (case op of
        Awaiter _ \<Rightarrow> s
      | Stream i \<Rightarrow> if lt_live s i = None then s\<lparr>lt_bad := True\<rparr> else s)"

fun awaiter_call :: "'a libc_op qcall \<Rightarrow> bool" where
  "awaiter_call (Set_read fd op) \<longleftrightarrow> (\<exists>a. op = Awaiter a)"
| "awaiter_call (Clear_read fd op) \<longleftrightarrow> (\<exists>a. op = Awaiter a)"
| "awaiter_call (Push_write fd op) \<longleftrightarrow> (\<exists>a. op = Awaiter a)"
| "awaiter_call (Erase_entry fd) \<longleftrightarrow> True"

text \<open>
  Steps. Streams are made and destroyed, awaiters register and leave; \<open>step\<close> calls the read
  operation or the first write operation of an entry, and what the resumed coroutine does are
  further steps, before those that tidy up the entry: the finished read operation is cleared
  (only an awaiter finishes), the finished write operation popped, an empty entry erased.
  \<open>cancel_fd\<close> erases an entry and calls what was in it.
\<close>

inductive lt_step :: "'a lt_state \<Rightarrow> 'a lt_state \<Rightarrow> bool" where
  lt_make: "lt_live s i = None \<Longrightarrow> lt_step s (snd (lt_construct memalign i fd s))"
| lt_drop: "lt_live s i \<noteq> None \<Longrightarrow> lt_step s (lt_destruct i s)"
| lt_call: "awaiter_call c \<Longrightarrow> lt_step s (s\<lparr>lt_fds := lq_call c (lt_fds s)\<rparr>)"
| lt_ready: "map_of (lt_fds s) fd = Some e \<Longrightarrow> op \<in> set (fs_ops e) \<Longrightarrow> lt_step s (lt_call_op op s)"
| lt_finish: "map_of (lt_fds s) fd = Some e \<Longrightarrow>
    lt_step s (s\<lparr>lt_fds := AList.update fd (e\<lparr>fs_read_op := None\<rparr>) (lt_fds s)\<rparr>)"
| lt_pop: "lt_step s (s\<lparr>lt_fds := lq_pop_front fd op (lt_fds s)\<rparr>)"
| lt_sweep: "lt_step s (s\<lparr>lt_fds := lq_sweep fd (lt_fds s)\<rparr>)"
| lt_cancel: "map_of (lt_fds s) fd = Some e \<Longrightarrow>
    lt_step s (fold lt_call_op (fs_ops e) (s\<lparr>lt_fds := AList.delete fd (lt_fds s)\<rparr>))"

subsection \<open>The table knows no destroyed stream\<close>

definition entry_ok :: "(nat \<rightharpoonup> fd) \<Rightarrow> fd \<Rightarrow> 'a libc_op fd_state \<Rightarrow> bool" where
  "entry_ok live fd e \<longleftrightarrow>
     (\<forall>i. fs_read_op e = Some (Stream i) \<longrightarrow> live i = Some fd) \<and> (\<forall>i. Stream i \<notin> set (fs_write_queue e))"

definition table_ok :: "(nat \<rightharpoonup> fd) \<Rightarrow> (fd \<rightharpoonup> 'a libc_op fd_state) \<Rightarrow> bool" where
  "table_ok live m \<longleftrightarrow> (\<forall>fd e. m fd = Some e \<longrightarrow> entry_ok live fd e)"

definition lt_inv :: "'a lt_state \<Rightarrow> bool" where
  "lt_inv s \<longleftrightarrow> \<not> lt_bad s \<and> table_ok (lt_live s) (map_of (lt_fds s))"

lemma table_ok_update: "table_ok live m \<Longrightarrow> entry_ok live fd e \<Longrightarrow> table_ok live (m(fd \<mapsto> e))"
  by (simp add: table_ok_def)

lemma table_ok_delete: "table_ok live m \<Longrightarrow> table_ok live (m(fd := None))"
  by (simp add: table_ok_def)

lemma fds_at_ok: "table_ok live (map_of fds) \<Longrightarrow> entry_ok live fd (fds_at fds fd)"
  by (auto simp: table_ok_def fds_at_def entry_ok_def fs_init_def split: option.split)

lemma table_ok_lookup: "table_ok live m \<Longrightarrow> m fd = Some e \<Longrightarrow> entry_ok live fd e"
  by (simp add: table_ok_def)

lemma entry_ok_ops:
  assumes "entry_ok (lt_live s) fd e" and "op \<in> set (fs_ops e)"
  shows "lt_call_op op s = s"
  using assms by (cases op) (auto simp: entry_ok_def fs_ops_def lt_call_op_def split: option.splits)

lemma lt_inv_call:
  assumes "table_ok live (map_of fds)" and "awaiter_call c"
  shows "table_ok live (map_of (lq_call c fds))"
proof (cases c)
  case (Set_read fd op)
  with assms fds_at_ok [OF assms(1), of fd] show ?thesis
    by (auto simp: lq_set_read_op_def Let_def update_conv' entry_ok_def intro!: table_ok_update)
next
  case (Push_write fd op)
  with assms fds_at_ok [OF assms(1), of fd] show ?thesis
    by (auto simp: lq_push_write_op_def Let_def update_conv' entry_ok_def intro!: table_ok_update)
next
  case (Clear_read fd op)
  with assms show ?thesis
    by (auto simp: lq_clear_read_op_def Let_def update_conv' delete_conv' entry_ok_def
        intro!: table_ok_update table_ok_delete dest: table_ok_lookup split: option.split)
next
  case (Erase_entry fd)
  with assms show ?thesis by (auto simp: delete_conv' table_ok_delete split: option.splits)
qed

lemma lt_inv_construct:
  assumes "lt_inv s" and "lt_live s i = None"
  shows "lt_inv (snd (lt_construct memalign i fd s))"
proof -
  have live: "entry_ok ((lt_live s)(i \<mapsto> fd)) fd' e" if "entry_ok (lt_live s) fd' e" for fd' and e :: "'a libc_op fd_state"
    using that assms(2) by (auto simp: entry_ok_def)
  let ?e = "(fds_at (lt_fds s) fd)\<lparr>fs_read_op := Some (Stream i), fs_read_op_gen := fs_read_op_gen (fds_at (lt_fds s) fd) + 1\<rparr>"
  have "entry_ok ((lt_live s)(i \<mapsto> fd)) fd ?e"
    using fds_at_ok [of "lt_live s" "lt_fds s" fd] assms(1) by (auto simp: lt_inv_def entry_ok_def)
  moreover have "table_ok ((lt_live s)(i \<mapsto> fd)) (map_of (lt_fds s))"
    using assms(1) live unfolding lt_inv_def table_ok_def by blast
  ultimately show ?thesis
    using assms(1) table_ok_update
    by (auto simp: lt_construct_def lt_inv_def lq_set_read_op_def Let_def update_conv')
qed

lemma lt_inv_destruct:
  assumes "lt_inv s" and "lt_live s i = Some fd"
  shows "lt_inv (lt_destruct i s)"
proof -
  let ?live = "(lt_live s)(i := None)"
  note tab = assms(1) [unfolded lt_inv_def, THEN conjunct2]
  have other: "entry_ok ?live fd' e" if "map_of (lt_fds s) fd' = Some e" "fd' \<noteq> fd \<or> fs_read_op e \<noteq> Some (Stream i)" for fd' e
    using table_ok_lookup [OF tab that(1)] that(2) assms(2) by (auto simp: entry_ok_def)
  have cleared: "entry_ok ?live fd (e\<lparr>fs_read_op := None\<rparr>)" if "map_of (lt_fds s) fd = Some e" for e
    using table_ok_lookup [OF tab that] by (simp add: entry_ok_def)
  have "table_ok ?live (map_of (lq_clear_read_op fd (Stream i) (lt_fds s)))"
  proof (cases "\<exists>e. map_of (lt_fds s) fd = Some e \<and> fs_read_op e = Some (Stream i)")
    case True
    then show ?thesis
      unfolding table_ok_def using other cleared
      by (auto simp: lq_clear_read_op_def Let_def update_conv' delete_conv' split: if_splits)
  next
    case False
    then have "lq_clear_read_op fd (Stream i) (lt_fds s) = lt_fds s"
      by (auto simp: lq_clear_read_op_def split: option.split)
    with other False show ?thesis unfolding table_ok_def by metis
  qed
  with assms show ?thesis by (simp add: lt_destruct_def lt_inv_def)
qed

lemma fold_lt_call_op:
  "(\<And>op. op \<in> set ops \<Longrightarrow> lt_call_op op s = s) \<Longrightarrow> fold lt_call_op ops s = s"
  by (induction ops) auto

lemma lt_step_inv: "lt_step s s' \<Longrightarrow> lt_inv s \<Longrightarrow> lt_inv s'"
proof (induction rule: lt_step.induct)
  case (lt_make s i memalign fd)
  then show ?case by (simp add: lt_inv_construct)
next
  case (lt_drop s i)
  then show ?case using lt_inv_destruct by blast
next
  case (lt_call c s)
  then show ?case by (simp add: lt_inv_def lt_inv_call)
next
  case (lt_ready s fd e op)
  then have "lt_call_op op s = s" using entry_ok_ops [of s fd e op] table_ok_lookup by (auto simp: lt_inv_def)
  with lt_ready show ?case by simp
next
  case (lt_finish s fd e)
  then have "entry_ok (lt_live s) fd (e\<lparr>fs_read_op := None\<rparr>)"
    using table_ok_lookup by (fastforce simp: lt_inv_def entry_ok_def)
  with lt_finish show ?case by (simp add: lt_inv_def update_conv' table_ok_update)
next
  case (lt_pop s fd op)
  then have "entry_ok (lt_live s) fd (e\<lparr>fs_write_queue := rest\<rparr>)"
    if "map_of (lt_fds s) fd = Some e" "fs_write_queue e = x # rest" for e x rest
    using that table_ok_lookup [of "lt_live s" "map_of (lt_fds s)" fd e] by (auto simp: lt_inv_def entry_ok_def)
  with lt_pop show ?case
    by (auto simp: lt_inv_def lq_pop_front_def update_conv' table_ok_update split: option.split list.split)
next
  case (lt_sweep s fd)
  then show ?case by (auto simp: lt_inv_def lq_sweep_def delete_conv' table_ok_delete split: option.split)
next
  case (lt_cancel s fd e)
  let ?s = "s\<lparr>lt_fds := AList.delete fd (lt_fds s)\<rparr>"
  have "entry_ok (lt_live ?s) fd e" using lt_cancel table_ok_lookup by (auto simp: lt_inv_def)
  then have "fold lt_call_op (fs_ops e) ?s = ?s" by (intro fold_lt_call_op entry_ok_ops)
  with lt_cancel show ?case by (simp add: lt_inv_def delete_conv' table_ok_delete)
qed

text \<open>
  However streams are made and destroyed while the queue runs: no operation of a destroyed
  stream is ever called, and a stream in the table is alive and under its own descriptor.
\<close>

lemma libc_stream_lifetime:
  assumes "lt_step\<^sup>*\<^sup>* lt_init s"
  shows "\<not> lt_bad s"
    and "map_of (lt_fds s) fd = Some e \<Longrightarrow> fs_read_op e = Some (Stream i) \<Longrightarrow> lt_live s i = Some fd"
proof -
  have "lt_inv s"
    using assms
  proof (induction rule: rtranclp_induct)
    case base
    show ?case by (simp add: lt_inv_def lt_init_def table_ok_def)
  qed (rule lt_step_inv)
  then show "\<not> lt_bad s"
    and "map_of (lt_fds s) fd = Some e \<Longrightarrow> fs_read_op e = Some (Stream i) \<Longrightarrow> lt_live s i = Some fd"
    by (auto simp: lt_inv_def table_ok_def entry_ok_def)
qed

end
