(* ===== verification/Mutex.thy ===== *)
theory Mutex
  imports Prelude
begin

text \<open>
  The coroutine mutex of \<open>easyio/include/easyio/mutex.hpp\<close>: a flag and a queue of
  suspended coroutines, with direct hand-over in \<open>unlock\<close>. Coroutine handles are values
  of any type. The locale \<open>fifo_lock\<close> is the contract its users rely on (mutual
  exclusion, first come first served); it is interpreted on the operations below.
\<close>

subsection \<open>Definitions\<close>

record 'h mutex =
  mx_locked :: bool
  mx_waiters :: "'h list"

definition mutex_init :: "'h mutex" where
  "mutex_init = \<lparr>mx_locked = False, mx_waiters = []\<rparr>"

definition lock_await_ready :: "'h mutex \<Rightarrow> bool \<times> 'h mutex" where
  "lock_await_ready m = (if \<not> mx_locked m then (True, m\<lparr>mx_locked := True\<rparr>) else (False, m))"

definition lock_await_suspend :: "'h \<Rightarrow> 'h mutex \<Rightarrow> 'h mutex" where
  "lock_await_suspend h m = m\<lparr>mx_waiters := mx_waiters m @ [h]\<rparr>"

text \<open>\<open>unlock\<close> names the coroutine it resumes, if any.\<close>

definition mutex_unlock :: "'h mutex \<Rightarrow> 'h option \<times> 'h mutex" where
  "mutex_unlock m =
     (case mx_waiters m of
        h # hs \<Rightarrow> (Some h, m\<lparr>mx_waiters := hs\<rparr>)
      | [] \<Rightarrow> (None, m\<lparr>mx_locked := False\<rparr>))"

text \<open>
  \<open>co_await lock_guard(m)\<close> by coroutine \<open>h\<close>: \<open>True\<close> when it goes on at once,
  \<open>False\<close> when it is suspended in the queue.
\<close>

definition lock_guard :: "'h \<Rightarrow> 'h mutex \<Rightarrow> bool \<times> 'h mutex" where
  "lock_guard h m =
     (case lock_await_ready m of
        (True, m') \<Rightarrow> (True, m')
      | (False, m') \<Rightarrow> (False, lock_await_suspend h m'))"

text \<open>\<open>MutexGuard\<close>: its only field says whether it still owns the lock.\<close>

record mutex_guard =
  guard_owns :: bool

definition guard_acquired :: mutex_guard where
  "guard_acquired = \<lparr>guard_owns = True\<rparr>"

definition guard_move :: "mutex_guard \<Rightarrow> mutex_guard \<times> mutex_guard" where
  "guard_move g = (g, \<lparr>guard_owns = False\<rparr>)"

definition guard_destroy :: "mutex_guard \<Rightarrow> 'h mutex \<Rightarrow> 'h option \<times> 'h mutex" where
  "guard_destroy g m = (if guard_owns g then mutex_unlock m else (None, m))"

subsection \<open>The contract\<close>

locale fifo_lock =
  fixes lock :: "'h \<Rightarrow> 'm \<Rightarrow> bool \<times> 'm"
    and unlock :: "'m \<Rightarrow> 'h option \<times> 'm"
    and locked :: "'m \<Rightarrow> bool"
    and queue :: "'m \<Rightarrow> 'h list"
  assumes lock_free: "\<not> locked m \<Longrightarrow> \<exists>m'. lock h m = (True, m') \<and> locked m' \<and> queue m' = queue m"
    and lock_busy: "locked m \<Longrightarrow> \<exists>m'. lock h m = (False, m') \<and> locked m' \<and> queue m' = queue m @ [h]"
    and unlock_next: "locked m \<Longrightarrow> queue m = h # hs \<Longrightarrow>
      \<exists>m'. unlock m = (Some h, m') \<and> locked m' \<and> queue m' = hs"
    and unlock_last: "queue m = [] \<Longrightarrow> \<exists>m'. unlock m = (None, m') \<and> \<not> locked m' \<and> queue m' = []"
begin

text \<open>The lock state agrees with who holds it: \<open>None\<close>, or one coroutine not in the queue.\<close>

definition agrees :: "'m \<Rightarrow> 'h option \<Rightarrow> bool" where
  "agrees m holder \<longleftrightarrow> (locked m \<longleftrightarrow> holder \<noteq> None) \<and> (holder = None \<longrightarrow> queue m = [])
     \<and> distinct (queue m) \<and> (\<forall>h. holder = Some h \<longrightarrow> h \<notin> set (queue m))"

lemma agrees_lock:
  assumes "agrees m holder" and "lock h m = (now, m')" and "holder \<noteq> Some h" and "h \<notin> set (queue m)"
  shows "now \<longleftrightarrow> holder = None" and "agrees m' (if now then Some h else holder)"
    and "queue m' = (if now then queue m else queue m @ [h])"
proof -
  show now: "now \<longleftrightarrow> holder = None"
    using assms(1,2) lock_free [of m h] lock_busy [of m h] by (auto simp: agrees_def)
  show "queue m' = (if now then queue m else queue m @ [h])"
    using assms(1,2) now lock_free [of m h] lock_busy [of m h] by (auto simp: agrees_def)
  show "agrees m' (if now then Some h else holder)"
    using assms now lock_free [of m h] lock_busy [of m h] by (auto simp: agrees_def)
qed

lemma agrees_unlock:
  assumes "agrees m (Some h)" and "unlock m = (nxt, m')"
  shows "agrees m' nxt" and "queue m = (case nxt of None \<Rightarrow> [] | Some k \<Rightarrow> k # queue m')"
    and "nxt = None \<Longrightarrow> queue m' = []"
  using assms unlock_last [of m] unlock_next [of m]
  by (cases "queue m"; auto simp: agrees_def)+

text \<open>
  First come, first served: the coroutine with \<open>n\<close> others before it in the queue is
  the one that the \<open>n\<close>-th further release resumes, whatever joins behind it.
\<close>

fun releases :: "nat \<Rightarrow> 'm \<Rightarrow> 'm" where
  "releases 0 m = m"
| "releases (Suc n) m = releases n (snd (unlock m))"

lemma releases_serve:
  assumes "locked m" and "queue m = pre @ h # post"
  shows "fst (unlock (releases (length pre) m)) = Some h
    \<and> queue (snd (unlock (releases (length pre) m))) = post"
  using assms
proof (induction pre arbitrary: m)
  case Nil
  then show ?case using unlock_next [of m h post] by auto
next
  case (Cons k pre)
  then obtain m' where m': "unlock m = (Some k, m')" "locked m'" "queue m' = pre @ h # post"
    using unlock_next [of m k] by fastforce
  with Cons.IH [OF m'(2,3)] show ?case by simp
qed

end

subsection \<open>The mutex keeps the contract\<close>

interpretation mx: fifo_lock "lock_guard :: 'h \<Rightarrow> 'h mutex \<Rightarrow> _" mutex_unlock mx_locked mx_waiters
  by unfold_locales
    (auto simp: lock_guard_def lock_await_ready_def lock_await_suspend_def mutex_unlock_def
      split: list.splits)

lemma guard_destroy_acquired [simp]: "guard_destroy guard_acquired m = mutex_unlock m"
  by (simp add: guard_destroy_def guard_acquired_def)

text \<open>Moving a guard and destroying both objects releases the lock exactly once.\<close>

lemma guard_move_once:
  "guard_move g = (g1, g2) \<Longrightarrow> guard_destroy g2 m = (None, m) \<and> guard_destroy g1 m = guard_destroy g m"
  by (auto simp: guard_move_def guard_destroy_def)

text \<open>
  The mutex is fair and never idle while someone waits: if coroutine \<open>h\<close> is queued
  behind the coroutines \<open>pre\<close>, then after one release by the holder and by each of
  them, the next release resumes exactly \<open>h\<close> with the lock still held, and the
  coroutines that queued after it keep their order.
\<close>

lemma mutex_fifo_handover:
  assumes "mx_locked m" and "mx_waiters m = pre @ h # post"
  shows "fst (mutex_unlock (mx.releases (length pre) m)) = Some h
    \<and> mx_waiters (snd (mutex_unlock (mx.releases (length pre) m))) = post"
  using assms by (rule mx.releases_serve)

end
