(* ===== verification/Wait_Group.thy ===== *)
theory Wait_Group
  imports Prelude
begin

text \<open>
  \<open>WaitGroup\<close> of \<open>easyio/include/easyio/wait_group.hpp\<close>: a counter and at most
  one waiting coroutine. \<open>wg_done\<close> returns the coroutine it resumes.
\<close>

subsection \<open>Definitions\<close>

record 'h wait_group =
  wg_remaining :: int
  wg_waiter :: "'h option"

definition wg_init :: "'h wait_group" where
  "wg_init = \<lparr>wg_remaining = 0, wg_waiter = None\<rparr>"

definition wg_add :: "int \<Rightarrow> 'h wait_group \<Rightarrow> 'h wait_group" where
  "wg_add n w = w\<lparr>wg_remaining := wg_remaining w + n\<rparr>"

definition wg_done :: "'h wait_group \<Rightarrow> 'h option \<times> 'h wait_group" where
  "wg_done w =
     (let w' = w\<lparr>wg_remaining := wg_remaining w - 1\<rparr>
      in if wg_remaining w' \<le> 0 \<and> wg_waiter w' \<noteq> None
         then (wg_waiter w', w'\<lparr>wg_waiter := None\<rparr>) else (None, w'))"

definition wg_await_ready :: "'h wait_group \<Rightarrow> bool" where
  "wg_await_ready w \<longleftrightarrow> wg_remaining w \<le> 0"

definition wg_await_suspend :: "'h \<Rightarrow> 'h wait_group \<Rightarrow> 'h wait_group" where
  "wg_await_suspend h w = w\<lparr>wg_waiter := Some h\<rparr>"

text \<open>\<open>co_await wg.wait()\<close> by \<open>h\<close>: whether it goes on at once.\<close>

definition wg_wait :: "'h \<Rightarrow> 'h wait_group \<Rightarrow> bool \<times> 'h wait_group" where
  "wg_wait h w = (if wg_await_ready w then (True, w) else (False, wg_await_suspend h w))"

text \<open>A run of completions: which coroutines it resumes.\<close>

fun wg_dones :: "nat \<Rightarrow> 'h wait_group \<Rightarrow> 'h option list \<times> 'h wait_group" where
  "wg_dones 0 w = ([], w)"
| "wg_dones (Suc n) w = (let (r, w1) = wg_done w; (rs, w2) = wg_dones n w1 in (r # rs, w2))"

subsection \<open>Resuming exactly at the last completion\<close>

lemma wg_done_not_last:
  "1 < wg_remaining w \<Longrightarrow> wg_done w = (None, w\<lparr>wg_remaining := wg_remaining w - 1\<rparr>)"
  by (simp add: wg_done_def Let_def)

lemma wg_done_last:
  "wg_remaining w = 1 \<Longrightarrow> wg_done w = (wg_waiter w, w\<lparr>wg_remaining := 0, wg_waiter := None\<rparr>)"
  by (cases w) (simp add: wg_done_def Let_def)

lemma wg_dones_waiting:
  "wg_remaining w = int (Suc n) \<Longrightarrow>
     wg_dones (Suc n) w
       = (replicate n None @ [wg_waiter w], w\<lparr>wg_remaining := 0, wg_waiter := None\<rparr>)"
proof (induction n arbitrary: w)
  case 0
  then show ?case by (simp add: wg_done_last)
next
  case (Suc n)
  then have "wg_done w = (None, w\<lparr>wg_remaining := int (Suc n)\<rparr>)"
    by (simp add: wg_done_not_last)
  with Suc.IH [of "w\<lparr>wg_remaining := int (Suc n)\<rparr>"] show ?case
    by (simp del: wg_dones.simps add: wg_dones.simps(2) [of "Suc n"])
qed

text \<open>
  A coroutine that waits on a group with \<open>n + 1\<close> unfinished tasks is suspended, is
  not resumed by the first \<open>n\<close> completions, and is resumed by the last one, once: the
  group is then empty and holds no waiter.
\<close>

lemma wait_group_resumes_last:
  assumes "wg_remaining w = int (Suc n)"
  shows "wg_wait h w = (False, w\<lparr>wg_waiter := Some h\<rparr>)
    \<and> wg_dones (Suc n) (snd (wg_wait h w))
      = (replicate n None @ [Some h], \<lparr>wg_remaining = 0, wg_waiter = None\<rparr>)"
proof -
  have "wg_wait h w = (False, w\<lparr>wg_waiter := Some h\<rparr>)"
    using assms by (simp add: wg_wait_def wg_await_ready_def wg_await_suspend_def)
  with wg_dones_waiting [of "w\<lparr>wg_waiter := Some h\<rparr>" n] assms show ?thesis
    by (cases w) (simp del: wg_dones.simps)
qed

end
