(* ===== verification/Uring_Queue.thy ===== *)
theory Uring_Queue
  imports Libc_Ops
begin

text \<open>
  The io_uring backend's queue, \<open>easyio/src/uring_queue.cpp\<close>: the submission ring with
  \<open>_get_sqe\<close>'s flush-and-retry, the fixed-file registration, the operations that build
  one submission entry each, the dispatch of completions and \<open>step\<close>. The calls into
  liburing are inputs: what a submit returns, which completions are visible. A sink is any
  value; what \<open>on_cqe\<close> does to the rest of the program is a parameter of the dispatch.
\<close>

subsection \<open>Definitions\<close>

text \<open>A submission entry: its target descriptor, plain or registered, and what it asks for.\<close>

datatype file_ref = Plain fd | Fixed nat

datatype sqe_op =
    Op_openat string int int
  | Op_close fd
  | Op_read file_ref nat u64
  | Op_write file_ref nat u64 bool
  | Op_accept fd
  | Op_connect fd
  | Op_send fd nat
  | Op_sendmsg fd nat
  | Op_cancel_fd fd

record 'o sqe =
  sqe_op :: sqe_op
  sqe_data :: "'o option"

record 'o uqueue =
  uq_depth :: nat
  uq_sq :: "'o sqe list"
  uq_submitted :: "'o sqe list"
  uq_registered_fd :: fd

definition uq_create :: "nat \<Rightarrow> sys_result \<Rightarrow> exn + 'o uqueue" where
  "uq_create depth init_ret =
     (case init_ret of
        Sys_errno e \<Rightarrow> Inl (System_error e)
      | Sys_ok _ \<Rightarrow> Inr \<lparr>uq_depth = depth, uq_sq = [], uq_submitted = [], uq_registered_fd = -1\<rparr>)"

text \<open>\<open>io_uring_submit\<close>: an errno, or how many entries the kernel took.\<close>

definition uq_submit :: "sys_result \<Rightarrow> 'o uqueue \<Rightarrow> 'o uqueue" where
  "uq_submit r q =
     (case r of
        Sys_errno e \<Rightarrow> q
      | Sys_ok n \<Rightarrow> q\<lparr>uq_sq := drop n (uq_sq q), uq_submitted := uq_submitted q @ take n (uq_sq q)\<rparr>)"

text \<open>
  \<open>_get_sqe\<close>, together with filling in the entry it returns: it throws, or the entry is
  appended to the submission ring.
\<close>

definition uq_get_sqe :: "sys_result \<Rightarrow> 'o sqe \<Rightarrow> 'o uqueue \<Rightarrow> (exn + unit) \<times> 'o uqueue" where
  "uq_get_sqe r e q =
     (if length (uq_sq q) < uq_depth q then (Inr (), q\<lparr>uq_sq := uq_sq q @ [e]\<rparr>)
      else (case r of
              Sys_errno err \<Rightarrow> (Inl (System_error err), q)
            | Sys_ok n \<Rightarrow>
                (let q1 = uq_submit r q
                 in if length (uq_sq q1) < uq_depth q1
                    then (Inr (), q1\<lparr>uq_sq := uq_sq q1 @ [e]\<rparr>)
                    else (Inl (System_error ENOBUFS), q1))))"

definition uq_use_fixed_file :: "sys_result \<Rightarrow> fd \<Rightarrow> 'o uqueue \<Rightarrow> bool \<times> 'o uqueue" where
  "uq_use_fixed_file reg fd q =
     (if uq_registered_fd q = fd then (True, q)
      else if uq_registered_fd q \<noteq> -1 then (False, q)
      else (case reg of
              Sys_errno e \<Rightarrow> (False, q)
            | Sys_ok _ \<Rightarrow> (True, q\<lparr>uq_registered_fd := fd\<rparr>)))"

text \<open>The operations, up to their suspension: the entry they queue for sink \<open>o\<close>.\<close>

definition uq_open :: "string \<Rightarrow> int \<Rightarrow> int \<Rightarrow> 'o \<Rightarrow> 'o sqe" where
  "uq_open path flags mode sk = \<lparr>sqe_op = Op_openat path flags mode, sqe_data = Some sk\<rparr>"

definition uq_close :: "fd \<Rightarrow> 'o \<Rightarrow> 'o sqe" where
  "uq_close fd sk = \<lparr>sqe_op = Op_close fd, sqe_data = Some sk\<rparr>"

definition uq_pread ::
  "sys_result \<Rightarrow> fd \<Rightarrow> nat \<Rightarrow> u64 \<Rightarrow> 'o \<Rightarrow> 'o uqueue \<Rightarrow> 'o sqe \<times> 'o uqueue" where
  "uq_pread reg fd sz off sk q =
     (let (fixed, q') = uq_use_fixed_file reg fd q
      in (\<lparr>sqe_op = Op_read (if fixed then Fixed 0 else Plain fd) sz off, sqe_data = Some sk\<rparr>, q'))"

definition uq_pwrite ::
  "sys_result \<Rightarrow> fd \<Rightarrow> nat \<Rightarrow> u64 \<Rightarrow> 'o \<Rightarrow> 'o uqueue \<Rightarrow> 'o sqe \<times> 'o uqueue" where
  "uq_pwrite reg fd sz off sk q =
     (let (fixed, q') = uq_use_fixed_file reg fd q
      in (\<lparr>sqe_op = Op_write (if fixed then Fixed 0 else Plain fd) sz off False, sqe_data = Some sk\<rparr>, q'))"

definition uq_pwrite_dsync ::
  "sys_result \<Rightarrow> fd \<Rightarrow> nat \<Rightarrow> u64 \<Rightarrow> 'o \<Rightarrow> 'o uqueue \<Rightarrow> 'o sqe \<times> 'o uqueue" where
  "uq_pwrite_dsync reg fd sz off sk q =
     (let (fixed, q') = uq_use_fixed_file reg fd q
      in (\<lparr>sqe_op = Op_write (if fixed then Fixed 0 else Plain fd) sz off True, sqe_data = Some sk\<rparr>, q'))"

definition uq_accept :: "fd \<Rightarrow> 'o \<Rightarrow> 'o sqe" where
  "uq_accept fd sk = \<lparr>sqe_op = Op_accept fd, sqe_data = Some sk\<rparr>"

definition uq_connect :: "fd \<Rightarrow> 'o \<Rightarrow> 'o sqe" where
  "uq_connect fd sk = \<lparr>sqe_op = Op_connect fd, sqe_data = Some sk\<rparr>"

definition uq_send :: "fd \<Rightarrow> nat \<Rightarrow> 'o \<Rightarrow> 'o sqe" where
  "uq_send fd sz sk = \<lparr>sqe_op = Op_send fd sz, sqe_data = Some sk\<rparr>"

definition uq_sendmsg :: "fd \<Rightarrow> nat \<Rightarrow> 'o \<Rightarrow> 'o sqe" where
  "uq_sendmsg fd iovcnt sk = \<lparr>sqe_op = Op_sendmsg fd iovcnt, sqe_data = Some sk\<rparr>"

definition uq_cancel_fd :: "fd \<Rightarrow> 'o sqe" where
  "uq_cancel_fd fd = \<lparr>sqe_op = Op_cancel_fd fd, sqe_data = None\<rparr>"

text \<open>
  What an operation returns once its completion arrived, \<open>SqeAwaiter\<close>'s \<open>_result\<close>
  being the \<open>res\<close> of the completion.
\<close>

definition uq_op_result :: "int \<Rightarrow> exn + nat" where
  "uq_op_result res = (if res < 0 then Inl (System_error (- res)) else Inr (nat res))"

text \<open>
  Dispatch: every visible completion once, in order; one without a sink (a cancellation's
  own) is only counted. Returns the number the completion ring is advanced by.
\<close>

record 'o cqe =
  cqe_res :: int
  cqe_flags :: u32
  cqe_data :: "'o option"

fun uq_dispatch :: "('o \<Rightarrow> int \<Rightarrow> u32 \<Rightarrow> 'w \<Rightarrow> 'w) \<Rightarrow> 'o cqe list \<Rightarrow> 'w \<Rightarrow> nat \<times> 'w" where
  "uq_dispatch on_cqe [] w = (0, w)"
| "uq_dispatch on_cqe (c # cs) w =
     (let w' = (case cqe_data c of None \<Rightarrow> w | Some sk \<Rightarrow> on_cqe sk (cqe_res c) (cqe_flags c) w);
          (nr, w'') = uq_dispatch on_cqe cs w'
      in (Suc nr, w''))"

definition uq_timespec :: "int \<Rightarrow> int \<times> int" where
  "uq_timespec timeout_ms = (timeout_ms div 1000, (timeout_ms mod 1000) * 1000000)"

text \<open>
  \<open>step\<close>: \<open>ret\<close> is what the submit-and-wait call answers and \<open>cqes\<close> the
  completions then visible. The result is an exception or how many were dispatched.
\<close>

definition uq_step ::
  "('o \<Rightarrow> int \<Rightarrow> u32 \<Rightarrow> 'w \<Rightarrow> 'w) \<Rightarrow> int \<Rightarrow> int \<Rightarrow> 'o cqe list \<Rightarrow> 'w \<Rightarrow> (exn + nat) \<times> 'w" where
  "uq_step on_cqe timeout_ms ret cqes w =
     (if \<not> timeout_ms < 0 \<and> ret = - ETIME then apfst Inr (uq_dispatch on_cqe cqes w)
      else if ret < 0 then
        (if ret = - EINTR then (Inr 0, w) else (Inl (System_error (- ret)), w))
      else apfst Inr (uq_dispatch on_cqe cqes w))"

text \<open>
  The destructor submits what is queued and marks the completions seen; it dispatches none,
  so no sink is called.
\<close>

definition uq_destructor :: "sys_result \<Rightarrow> 'o cqe list \<Rightarrow> 'o uqueue \<Rightarrow> nat \<times> 'o uqueue" where
  "uq_destructor r cqes q = (length cqes, uq_submit r q)"

text \<open>
  A send over io_uring: one entry, one completion, whose result is what the kernel answered.
\<close>

definition uring_send :: "send_sock send_op" where
  "uring_send k bs =
     (case sys_send k bs of
        None \<Rightarrow> None
      | Some (Sys_ok n, k') \<Rightarrow> Some (uq_op_result (int n), k')
      | Some (Sys_errno e, k') \<Rightarrow> Some (uq_op_result (- e), k'))"

definition uring_sendmsg :: "send_sock sendmsg_op" where
  "uring_sendmsg k iov = uring_send k (concat iov)"

subsection \<open>The sends are a byte sink\<close>

lemma sys_send_cases:
  "sys_send k bs =
     (case fst k of
        [] \<Rightarrow> None
      | Sys_ok n # rs \<Rightarrow> Some (Sys_ok (min n (length bs)), rs, snd k @ take (min n (length bs)) bs)
      | Sys_errno e # rs \<Rightarrow> Some (Sys_errno e, rs, snd k))"
  by (cases "(k, bs)" rule: sys_send.cases) (auto simp: Let_def)

interpretation uring_sink: byte_sink uring_send uring_sendmsg snd send_sock_ok
proof unfold_locales
  fix k :: send_sock and bs n k'
  assume "send_sock_ok k" "bs \<noteq> []" "uring_send k bs = Some (Inr n, k')"
  then show "0 < n \<and> n \<le> length bs \<and> snd k' = snd k @ take n bs \<and> send_sock_ok k'"
    by (auto simp: uring_send_def sys_send_cases uq_op_result_def send_sock_ok_def
        split: list.splits sys_result.splits if_splits)
next
  fix k :: send_sock and bs e k'
  assume "send_sock_ok k" "bs \<noteq> []" "uring_send k bs = Some (Inl e, k')"
  then show "snd k' = snd k \<and> send_sock_ok k'"
    by (auto simp: uring_send_def sys_send_cases uq_op_result_def send_sock_ok_def
        split: list.splits sys_result.splits if_splits)
next
  show "uring_sendmsg k iov = uring_send k (concat iov)" for k iov
    by (simp add: uring_sendmsg_def)
qed

subsection \<open>Submission\<close>

definition uq_ok :: "'o uqueue \<Rightarrow> bool" where
  "uq_ok q \<longleftrightarrow> length (uq_sq q) \<le> uq_depth q"

text \<open>Every entry handed to the ring so far, in order.\<close>

definition uq_queued :: "'o uqueue \<Rightarrow> 'o sqe list" where
  "uq_queued q = uq_submitted q @ uq_sq q"

text \<open>The descriptor an entry's target stands for.\<close>

definition file_ref_fd :: "'o uqueue \<Rightarrow> file_ref \<Rightarrow> fd option" where
  "file_ref_fd q r = (case r of Plain fd \<Rightarrow> Some fd | Fixed i \<Rightarrow> if i = 0 \<and> uq_registered_fd q \<noteq> -1
     then Some (uq_registered_fd q) else None)"

lemma uq_submit_queued: "uq_queued (uq_submit r q) = uq_queued q"
  by (simp add: uq_submit_def uq_queued_def split: sys_result.split)

lemma uq_get_sqe_ok:
  assumes "uq_ok q" and "uq_get_sqe r e q = (res, q')"
  shows "uq_ok q' \<and> uq_depth q' = uq_depth q"
  using assms
  by (auto simp: uq_get_sqe_def uq_ok_def uq_submit_def Let_def split: sys_result.splits if_splits)

subsection \<open>Properties\<close>

text \<open>
  Getting a submission entry never loses or reorders queued work and never overfills the
  ring: when it succeeds, the new entry follows every entry queued before; it fails only with
  a full ring, when the flush is refused (with its errno) or frees nothing
  (\<open>ENOBUFS\<close>); and it succeeds whenever the flush takes at least one entry.
\<close>

lemma get_sqe_queues_in_order:
  assumes "uq_ok q" and "0 < uq_depth q" and "uq_get_sqe r e q = (res, q')"
  shows "uq_ok q' \<and> (case res of
      Inr _ \<Rightarrow> uq_queued q' = uq_queued q @ [e]
    | Inl x \<Rightarrow> uq_queued q' = uq_queued q \<and> length (uq_sq q) = uq_depth q
        \<and> (r = Sys_ok 0 \<and> x = System_error ENOBUFS \<or> (\<exists>n. r = Sys_errno n \<and> x = System_error n)))"
proof -
  have "uq_ok q'" using uq_get_sqe_ok [OF assms(1,3)] by simp
  moreover have "case res of
      Inr _ \<Rightarrow> uq_queued q' = uq_queued q @ [e]
    | Inl x \<Rightarrow> uq_queued q' = uq_queued q \<and> length (uq_sq q) = uq_depth q
        \<and> (r = Sys_ok 0 \<and> x = System_error ENOBUFS \<or> (\<exists>n. r = Sys_errno n \<and> x = System_error n))"
    using assms uq_submit_queued [of r q]
    by (auto simp: uq_get_sqe_def uq_ok_def uq_submit_def uq_queued_def Let_def
        split: sys_result.splits if_splits)
  ultimately show ?thesis ..
qed

text \<open>
  File operations always address the descriptor they were given: through the plain
  descriptor, or through fixed file 0 while that is the very descriptor registered, whatever
  mix of descriptors and registration failures a queue sees.
\<close>

lemma fixed_file_addresses_fd:
  assumes "0 \<le> fd"
  shows "(\<exists>ref. sqe_op (fst (uq_pread reg fd sz off sk q)) = Op_read ref sz off
      \<and> file_ref_fd (snd (uq_pread reg fd sz off sk q)) ref = Some fd)
    \<and> (\<exists>ref. sqe_op (fst (uq_pwrite reg fd sz off sk q)) = Op_write ref sz off False
      \<and> file_ref_fd (snd (uq_pwrite reg fd sz off sk q)) ref = Some fd)
    \<and> (\<exists>ref. sqe_op (fst (uq_pwrite_dsync reg fd sz off sk q)) = Op_write ref sz off True
      \<and> file_ref_fd (snd (uq_pwrite_dsync reg fd sz off sk q)) ref = Some fd)"
  using assms
  by (auto simp: uq_pread_def uq_pwrite_def uq_pwrite_dsync_def uq_use_fixed_file_def file_ref_fd_def
      Let_def split: sys_result.splits)

text \<open>
  One \<open>step\<close> dispatches every visible completion exactly once, in ring order, and
  advances the ring by their number, on success and when the wait timed out; an interrupted
  wait dispatches nothing; any other failure is thrown. The timeout handed to the kernel is
  the requested number of milliseconds, normalised.
\<close>

lemma uring_step_dispatches_once:
  "uq_step (\<lambda>sk res flags log. log @ [(sk, res, flags)]) timeout_ms ret cqes [] =
     (if 0 \<le> ret \<or> 0 \<le> timeout_ms \<and> ret = - ETIME
      then (Inr (length cqes),
            [(sk, cqe_res c, cqe_flags c). c \<leftarrow> cqes, sk \<leftarrow> (case cqe_data c of None \<Rightarrow> [] | Some sk \<Rightarrow> [sk])])
      else if ret = - EINTR then (Inr 0, []) else (Inl (System_error (- ret)), []))
   \<and> (0 \<le> timeout_ms \<longrightarrow> (case uq_timespec timeout_ms of (s, ns) \<Rightarrow>
        0 \<le> s \<and> 0 \<le> ns \<and> ns < 1000000000 \<and> s * 1000000000 + ns = timeout_ms * 1000000))"
proof -
  have d: "uq_dispatch (\<lambda>sk res flags log. log @ [(sk, res, flags)]) cs log =
      (length cs, log @ [(sk, cqe_res c, cqe_flags c). c \<leftarrow> cs,
         sk \<leftarrow> (case cqe_data c of None \<Rightarrow> [] | Some sk \<Rightarrow> [sk])])" for cs :: "'a cqe list" and log
    by (induction cs arbitrary: log) (simp_all add: Let_def split: option.split)
  have "s * 1000000000 + ns = timeout_ms * 1000000" if "uq_timespec timeout_ms = (s, ns)" for s ns
    using that div_mult_mod_eq [of timeout_ms 1000] by (auto simp: uq_timespec_def)
  then show ?thesis
    by (auto simp: uq_step_def d ETIME_def EINTR_def) (auto simp: uq_timespec_def)
qed

text \<open>
  On the io_uring backend too, the gathered \<open>send_all\<close> puts exactly header then
  payload on the wire when it returns, and a proper prefix when it throws.
\<close>

lemma uring_send_all_exact:
  assumes "send_sock_ok (rs, w)" and "send_all_iov uring_sendmsg header payload (rs, w) = Some (r, k')"
  shows "r = Sent \<and> snd k' = w @ header @ payload
    \<or> (\<exists>e m. r = Threw e \<and> m < length (header @ payload) \<and> snd k' = w @ take m (header @ payload))"
  using uring_sink.send_all_outcome [OF assms(1), of "header @ payload" r k'] assms(2)
  by (simp add: uring_sink.send_all_iov_eq [OF assms(1)])

end
