(* ===== verification/Uring_Sink.thy ===== *)
theory Uring_Sink
  imports Prelude
begin

text \<open>
  The lifetime of \<open>RecvSink\<close> and \<open>SingleShotRecvSink\<close> in
  \<open>easyio/src/uring_recv_stream.cpp\<close>: a sink is the completion target of a kernel
  operation and must outlive it, while its stream may be destroyed at any moment, in
  particular by the coroutine that a completion resumes, with further completions for the
  same sink already queued. Running \<open>on_cqe\<close> on a freed sink, or freeing it twice, are
  events of the model (\<open>sk_bad\<close>), so that their absence is a theorem. Both queueing a
  receive operation and queueing its cancellation may fail, when \<open>_get_sqe\<close> throws: the
  first, in a \<open>noexcept\<close> function, ends the process; the second leaves the sink to the
  operation's own end.
\<close>

subsection \<open>Definitions\<close>

text \<open>
  The sink's own fields (\<open>owner\<close>, \<open>_live\<close>, whether the object is freed), and the
  kernel's side: whether an operation is in flight and which of its completions wait to be
  dispatched (\<open>True\<close> for one with \<open>IORING_CQE_F_MORE\<close>). \<open>sk_cancel\<close> tells
  whether a cancellation was asked for and, if so, whether it was queued;
  \<open>sk_terminated\<close> that \<open>std::terminate\<close> was called.
\<close>

record sink =
  sk_owner :: bool
  sk_live :: bool
  sk_freed :: bool
  sk_bad :: bool
  sk_inflight :: bool
  sk_cq :: "bool list"
  sk_cancel :: "bool option"
  sk_terminated :: bool

definition sk_delete :: "sink \<Rightarrow> sink" where
  "sk_delete s = (if sk_freed s then s\<lparr>sk_bad := True\<rparr> else s\<lparr>sk_freed := True\<rparr>)"

text \<open>
  \<open>submit_recv\<close>; \<open>room\<close> tells whether \<open>_get_sqe\<close> returns an entry, and the
  result \<open>None\<close> that it throws.
\<close>

definition sk_submit_recv :: "bool \<Rightarrow> sink \<Rightarrow> sink option" where
  "sk_submit_recv room s =
     (if sk_freed s then Some (s\<lparr>sk_bad := True\<rparr>)
      else if room then Some (s\<lparr>sk_live := True, sk_inflight := True\<rparr>)
      else None)"

definition sk_create :: "bool \<Rightarrow> sink option" where
  "sk_create room =
     map_option (sk_owner_update (\<lambda>_. True))
       (sk_submit_recv room
          \<lparr>sk_owner = False, sk_live = False, sk_freed = False, sk_bad = False,
           sk_inflight = False, sk_cq = [], sk_cancel = None, sk_terminated = False\<rparr>)"

text \<open>\<open>request_cancel\<close> swallows the exception of \<open>_get_sqe\<close>.\<close>

definition sk_request_cancel :: "bool \<Rightarrow> sink \<Rightarrow> sink" where
  "sk_request_cancel room s =
     (if sk_freed s then s\<lparr>sk_bad := True\<rparr> else s\<lparr>sk_cancel := Some room\<rparr>)"

text \<open>
  \<open>~RecvStreamImpl\<close>: detach, then ask for the cancellation of a live operation (its
  completion comes later) or free the sink.
\<close>

definition sk_destroy_stream :: "bool \<Rightarrow> sink \<Rightarrow> sink" where
  "sk_destroy_stream room s =
     (let s1 = s\<lparr>sk_owner := False\<rparr>
      in if sk_live s1 then sk_request_cancel room s1 else sk_delete s1)"

text \<open>
  What the reader may do while it is resumed by a completion, or later on its own: nothing,
  restart the receive operation (\<open>_maybe_resubmit\<close> and \<open>_reclaim\<close> do so only once
  it has ended, inside the \<open>noexcept\<close> functions \<open>handle_cqe\<close> and \<open>_ready\<close>),
  or destroy the stream. The latter two need a submission entry.
\<close>

datatype sink_action = Keep | Resubmit bool | Destroy bool

fun sk_act :: "sink_action \<Rightarrow> sink \<Rightarrow> sink" where
  "sk_act Keep s = s"
| "sk_act (Resubmit room) s =
     (if sk_live s \<or> sk_terminated s then s
      else case sk_submit_recv room s of None \<Rightarrow> s\<lparr>sk_terminated := True\<rparr> | Some s' \<Rightarrow> s')"
| "sk_act (Destroy room) s = (if sk_terminated s then s else sk_destroy_stream room s)"

text \<open>
  \<open>RecvSink::on_cqe\<close>; \<open>acts\<close> is what the resumed reader does inside
  \<open>handle_cqe\<close>.
\<close>

definition sk_on_cqe :: "sink_action list \<Rightarrow> bool \<Rightarrow> sink \<Rightarrow> sink" where
  "sk_on_cqe acts f_more s =
     (if sk_freed s then s\<lparr>sk_bad := True\<rparr>
      else (let s1 = (if \<not> f_more then s\<lparr>sk_live := False\<rparr> else s)
            in if sk_owner s1 then fold sk_act acts s1
               else if \<not> sk_live s1 then sk_delete s1 else s1))"

text \<open>\<open>SingleShotRecvSink::on_cqe\<close>, which ignores the flags.\<close>

definition sk_ss_on_cqe :: "sink_action list \<Rightarrow> bool \<Rightarrow> sink \<Rightarrow> sink" where
  "sk_ss_on_cqe acts f_more s =
     (if sk_freed s then s\<lparr>sk_bad := True\<rparr>
      else (let s1 = s\<lparr>sk_live := False\<rparr>
            in if sk_owner s1 then fold sk_act acts s1 else sk_delete s1))"

text \<open>
  A stream can be destroyed once; before that it may resubmit any number of times.
\<close>

definition acts_ok :: "sink_action list \<Rightarrow> bool" where
  "acts_ok acts \<longleftrightarrow> (\<forall>room. Destroy room \<notin> set (butlast acts))"

text \<open>
  Steps: the kernel posts a completion with more to come (multishot only) or the last one of
  an operation, also in answer to a cancellation; the queue dispatches the oldest completion;
  the reader acts on its own while it owns the stream. A terminated process makes none.
\<close>

inductive sink_step ::
  "(sink_action list \<Rightarrow> bool \<Rightarrow> sink \<Rightarrow> sink) \<Rightarrow> bool \<Rightarrow> sink \<Rightarrow> sink \<Rightarrow> bool"
  for on_cqe :: "sink_action list \<Rightarrow> bool \<Rightarrow> sink \<Rightarrow> sink" and multishot :: bool where
  post_more: "\<not> sk_terminated s \<Longrightarrow> multishot \<Longrightarrow> sk_inflight s \<Longrightarrow>
    sink_step on_cqe multishot s (s\<lparr>sk_cq := sk_cq s @ [True]\<rparr>)"
| post_last: "\<not> sk_terminated s \<Longrightarrow> sk_inflight s \<Longrightarrow>
    sink_step on_cqe multishot s (s\<lparr>sk_cq := sk_cq s @ [False], sk_inflight := False\<rparr>)"
| dispatch: "\<not> sk_terminated s \<Longrightarrow> sk_cq s = f_more # rest \<Longrightarrow> acts_ok acts \<Longrightarrow>
    sink_step on_cqe multishot s (on_cqe acts f_more (s\<lparr>sk_cq := rest\<rparr>))"
| act: "\<not> sk_terminated s \<Longrightarrow> sk_owner s \<Longrightarrow> sink_step on_cqe multishot s (sk_act a s)"

subsection \<open>The lifetime invariant\<close>

text \<open>
  At most one last completion is queued, at the end, and only once the operation is over;
  \<open>_live\<close> says exactly that a last completion is still to be dispatched; an attached
  stream's sink exists; a freed sink has no completion left, and a detached one without any
  is freed, and for a detached one that is live a cancellation was asked for.
\<close>

definition sink_inv :: "bool \<Rightarrow> sink \<Rightarrow> bool" where
  "sink_inv multishot s \<longleftrightarrow> \<not> sk_bad s
     \<and> (\<exists>n. sk_cq s = replicate n True @ (if sk_live s \<and> \<not> sk_inflight s then [False] else [])
          \<and> (0 < n \<longrightarrow> sk_live s \<and> multishot))
     \<and> (sk_inflight s \<longrightarrow> sk_live s)
     \<and> (sk_freed s \<longleftrightarrow> \<not> sk_owner s \<and> \<not> sk_live s)
     \<and> (\<not> sk_owner s \<and> sk_live s \<longrightarrow> sk_cancel s \<noteq> None)"

lemma sink_inv_create: "sk_create room = Some s \<Longrightarrow> sink_inv multishot s"
  by (auto split: if_splits simp: sink_inv_def sk_create_def sk_submit_recv_def)

text \<open>The state a reader acts in: it owns the stream, and nothing is queued unless live.\<close>

lemma sink_inv_act:
  assumes "sink_inv multishot s" and "sk_owner s"
  shows "sink_inv multishot (sk_act a s)" and "(\<And>room. a \<noteq> Destroy room) \<Longrightarrow> sk_owner (sk_act a s)"
  using assms
  by (cases a; auto simp: sink_inv_def sk_submit_recv_def sk_destroy_stream_def sk_request_cancel_def
      sk_delete_def Let_def split: if_splits)+

lemma sink_inv_acts:
  assumes "sink_inv multishot s" and "sk_owner s" and "acts_ok acts"
  shows "sink_inv multishot (fold sk_act acts s)"
  using assms
proof (induction acts arbitrary: s)
  case Nil
  then show ?case by simp
next
  case (Cons a acts)
  show ?case
  proof (cases "acts = []")
    case True
    with Cons.prems sink_inv_act show ?thesis by simp
  next
    case False
    with Cons.prems(3) have "a \<noteq> Destroy room" "acts_ok acts" for room by (auto simp: acts_ok_def)
    with Cons sink_inv_act show ?thesis by simp
  qed
qed

text \<open>Dispatching one completion, for both kinds of sink.\<close>

lemma sink_inv_cq_Cons:
  assumes "sink_inv multishot s" and "sk_cq s = f_more # rest"
  shows "sk_live s" and "\<not> sk_freed s" and "f_more \<longrightarrow> multishot"
    and "sink_inv multishot (if f_more then s\<lparr>sk_cq := rest\<rparr> else s\<lparr>sk_cq := rest, sk_live := False,
           sk_freed := \<not> sk_owner s\<rparr>)"
    and "\<not> f_more \<longrightarrow> rest = [] \<and> \<not> sk_inflight s"
proof -
  obtain n where n: "sk_cq s = replicate n True @ (if sk_live s \<and> \<not> sk_inflight s then [False] else [])"
    "0 < n \<longrightarrow> sk_live s \<and> multishot"
    using assms(1) by (auto simp: sink_inv_def)
  show live: "sk_live s" and "\<not> sk_freed s" and "f_more \<longrightarrow> multishot"
    and last: "\<not> f_more \<longrightarrow> rest = [] \<and> \<not> sk_inflight s"
    using n assms by (cases n; auto simp: sink_inv_def split: if_splits)+
  show "sink_inv multishot (if f_more then s\<lparr>sk_cq := rest\<rparr> else s\<lparr>sk_cq := rest, sk_live := False,
      sk_freed := \<not> sk_owner s\<rparr>)"
  proof (cases f_more)
    case True
    then obtain k where "n = Suc k"
      using n(1) assms(2) by (cases n) (auto split: if_splits)
    with True n assms live show ?thesis by (auto simp: sink_inv_def)
  next
    case False
    with assms(1) last show ?thesis by (auto simp: sink_inv_def)
  qed
qed

lemma sink_inv_on_cqe:
  assumes "sink_inv multishot s" and "sk_cq s = f_more # rest" and "acts_ok acts"
  shows "sink_inv multishot (sk_on_cqe acts f_more (s\<lparr>sk_cq := rest\<rparr>))"
proof -
  note c = sink_inv_cq_Cons [OF assms(1,2)]
  let ?s = "if f_more then s\<lparr>sk_cq := rest\<rparr> else s\<lparr>sk_cq := rest, sk_live := False\<rparr>"
  show ?thesis
  proof (cases "sk_owner s")
    case True
    then have "sink_inv multishot ?s" "sk_owner ?s"
      using c by (auto simp: sink_inv_def split: if_splits)
    with sink_inv_acts [OF _ _ assms(3)] True c(2) show ?thesis
      by (cases f_more) (auto simp: sk_on_cqe_def Let_def)
  next
    case False
    with c show ?thesis by (cases f_more) (auto simp: sk_on_cqe_def sk_delete_def Let_def)
  qed
qed

lemma sink_inv_ss_on_cqe:
  assumes "sink_inv False s" and "sk_cq s = f_more # rest" and "acts_ok acts"
  shows "sink_inv False (sk_ss_on_cqe acts f_more (s\<lparr>sk_cq := rest\<rparr>))"
proof -
  have "\<not> f_more" "\<not> sk_freed s" using sink_inv_cq_Cons [OF assms(1,2)] by auto
  then have "sk_ss_on_cqe acts f_more (s\<lparr>sk_cq := rest\<rparr>) = sk_on_cqe acts f_more (s\<lparr>sk_cq := rest\<rparr>)"
    by (simp add: sk_ss_on_cqe_def sk_on_cqe_def Let_def)
  with sink_inv_on_cqe [OF assms] show ?thesis by simp
qed

text \<open>Steps keep the invariant whenever dispatching does.\<close>

lemma sink_step_inv:
  assumes "\<And>s f_more rest acts. sink_inv multishot s \<Longrightarrow> sk_cq s = f_more # rest \<Longrightarrow> acts_ok acts \<Longrightarrow>
      sink_inv multishot (on_cqe acts f_more (s\<lparr>sk_cq := rest\<rparr>))"
    and "sink_step on_cqe multishot s s'" and "sink_inv multishot s"
  shows "sink_inv multishot s'"
  using assms(2)
proof (cases rule: sink_step.cases)
  case post_more
  with assms(3) obtain n where "sk_cq s' = replicate (Suc n) True" "sk_live s"
    by (auto simp: sink_inv_def replicate_append_same)
  with post_more assms(3) show ?thesis by (auto simp: sink_inv_def intro!: exI [of _ "Suc n"])
next
  case post_last
  with assms(3) show ?thesis by (auto simp: sink_inv_def)
next
  case (dispatch f_more rest acts)
  with assms(1,3) show ?thesis by blast
next
  case (act a)
  with assms(3) sink_inv_act show ?thesis by blast
qed

lemma sink_reachable_inv:
  assumes "(sink_step sk_on_cqe True)\<^sup>*\<^sup>* s0 s" and "sk_create room = Some s0"
  shows "sink_inv True s"
  using assms
  by (induction rule: rtranclp_induct)
    (auto intro: sink_inv_create sink_step_inv [where on_cqe = sk_on_cqe] sink_inv_on_cqe)

lemma ss_sink_reachable_inv:
  assumes "(sink_step sk_ss_on_cqe False)\<^sup>*\<^sup>* s0 s" and "sk_create room = Some s0"
  shows "sink_inv False s"
  using assms
  by (induction rule: rtranclp_induct)
    (auto intro: sink_inv_create sink_step_inv [where on_cqe = sk_ss_on_cqe] sink_inv_ss_on_cqe)

subsection \<open>Properties\<close>

text \<open>
  C14. However completions, cancellations and the destruction of the stream interleave, also
  when the coroutine resumed by a completion destroys the stream while more completions for
  it are queued, and whether or not submission entries can be had: the multishot sink is
  never used after it was freed and never freed twice; it is freed only when the kernel has
  no operation in flight and no completion queued for it; once the stream is destroyed and
  the last completion dispatched, it is freed; and a sink that is left behind with nothing
  queued for it belongs to an operation in flight whose cancellation was asked for.
\<close>

theorem recv_sink_lifetime:
  assumes "sk_create room = Some s0" and "(sink_step sk_on_cqe True)\<^sup>*\<^sup>* s0 s"
  shows "\<not> sk_bad s \<and> (sk_freed s \<longrightarrow> \<not> sk_owner s \<and> \<not> sk_inflight s \<and> sk_cq s = [])
    \<and> (\<not> sk_owner s \<and> \<not> sk_inflight s \<and> sk_cq s = [] \<longrightarrow> sk_freed s)
    \<and> (\<not> sk_owner s \<and> \<not> sk_freed s \<and> sk_cq s = [] \<longrightarrow> sk_inflight s \<and> sk_cancel s \<noteq> None)"
  using sink_reachable_inv [OF assms(2,1)] by (auto simp: sink_inv_def split: if_splits)

text \<open>
  The run of the witness: two completions queue up, the first one's reader destroys the
  stream, the second one is dispatched to the detached sink.
\<close>

theorem recv_sink_lifetime_witness:
  "\<exists>s0 s. sk_create True = Some s0 \<and> (sink_step sk_on_cqe True)\<^sup>*\<^sup>* s0 s
     \<and> sk_freed s \<and> \<not> sk_bad s \<and> sk_cq s = []"
proof -
  let ?s = "\<lambda>own live freed infl cq c. \<lparr>sk_owner = own, sk_live = live, sk_freed = freed, sk_bad = False,
    sk_inflight = infl, sk_cq = cq, sk_cancel = c, sk_terminated = False\<rparr>"
  let ?start = "?s True True False True [] None"
  have 0: "sk_create True = Some ?start" by (simp add: sk_create_def sk_submit_recv_def)
  have 1: "sink_step sk_on_cqe True ?start (?s True True False True [True] None)"
    using post_more [of ?start True sk_on_cqe] by simp
  have 2: "sink_step sk_on_cqe True (?s True True False True [True] None)
      (?s True True False False [True, False] None)"
    using post_last [of "?s True True False True [True] None" sk_on_cqe True] by simp
  have 3: "sink_step sk_on_cqe True (?s True True False False [True, False] None)
      (?s False True False False [False] (Some True))"
    using dispatch [of "?s True True False False [True, False] None" True "[False]" "[Destroy True]" sk_on_cqe True]
    by (simp add: acts_ok_def sk_on_cqe_def sk_destroy_stream_def sk_request_cancel_def Let_def)
  have 4: "sink_step sk_on_cqe True (?s False True False False [False] (Some True))
      (?s False False True False [] (Some True))"
    using dispatch [of "?s False True False False [False] (Some True)" False "[]" "[]" sk_on_cqe True]
    by (simp add: acts_ok_def sk_on_cqe_def sk_delete_def Let_def)
  from 1 2 3 4 have "(sink_step sk_on_cqe True)\<^sup>*\<^sup>* ?start (?s False False True False [] (Some True))"
    by (meson converse_rtranclp_into_rtranclp rtranclp.rtrancl_refl)
  with recv_sink_lifetime [OF 0 this] 0 show ?thesis by auto
qed

text \<open>
  The single-shot sink, whose \<open>on_cqe\<close> frees a detached sink without looking at the
  flags, has the same lifetime guarantees, because its operation completes exactly once.
\<close>

lemma single_shot_sink_lifetime:
  assumes "sk_create room = Some s0" and "(sink_step sk_ss_on_cqe False)\<^sup>*\<^sup>* s0 s"
  shows "\<not> sk_bad s \<and> (sk_freed s \<longrightarrow> \<not> sk_owner s \<and> \<not> sk_inflight s \<and> sk_cq s = [])
    \<and> (\<not> sk_owner s \<and> \<not> sk_inflight s \<and> sk_cq s = [] \<longrightarrow> sk_freed s)
    \<and> (\<not> sk_owner s \<and> \<not> sk_freed s \<and> sk_cq s = [] \<longrightarrow> sk_inflight s \<and> sk_cancel s \<noteq> None)"
  using ss_sink_reachable_inv [OF assms(2,1)] by (auto simp: sink_inv_def split: if_splits)

text \<open>
  The price of the \<open>noexcept\<close> functions: an attached stream whose operation has ended
  takes the process down when it has to be submitted again and there is no entry.
\<close>

lemma resubmit_failure_terminates:
  assumes "sk_create room = Some s0" and "(sink_step sk_on_cqe True)\<^sup>*\<^sup>* s0 s"
    and "sk_owner s" and "\<not> sk_live s" and "\<not> sk_terminated s"
  shows "\<exists>s'. sink_step sk_on_cqe True s s' \<and> sk_terminated s' \<and> (\<forall>t. \<not> sink_step sk_on_cqe True s' t)"
proof -
  have "\<not> sk_freed s" using sink_reachable_inv [OF assms(2,1)] assms(3) by (simp add: sink_inv_def)
  with assms(4,5) have "sk_terminated (sk_act (Resubmit False) s)" by (simp add: sk_submit_recv_def)
  with act [OF assms(5,3), of sk_on_cqe True "Resubmit False"] show ?thesis
    by (blast elim: sink_step.cases)
qed

end
