(* ===== verification/Uring_Buffer.thy ===== *)
theory Uring_Buffer
  imports Libc_Ops
begin

text \<open>
  The memory behind the io_uring receive streams, in
  \<open>easyio/src/uring_recv_stream.cpp\<close>: the group ids, the single mapping that holds the
  provided-buffer ring and its buffers, the ring's descriptors, and the constructors and
  destructors of the two kinds of sink as far as they acquire and release resources. What
  \<open>mmap\<close>, \<open>posix_memalign\<close>, the registration and \<open>_get_sqe\<close> answer are
  arguments; sizes are 64-bit words.
\<close>

unbundle bit_operations_syntax

subsection \<open>Definitions\<close>

text \<open>\<open>next_buffer_group_id\<close>: the id and the counter afterwards.\<close>

definition next_buffer_group_id :: "u16 \<Rightarrow> u16 \<times> u16" where
  "next_buffer_group_id counter = (counter, counter + 1)"

definition group_counter_init :: u16 where "group_counter_init = 1"

text \<open>The ids that \<open>n\<close> streams get, one after the other.\<close>

fun buffer_group_ids :: "u16 \<Rightarrow> nat \<Rightarrow> u16 list" where
  "buffer_group_ids counter 0 = []"
| "buffer_group_ids counter (Suc n) =
     (case next_buffer_group_id counter of (bgid, counter') \<Rightarrow> bgid # buffer_group_ids counter' n)"

definition kHugePageSize :: u64 where "kHugePageSize = 2097152"
definition sizeof_io_uring_buf :: u64 where "sizeof_io_uring_buf = 16"

text \<open>The length asked for, and the same rounded up to whole huge pages.\<close>

definition ring_mmap_len :: "u64 \<Rightarrow> u32 \<Rightarrow> u64" where
  "ring_mmap_len entry_size entries =
     sizeof_io_uring_buf * ucast entries + entry_size * ucast entries"

definition huge_len :: "u64 \<Rightarrow> u64" where
  "huge_len len = (len + kHugePageSize - 1) AND NOT (kHugePageSize - 1)"

text \<open>
  One descriptor of the ring: the buffer's place in the mapping, its length and its id.
  \<open>io_uring_buf_ring_add\<close> writes the descriptor at the masked index; the ring is the
  list of its slots.
\<close>

record buf_desc =
  bd_offset :: u64
  bd_len :: u32
  bd_bid :: u16

definition buf_at :: "u64 \<Rightarrow> u32 \<Rightarrow> nat \<Rightarrow> buf_desc" where
  "buf_at entry_size entries i =
     \<lparr>bd_offset = sizeof_io_uring_buf * ucast entries + of_nat i * entry_size,
      bd_len = ucast entry_size, bd_bid = of_nat i\<rparr>"

definition buf_ring_add :: "nat \<Rightarrow> buf_desc \<Rightarrow> nat \<Rightarrow> buf_desc list \<Rightarrow> buf_desc list" where
  "buf_ring_add tail d i ring = ring[(tail + i) AND (length ring - 1) := d]"

definition fill_ring :: "u64 \<Rightarrow> u32 \<Rightarrow> buf_desc list \<Rightarrow> buf_desc list" where
  "fill_ring entry_size entries ring =
     fold (\<lambda>i. buf_ring_add 0 (buf_at entry_size entries i) i) [0..<unat entries] ring"

subsubsection \<open>Resources\<close>

text \<open>What a sink holds: its mapping or buffer, by its length, and a registered group.\<close>

record sink_res =
  sr_mapped :: "u64 option"
  sr_group :: "u16 option"

definition no_res :: sink_res where
  "no_res = \<lparr>sr_mapped = None, sr_group = None\<rparr>"

text \<open>The constructor of \<open>RecvSink\<close>: the result, and what is held when it is over.\<close>

definition recv_sink_create ::
  "(u64 \<Rightarrow> bool) \<Rightarrow> (u64 \<Rightarrow> bool) \<Rightarrow> sys_result \<Rightarrow> (exn + unit) \<Rightarrow> u16 \<Rightarrow> u64 \<Rightarrow> u32 \<Rightarrow>
     (exn + buf_desc list) \<times> sink_res" where
  "recv_sink_create mmap_huge mmap register get_sqe bgid entry_size entries =
     (let len = ring_mmap_len entry_size entries; hlen = huge_len len;
          mapped = (if mmap_huge hlen then Some hlen else if mmap len then Some len else None)
      in case mapped of
           None \<Rightarrow> (Inl Bad_alloc, no_res)
         | Some l \<Rightarrow>
             (case register of
                Sys_errno e \<Rightarrow> (Inl (System_error e), no_res)
              | Sys_ok _ \<Rightarrow>
                  (let ring = fill_ring entry_size entries
                         (replicate (unat entries) \<lparr>bd_offset = 0, bd_len = 0, bd_bid = 0\<rparr>);
                       res = \<lparr>sr_mapped = Some l, sr_group = Some bgid\<rparr>
                   in case get_sqe of Inl e \<Rightarrow> (Inl e, res) | Inr _ \<Rightarrow> (Inr ring, res))))"

definition recv_sink_destroy :: "sink_res \<Rightarrow> sink_res" where
  "recv_sink_destroy r = r\<lparr>sr_group := None, sr_mapped := None\<rparr>"

text \<open>\<open>SingleShotRecvSink\<close>.\<close>

definition single_shot_sink_create ::
  "(u64 \<Rightarrow> bool) \<Rightarrow> (exn + unit) \<Rightarrow> u64 \<Rightarrow> (exn + unit) \<times> sink_res" where
  "single_shot_sink_create memalign get_sqe entry_size =
     (if \<not> memalign entry_size then (Inl Bad_alloc, no_res)
      else (get_sqe, no_res\<lparr>sr_mapped := Some entry_size\<rparr>))"

text \<open>
  \<open>make_recv_stream\<close>: which stream it makes, with the descriptors of the ring it hands to
  the kernel, or the exception it throws; and what is held then. Only the multishot stream
  takes a group id and looks at \<open>entries\<close>.
\<close>

datatype recv_stream_impl = RecvStreamImpl "buf_desc list" | SingleShotRecvStreamImpl

definition make_recv_stream ::
  "(u64 \<Rightarrow> bool) \<Rightarrow> (u64 \<Rightarrow> bool) \<Rightarrow> (u64 \<Rightarrow> bool) \<Rightarrow> sys_result \<Rightarrow> (exn + unit) \<Rightarrow> u16 \<Rightarrow>
     u64 \<Rightarrow> u32 \<Rightarrow> bool \<Rightarrow> (exn + recv_stream_impl) \<times> sink_res \<times> u16" where
  "make_recv_stream mmap_huge mmap memalign register get_sqe counter entry_size entries multishot =
     (if multishot
      then (case next_buffer_group_id counter of (bgid, counter') \<Rightarrow>
              (case recv_sink_create mmap_huge mmap register get_sqe bgid entry_size entries of
                 (r, res) \<Rightarrow> (map_sum id RecvStreamImpl r, res, counter')))
      else (case single_shot_sink_create memalign get_sqe entry_size of
              (r, res) \<Rightarrow> (map_sum id (\<lambda>_. SingleShotRecvStreamImpl) r, res, counter)))"

subsection \<open>Group ids\<close>

lemma buffer_group_ids_map: "buffer_group_ids c n = map (\<lambda>i. c + of_nat i) [0..<n]"
proof (induction n arbitrary: c)
  case (Suc n)
  have "map (\<lambda>i. c + of_nat i) [0..<Suc n] = c # map (\<lambda>i. c + of_nat i) (map Suc [0..<n])"
    by (simp add: map_Suc_upt upt_conv_Cons del: upt_Suc)
  then show ?case by (simp add: Suc.IH next_buffer_group_id_def o_def add.assoc del: upt_Suc)
qed simp

lemma of_nat_u16_inj: "i < 65536 \<Longrightarrow> j < 65536 \<Longrightarrow> (of_nat i :: u16) = of_nat j \<longleftrightarrow> i = j"
  by (simp add: word_of_nat_eq_iff take_bit_nat_eq_self)

subsection \<open>Sizes\<close>

lemma and_not_page: "unat (x AND NOT (kHugePageSize - 1)) = unat x div 2 ^ 21 * 2 ^ 21"
proof -
  have m: "kHugePageSize - 1 = mask 21" by (simp add: kHugePageSize_def mask_eq_exp_minus_1)
  have e: "x AND NOT (mask 21) = push_bit 21 (drop_bit 21 x)"
    by (rule bit_word_eqI) (auto simp: bit_simps)
  have lt: "unat x < 2 ^ 64" using unsigned_less [of x] by simp
  then have "take_bit 64 (unat x) = unat x" by (rule take_bit_nat_eq_self)
  then have "unat (x AND NOT (kHugePageSize - 1)) = take_bit 64 (unat x div 2 ^ 21 * 2 ^ 21)"
    unfolding m e unsigned_push_bit_eq unsigned_drop_bit_eq unfolding push_bit_eq_mult drop_bit_eq_div by simp
  moreover have "unat x div 2 ^ 21 * 2 ^ 21 \<le> unat x" by (rule div_times_less_eq_dividend)
  ultimately show ?thesis using lt by (simp add: take_bit_nat_eq_self)
qed

lemma unat_of_nat_u64: "k < 2 ^ 64 \<Longrightarrow> unat (of_nat k :: u64) = k"
  by (simp add: unat_of_nat take_bit_nat_eq_self)

text \<open>Rounding up: enough, less than a page more, and whole pages, unless it overflows.\<close>

lemma huge_len_bounds:
  assumes "unat len + 2 ^ 21 \<le> 2 ^ 64"
  shows "unat len \<le> unat (huge_len len)" and "unat (huge_len len) < unat len + 2 ^ 21"
    and "2 ^ 21 dvd unat (huge_len len)"
proof -
  have "len + kHugePageSize - 1 = of_nat (unat len + (2 ^ 21 - 1))"
    by (simp add: kHugePageSize_def)
  moreover have "unat (of_nat (unat len + (2 ^ 21 - 1)) :: u64) = unat len + (2 ^ 21 - 1)"
    by (rule unat_of_nat_u64) (use assms in simp)
  ultimately have u: "unat (huge_len len) = (unat len + (2 ^ 21 - 1)) div 2 ^ 21 * 2 ^ 21"
    by (simp only: huge_len_def and_not_page)
  show "2 ^ 21 dvd unat (huge_len len)" unfolding u by simp
  show "unat len \<le> unat (huge_len len)" "unat (huge_len len) < unat len + 2 ^ 21"
    unfolding u using div_mult_mod_eq [of "unat len + (2 ^ 21 - 1)" "2 ^ 21"]
      mod_less_divisor [of "2 ^ 21" "unat len + (2 ^ 21 - 1)"] by simp_all
qed

lemma ring_mmap_len_unat:
  assumes "(16 + unat es) * unat n < 2 ^ 64"
  shows "unat (ring_mmap_len es n) = (16 + unat es) * unat n"
proof -
  have "ring_mmap_len es n = of_nat ((16 + unat es) * unat n)"
    by (simp add: ring_mmap_len_def sizeof_io_uring_buf_def ring_distribs unsigned_ucast_eq)
  with unat_of_nat_u64 [OF assms] show ?thesis by simp
qed

subsection \<open>The descriptors\<close>

lemma fill_ring_upto:
  assumes "length ring = 2 ^ k" and "m \<le> 2 ^ k"
  shows "fold (\<lambda>i. buf_ring_add 0 (f i) i) [0..<m] ring = map f [0..<m] @ drop m ring"
  using assms(2)
proof (induction m)
  case (Suc m)
  have "m AND (2 ^ k - 1) = m"
    using Suc.prems unfolding mask_eq_exp_minus_1 [symmetric] take_bit_eq_mask [symmetric]
    by (intro take_bit_nat_eq_self) simp
  moreover have "drop m ring = ring ! m # drop (Suc m) ring"
    using Suc.prems assms(1) by (simp add: Cons_nth_drop_Suc)
  moreover have "fold (\<lambda>i. buf_ring_add 0 (f i) i) [0..<m] ring = map f [0..<m] @ drop m ring"
    using Suc by simp
  ultimately have "fold (\<lambda>i. buf_ring_add 0 (f i) i) [0..<Suc m] ring
      = (map f [0..<m] @ ring ! m # drop (Suc m) ring)[m := f m]"
    using Suc.prems assms(1) by (simp add: buf_ring_add_def [of 0 "f m" m])
  then show ?case by (simp add: list_update_append)
qed simp

lemma length_fill_ring [simp]: "length (fill_ring es n ring) = length ring"
proof -
  have "length (fold (\<lambda>i. buf_ring_add 0 (f i) i) is ring) = length ring" for f "is"
    by (induction "is" arbitrary: ring) (simp_all add: buf_ring_add_def)
  then show ?thesis by (simp add: fill_ring_def)
qed

lemma fill_ring_eq:
  "unat n = 2 ^ k \<Longrightarrow> length ring = unat n \<Longrightarrow> fill_ring es n ring = map (buf_at es n) [0..<unat n]"
  using fill_ring_upto [of ring k "unat n" "buf_at es n"] by (simp add: fill_ring_def)

lemma buf_offset_unat:
  assumes "(16 + unat es) * unat n < 2 ^ 64" and "i \<le> unat n"
  shows "unat (bd_offset (buf_at es n i)) = 16 * unat n + i * unat es"
proof -
  have "i * unat es \<le> unat n * unat es" using assms(2) by (rule mult_le_mono1)
  moreover have "16 * unat n + unat n * unat es < 2 ^ 64" using assms(1) by (simp add: ring_distribs mult.commute)
  ultimately have "16 * unat n + i * unat es < 2 ^ 64" by linarith
  moreover have "bd_offset (buf_at es n i) = of_nat (16 * unat n + i * unat es)"
    by (simp add: buf_at_def sizeof_io_uring_buf_def unsigned_ucast_eq)
  ultimately show ?thesis by (simp only: unat_of_nat_u64)
qed

lemma recv_sink_mapped:
  assumes "recv_sink_create mmap_huge mmap register get_sqe bgid es n = (Inr ring, res)"
    and "unat (ring_mmap_len es n) + 2 ^ 21 \<le> 2 ^ 64"
  shows "\<exists>l. sr_mapped res = Some l \<and> unat (ring_mmap_len es n) \<le> unat l"
  using assms(1) huge_len_bounds(1) [OF assms(2)]
  by (auto simp: recv_sink_create_def Let_def split: if_splits sys_result.splits sum.splits option.splits)

subsection \<open>Properties\<close>

text \<open>
  C38. The buffers handed to the kernel lie inside the mapping, behind the ring's descriptors
  and without overlapping, and buffer id and slot agree, whichever of the two mappings
  succeeded (for the power-of-two ring sizes a registration accepts, at most 32768, as long
  as the length does not overflow 64 bits; 131072-byte buffers fit).
\<close>

theorem ring_buffers_disjoint:
  assumes "recv_sink_create mmap_huge mmap register get_sqe bgid es n = (Inr ring, res)"
    and "unat n = 2 ^ k" and "unat n \<le> 32768" and "unat es < 2 ^ 32"
    and "(16 + unat es) * unat n + 2 ^ 21 \<le> 2 ^ 64"
  shows "length ring = unat n \<and> (\<exists>l. sr_mapped res = Some l
    \<and> (\<forall>i < unat n. unat (bd_bid (ring ! i)) = i \<and> 16 * unat n \<le> unat (bd_offset (ring ! i))
        \<and> unat (bd_offset (ring ! i)) + unat (bd_len (ring ! i)) \<le> unat l
        \<and> (\<forall>j < i. unat (bd_offset (ring ! j)) + unat (bd_len (ring ! j)) \<le> unat (bd_offset (ring ! i)))))"
proof -
  have fits: "(16 + unat es) * unat n < 2 ^ 64" using assms(5) by simp
  have ring: "ring = map (buf_at es n) [0..<unat n]"
    using assms(1) fill_ring_eq [OF assms(2)]
    by (auto simp: recv_sink_create_def Let_def split: if_splits sys_result.splits sum.splits option.splits)
  have ml: "unat (ring_mmap_len es n) = 16 * unat n + unat n * unat es"
    using ring_mmap_len_unat [OF fits] by (simp add: ring_distribs mult.commute)
  have "unat (ring_mmap_len es n) + 2 ^ 21 \<le> 2 ^ 64" using assms(5) ring_mmap_len_unat [OF fits] by simp
  from recv_sink_mapped [OF assms(1) this] ml obtain l
    where l: "sr_mapped res = Some l" "16 * unat n + unat n * unat es \<le> unat l" by auto
  have off: "unat (bd_offset (buf_at es n i)) = 16 * unat n + i * unat es" if "i < unat n" for i
    using buf_offset_unat [OF fits] that by simp
  have len: "unat (bd_len (buf_at es n i)) = unat es" for i
    using assms(4) by (simp add: buf_at_def unsigned_ucast_eq take_bit_nat_eq_self)
  have bid: "unat (bd_bid (buf_at es n i)) = i" if "i < unat n" for i
    using that assms(3) by (simp add: buf_at_def unat_of_nat take_bit_nat_eq_self)
  have step: "i * unat es + unat es \<le> j * unat es" if "i < j" for i j
    using that mult_le_mono1 [of "Suc i" j "unat es"] by simp
  have "unat (bd_offset (ring ! i)) + unat (bd_len (ring ! i)) \<le> unat l" if "i < unat n" for i
    using that off [OF that] len step [OF that] l(2) by (simp add: ring)
  moreover have "unat (bd_offset (ring ! j)) + unat (bd_len (ring ! j)) \<le> unat (bd_offset (ring ! i))"
    if "j < i" "i < unat n" for i j
    using that off len step [OF that(1)] by (simp add: ring)
  ultimately show ?thesis using l(1) off bid by (auto simp: ring)
qed

theorem ring_buffers_disjoint_witness:
  "\<exists>ring res. recv_sink_create (\<lambda>_. False) (\<lambda>_. True) (Sys_ok 0) (Inr ()) 1 131072 4 = (Inr ring, res)
    \<and> length ring = 4 \<and> unat (bd_offset (ring ! 0)) + unat (bd_len (ring ! 0)) \<le> unat (bd_offset (ring ! 1))"
proof -
  obtain ring res where r: "recv_sink_create (\<lambda>_. False) (\<lambda>_. True) (Sys_ok 0) (Inr ()) 1 131072 4 = (Inr ring, res)"
    by (simp add: recv_sink_create_def Let_def)
  from ring_buffers_disjoint [OF r, of 2] r show ?thesis by auto
qed

text \<open>
  \<open>make_recv_stream\<close> makes the stream that was asked for, and one that fails has
  released what its sink acquired, except when the receive operation itself cannot be queued
  (\<open>_get_sqe\<close> throws): then the mapping and the registered buffer group of the multishot
  sink, or the buffer of the single-shot one, stay behind, since no destructor runs.
\<close>

lemma recv_sink_constructor_leak:
  "case make_recv_stream mmap_huge mmap memalign register get_sqe counter es n multishot of
     (Inr st, res, counter') \<Rightarrow>
       (if multishot then (\<exists>ring l. st = RecvStreamImpl ring \<and> length ring = unat n
              \<and> res = \<lparr>sr_mapped = Some l, sr_group = Some counter\<rparr>)
        else st = SingleShotRecvStreamImpl \<and> res = \<lparr>sr_mapped = Some es, sr_group = None\<rparr>)
   | (Inl e, res, counter') \<Rightarrow>
       res \<noteq> no_res \<longleftrightarrow> get_sqe = Inl e
         \<and> (if multishot then (\<exists>k. register = Sys_ok k)
              \<and> (mmap_huge (huge_len (ring_mmap_len es n)) \<or> mmap (ring_mmap_len es n))
            else memalign es)"
  by (auto simp: make_recv_stream_def next_buffer_group_id_def recv_sink_create_def
      single_shot_sink_create_def no_res_def Let_def split: sys_result.splits sum.splits)

lemma recv_sink_destroy_releases:
  "recv_sink_destroy (snd (recv_sink_create mmap_huge mmap register get_sqe bgid es n)) = no_res"
  by (simp add: recv_sink_destroy_def no_res_def)

text \<open>
  Buffer group ids are 16-bit: of the streams created in one process, any 65536
  consecutive ones have different ids, and the next one gets the id of the first again,
  whether or not that stream still exists.
\<close>

lemma buffer_group_ids_wrap:
  "distinct (buffer_group_ids group_counter_init n) \<longleftrightarrow> n \<le> 65536"
proof
  assume d: "distinct (buffer_group_ids group_counter_init n)"
  show "n \<le> 65536"
  proof (rule ccontr)
    assume "\<not> n \<le> 65536"
    then have "0 < n" "65536 < n" by simp_all
    then have "buffer_group_ids group_counter_init n ! 0 = buffer_group_ids group_counter_init n ! 65536"
      by (simp add: buffer_group_ids_map)
    moreover have "length (buffer_group_ids group_counter_init n) = n" by (simp add: buffer_group_ids_map)
    ultimately show False using d \<open>0 < n\<close> \<open>65536 < n\<close> nth_eq_iff_index_eq [OF d, of 0 65536] by simp
  qed
next
  assume "n \<le> 65536"
  then have "inj_on (\<lambda>i. group_counter_init + of_nat i) (set [0..<n])"
    by (auto simp: inj_on_def of_nat_u16_inj)
  then show "distinct (buffer_group_ids group_counter_init n)"
    by (simp add: buffer_group_ids_map distinct_map)
qed

end
