(* ===== verification/Ownership.thy ===== *)
theory Ownership
  imports Prelude
begin

text \<open>
  The contract of the move-only classes (\<open>Task\<close>, \<open>AlignedBuffer\<close>): an object holds
  one resource or none, a move empties its source, an assignment first releases what the
  target held, a destructor releases what is left. The specification keeps the objects by
  name and the set of resources that exist; releasing one that does not exist is the event
  \<open>ow_bad\<close>. A class that refines it, which is the locale \<open>single_owner\<close>, never
  releases twice and never loses a resource, whatever its clients do with it.
\<close>

subsection \<open>The specification\<close>

type_synonym obj = nat
type_synonym addr = nat

record own =
  ow_objs :: "obj \<rightharpoonup> addr option"
  ow_live :: "addr set"
  ow_next :: addr
  ow_bad :: bool

definition own_init :: own where
  "own_init = \<lparr>ow_objs = Map.empty, ow_live = {}, ow_next = 0, ow_bad = False\<rparr>"

definition own_release :: "addr option \<Rightarrow> own \<Rightarrow> own" where
  "own_release h w =
     (case h of
        None \<Rightarrow> w
      | Some a \<Rightarrow> if a \<in> ow_live w then w\<lparr>ow_live := ow_live w - {a}\<rparr> else w\<lparr>ow_bad := True\<rparr>)"

text \<open>
  Constructing an object with a new resource or an empty one, moving, assigning, destroying;
  \<open>Own_skip\<close> stands for what does not concern ownership.
\<close>

datatype own_op =
    Own_new obj
  | Own_null obj
  | Own_move obj obj
  | Own_assign obj obj
  | Own_destroy obj
  | Own_skip

fun own_step :: "own_op \<Rightarrow> own \<Rightarrow> own" where
  "own_step (Own_new x) w =
     w\<lparr>ow_objs := (ow_objs w)(x \<mapsto> Some (ow_next w)), ow_live := insert (ow_next w) (ow_live w),
       ow_next := ow_next w + 1\<rparr>"
| "own_step (Own_null x) w = w\<lparr>ow_objs := (ow_objs w)(x \<mapsto> None)\<rparr>"
| "own_step (Own_move x y) w =
     w\<lparr>ow_objs := (ow_objs w)(x := ow_objs w y, y \<mapsto> None)\<rparr>"
| "own_step (Own_assign x y) w =
     (if x = y then w
      else (own_release (the (ow_objs w x)) w)\<lparr>ow_objs := (ow_objs w)(x := ow_objs w y, y \<mapsto> None)\<rparr>)"
| "own_step (Own_destroy x) w =
     (own_release (the (ow_objs w x)) w)\<lparr>ow_objs := (ow_objs w)(x := None)\<rparr>"
| "own_step Own_skip w = w"

text \<open>The language's own rules: an object is constructed where there is none and used while it exists.\<close>

fun own_ok :: "own_op \<Rightarrow> own \<Rightarrow> bool" where
  "own_ok (Own_new x) w \<longleftrightarrow> ow_objs w x = None"
| "own_ok (Own_null x) w \<longleftrightarrow> ow_objs w x = None"
| "own_ok (Own_move x y) w \<longleftrightarrow> ow_objs w x = None \<and> ow_objs w y \<noteq> None"
| "own_ok (Own_assign x y) w \<longleftrightarrow> ow_objs w x \<noteq> None \<and> ow_objs w y \<noteq> None"
| "own_ok (Own_destroy x) w \<longleftrightarrow> ow_objs w x \<noteq> None"
| "own_ok Own_skip w \<longleftrightarrow> True"

text \<open>No resource has two owners, and the resources that exist are those with an owner.\<close>

definition owns :: "own \<Rightarrow> obj \<Rightarrow> addr \<Rightarrow> bool" where
  "owns w x a \<longleftrightarrow> ow_objs w x = Some (Some a)"

definition own_inv :: "own \<Rightarrow> bool" where
  "own_inv w \<longleftrightarrow> \<not> ow_bad w
     \<and> (\<forall>x y a. owns w x a \<and> owns w y a \<longrightarrow> x = y)
     \<and> (\<forall>a. a \<in> ow_live w \<longleftrightarrow> (\<exists>x. owns w x a))
     \<and> (\<forall>a. a \<in> ow_live w \<longrightarrow> a < ow_next w)"

lemma own_invI:
  assumes "\<not> ow_bad w" and "\<And>x y a. owns w x a \<Longrightarrow> owns w y a \<Longrightarrow> x = y"
    and "\<And>a. a \<in> ow_live w \<longleftrightarrow> (\<exists>x. owns w x a)" and "\<And>a. a \<in> ow_live w \<Longrightarrow> a < ow_next w"
  shows "own_inv w"
  using assms unfolding own_inv_def by blast

lemma own_invD:
  assumes "own_inv w"
  shows "\<not> ow_bad w" and "owns w x a \<Longrightarrow> owns w y a \<Longrightarrow> x = y"
    and "a \<in> ow_live w \<longleftrightarrow> (\<exists>x. owns w x a)" and "a \<in> ow_live w \<Longrightarrow> a < ow_next w"
  using assms unfolding own_inv_def by blast+

lemma own_inv_init: "own_inv own_init"
  by (simp add: own_inv_def own_init_def owns_def)

text \<open>Releasing what \<open>x\<close> holds, by destroying or emptying it.\<close>

lemma own_inv_releases:
  assumes "own_inv w" and "ow_objs w x = Some h" and "e = None \<or> e = Some None"
  shows "own_inv ((own_release h w)\<lparr>ow_objs := (ow_objs w)(x := e)\<rparr>)" (is "own_inv ?w")
proof -
  note i = own_invD [OF assms(1)]
  have owns: "owns ?w z a \<longleftrightarrow> owns w z a \<and> z \<noteq> x" for z a using assms(3) by (auto simp: owns_def)
  have held: "owns w x a \<longleftrightarrow> h = Some a" for a using assms(2) by (simp add: owns_def)
  have live: "a \<in> ow_live ?w \<longleftrightarrow> a \<in> ow_live w \<and> h \<noteq> Some a"
    and nb: "ow_bad ?w = ow_bad w" and nx: "ow_next ?w = ow_next w" for a
    using i(3) held by (auto simp: own_release_def split: option.split)
  show ?thesis
  proof (rule own_invI)
    show "\<not> ow_bad ?w" using nb i(1) by simp
    show "y = z" if "owns ?w y a" "owns ?w z a" for y z a using that i(2) unfolding owns by blast
    show "a \<in> ow_live ?w \<longleftrightarrow> (\<exists>x. owns ?w x a)" for a
      unfolding live owns i(3) held [symmetric] using i(2) by blast
    show "a < ow_next ?w" if "a \<in> ow_live ?w" for a using that i(4) unfolding live nx by blast
  qed
qed

text \<open>Moving from \<open>y\<close> to an object that holds nothing or does not exist yet.\<close>

lemma own_inv_moves:
  assumes "own_inv w" and "ow_objs w x = None \<or> ow_objs w x = Some None" and "ow_objs w y \<noteq> None" and "x \<noteq> y"
  shows "own_inv (w\<lparr>ow_objs := (ow_objs w)(x := ow_objs w y, y \<mapsto> None)\<rparr>)" (is "own_inv ?w")
proof -
  note i = own_invD [OF assms(1)]
  have owns: "owns ?w z a \<longleftrightarrow> (if z = x then owns w y a else z \<noteq> y \<and> owns w z a)" for z a
    using assms(4) by (simp add: owns_def)
  have none: "\<not> owns w x a" for a using assms(2) by (auto simp: owns_def)
  have rest: "ow_bad ?w = ow_bad w" "ow_next ?w = ow_next w" "ow_live ?w = ow_live w" by simp_all
  show ?thesis
  proof (rule own_invI)
    show "\<not> ow_bad ?w" using rest i(1) by simp
    show "u = z" if "owns ?w u a" "owns ?w z a" for u z a
      using that i(2) unfolding owns by (auto split: if_splits)
    show "a \<in> ow_live ?w \<longleftrightarrow> (\<exists>x. owns ?w x a)" for a
    proof -
      have "(\<exists>z. owns ?w z a) \<longleftrightarrow> owns w y a \<or> (\<exists>z. z \<noteq> x \<and> z \<noteq> y \<and> owns w z a)"
        unfolding owns by metis
      with none show ?thesis unfolding rest i(3) by metis
    qed
    show "a < ow_next ?w" if "a \<in> ow_live ?w" for a using that i(4) unfolding rest by blast
  qed
qed

lemma own_inv_new:
  assumes "own_inv w" and "ow_objs w x = None"
  shows "own_inv (own_step (Own_new x) w)" and "own_inv (own_step (Own_null x) w)"
proof -
  note i = own_invD [OF assms(1)]
  have none: "\<not> owns w x a" for a using assms(2) by (simp add: owns_def)
  let ?w = "own_step (Own_new x) w"
  have owns: "owns ?w z a \<longleftrightarrow> (if z = x then a = ow_next w else owns w z a)" for z a
    by (auto simp: owns_def)
  have live: "ow_live ?w = insert (ow_next w) (ow_live w)" "ow_next ?w = Suc (ow_next w)" "\<not> ow_bad ?w"
    using i(1) by simp_all
  show "own_inv ?w"
  proof (rule own_invI)
    show "\<not> ow_bad ?w" by (rule live(3))
    show "y = z" if "owns ?w y a" "owns ?w z a" for y z a
    proof -
      have "\<not> owns w u (ow_next w)" for u using i(3,4) by blast
      with that i(2) show ?thesis unfolding owns by (auto split: if_splits)
    qed
    show "a \<in> ow_live ?w \<longleftrightarrow> (\<exists>x. owns ?w x a)" for a
    proof -
      have "(\<exists>z. owns ?w z a) \<longleftrightarrow> a = ow_next w \<or> (\<exists>z. z \<noteq> x \<and> owns w z a)"
        unfolding owns by metis
      with none i(3) [of a] show ?thesis unfolding live insert_iff by metis
    qed
    show "a < ow_next ?w" if "a \<in> ow_live ?w" for a using that i(4) unfolding live by (auto simp: less_Suc_eq)
  qed
  have null: "owns (own_step (Own_null x) w) z a \<longleftrightarrow> owns w z a" for z a
    using assms(2) by (simp add: owns_def)
  show "own_inv (own_step (Own_null x) w)"
    by (rule own_invI) (use i null in \<open>simp; blast\<close>)+
qed

lemma own_step_inv:
  assumes "own_inv w" and "own_ok op w"
  shows "own_inv (own_step op w)"
proof (cases op)
  case (Own_assign x y)
  show ?thesis
  proof (cases "x = y")
    case False
    from assms(2) Own_assign obtain h where h: "ow_objs w x = Some h" "ow_objs w y \<noteq> None" by auto
    let ?w = "(own_release h w)\<lparr>ow_objs := (ow_objs w)(x \<mapsto> None)\<rparr>"
    have "own_inv (?w\<lparr>ow_objs := (ow_objs ?w)(x := ow_objs ?w y, y \<mapsto> None)\<rparr>)"
      using own_inv_moves [OF own_inv_releases [OF assms(1) h(1)], of "Some None" x y] h(2) False by simp
    with Own_assign False h show ?thesis by simp
  qed (use assms(1) Own_assign in simp)
next
  case (Own_destroy x)
  with assms own_inv_releases [of w x _ None] show ?thesis by auto
next
  case (Own_move x y)
  with assms own_inv_moves [of w x y] show ?thesis by (cases "x = y") auto
qed (use assms own_inv_new in auto)

text \<open>Without objects there are no resources.\<close>

lemma own_inv_empty: "own_inv w \<Longrightarrow> ow_objs w = Map.empty \<Longrightarrow> ow_live w = {}"
  by (auto simp: own_inv_def owns_def)

subsection \<open>Classes that refine it\<close>

text \<open>Running a client's operations; \<open>None\<close> when one breaks the rules of the language.\<close>

fun run_ops :: "('op \<Rightarrow> 's \<Rightarrow> bool) \<Rightarrow> ('op \<Rightarrow> 's \<Rightarrow> 's) \<Rightarrow> 'op list \<Rightarrow> 's \<Rightarrow> 's option" where
  "run_ops ok step [] s = Some s"
| "run_ops ok step (op # ops) s = (if ok op s then run_ops ok step ops (step op s) else None)"

lemma run_ops_inv:
  assumes "\<And>op s. Q s \<Longrightarrow> ok op s \<Longrightarrow> Q (step op s)" and "run_ops ok step ops s = Some s'" and "Q s"
  shows "Q s'"
  using assms(2,3) by (induction ops arbitrary: s) (auto simp: assms(1) split: if_splits)

locale single_owner =
  fixes abs :: "'s \<Rightarrow> own"
    and ok :: "'op \<Rightarrow> 's \<Rightarrow> bool"
    and step :: "'op \<Rightarrow> 's \<Rightarrow> 's"
    and op_abs :: "'op \<Rightarrow> 's \<Rightarrow> own_op"
    and init :: 's
  assumes abs_init: "abs init = own_init"
    and op_ok: "ok op s \<Longrightarrow> own_ok (op_abs op s) (abs s)"
    and op_step: "own_inv (abs s) \<Longrightarrow> ok op s \<Longrightarrow> abs (step op s) = own_step (op_abs op s) (abs s)"
begin

lemma step_owned: "own_inv (abs s) \<Longrightarrow> ok op s \<Longrightarrow> own_inv (abs (step op s))"
  by (simp add: op_step op_ok own_step_inv)

lemma runs_owned: "run_ops ok step ops init = Some s \<Longrightarrow> own_inv (abs s)"
  by (rule run_ops_inv [where Q = "\<lambda>s. own_inv (abs s)"]) (auto simp: step_owned abs_init own_inv_init)

lemma runs_keep:
  assumes "run_ops ok step ops init = Some s" and "Q init"
    and "\<And>op s. own_inv (abs s) \<Longrightarrow> Q s \<Longrightarrow> ok op s \<Longrightarrow> Q (step op s)"
  shows "own_inv (abs s) \<and> Q s"
  by (rule run_ops_inv [where Q = "\<lambda>s. own_inv (abs s) \<and> Q s", OF _ assms(1)])
    (auto simp: assms(2,3) step_owned abs_init own_inv_init)

lemma runs_balanced:
  assumes "run_ops ok step ops init = Some s" and "ow_objs (abs s) = Map.empty"
  shows "ow_live (abs s) = {} \<and> \<not> ow_bad (abs s)"
  using runs_owned [OF assms(1)] assms(2) own_inv_empty own_invD(1) by blast

end

end
