(* ===== verification/Aligned_Buffer.thy ===== *)
theory Aligned_Buffer
  imports Ownership
begin

text \<open>
  \<open>AlignedBuffer\<close> of \<open>server/aligned_buffer.hpp\<close>, the payload of a request on its way
  from the connection's reader through the handler's parameters: its constructor, moves,
  assignment and destructor over the blocks that \<open>posix_memalign\<close> returned and
  \<open>free\<close> has not taken back. A block is known by its number and has a size; freeing one
  that does not exist is \<open>ab_bad\<close>.
\<close>

subsection \<open>Definitions\<close>

record abuf =
  ab_ptr :: "addr option"
  ab_size :: u64

record ab_store =
  ab_objs :: "obj \<rightharpoonup> abuf"
  ab_heap :: "addr \<rightharpoonup> u64"
  ab_next :: addr
  ab_bad :: bool

definition ab_init :: ab_store where
  "ab_init = \<lparr>ab_objs = Map.empty, ab_heap = Map.empty, ab_next = 0, ab_bad = False\<rparr>"

text \<open>\<open>free\<close> of a pointer, which may be null.\<close>

definition ab_free :: "addr option \<Rightarrow> ab_store \<Rightarrow> ab_store" where
  "ab_free p s =
     (case p of
        None \<Rightarrow> s
      | Some a \<Rightarrow> if ab_heap s a = None then s\<lparr>ab_bad := True\<rparr> else s\<lparr>ab_heap := (ab_heap s)(a := None)\<rparr>)"

text \<open>
  The constructor; \<open>memalign\<close> tells whether \<open>posix_memalign\<close> succeeds. When it throws
  there is no object.
\<close>

definition ab_construct :: "bool \<Rightarrow> obj \<Rightarrow> u64 \<Rightarrow> ab_store \<Rightarrow> (exn + unit) \<times> ab_store" where
  "ab_construct memalign x sz s =
     (if sz = 0 then (Inr (), s\<lparr>ab_objs := (ab_objs s)(x \<mapsto> \<lparr>ab_ptr = None, ab_size = sz\<rparr>)\<rparr>)
      else if \<not> memalign then (Inl Bad_alloc, s)
      else (Inr (), s\<lparr>ab_objs := (ab_objs s)(x \<mapsto> \<lparr>ab_ptr = Some (ab_next s), ab_size = sz\<rparr>),
                      ab_heap := (ab_heap s)(ab_next s \<mapsto> sz), ab_next := ab_next s + 1\<rparr>))"

definition ab_moved_from :: abuf where
  "ab_moved_from = \<lparr>ab_ptr = None, ab_size = 0\<rparr>"

text \<open>\<open>AlignedBuffer(AlignedBuffer&&)\<close>: the new object and the emptied source.\<close>

definition ab_move_construct :: "obj \<Rightarrow> obj \<Rightarrow> ab_store \<Rightarrow> ab_store" where
  "ab_move_construct x y s =
     (case ab_objs s y of
        None \<Rightarrow> s\<lparr>ab_bad := True\<rparr>
      | Some other \<Rightarrow> s\<lparr>ab_objs := (ab_objs s)(x \<mapsto> other, y \<mapsto> ab_moved_from)\<rparr>)"

text \<open>\<open>operator=(AlignedBuffer&&)\<close>.\<close>

definition ab_move_assign :: "obj \<Rightarrow> obj \<Rightarrow> ab_store \<Rightarrow> ab_store" where
  "ab_move_assign x y s =
     (case (ab_objs s x, ab_objs s y) of
        (Some this, Some other) \<Rightarrow>
          if x = y then s
          else (ab_free (ab_ptr this) s)\<lparr>ab_objs := (ab_objs s)(x \<mapsto> other, y \<mapsto> ab_moved_from)\<rparr>
      | _ \<Rightarrow> s\<lparr>ab_bad := True\<rparr>)"

definition ab_destruct :: "obj \<Rightarrow> ab_store \<Rightarrow> ab_store" where
  "ab_destruct x s =
     (case ab_objs s x of
        None \<Rightarrow> s\<lparr>ab_bad := True\<rparr>
      | Some this \<Rightarrow> (ab_free (ab_ptr this) s)\<lparr>ab_objs := (ab_objs s)(x := None)\<rparr>)"

text \<open>What the program does with its buffers, and the rules of the language for it.\<close>

datatype ab_op =
    Ab_construct bool obj u64
  | Ab_move_construct obj obj
  | Ab_move_assign obj obj
  | Ab_destruct obj

fun ab_step :: "ab_op \<Rightarrow> ab_store \<Rightarrow> ab_store" where
  "ab_step (Ab_construct memalign x sz) s = snd (ab_construct memalign x sz s)"
| "ab_step (Ab_move_construct x y) s = ab_move_construct x y s"
| "ab_step (Ab_move_assign x y) s = ab_move_assign x y s"
| "ab_step (Ab_destruct x) s = ab_destruct x s"

fun ab_ok :: "ab_op \<Rightarrow> ab_store \<Rightarrow> bool" where
  "ab_ok (Ab_construct memalign x sz) s \<longleftrightarrow> ab_objs s x = None"
| "ab_ok (Ab_move_construct x y) s \<longleftrightarrow> ab_objs s x = None \<and> ab_objs s y \<noteq> None"
| "ab_ok (Ab_move_assign x y) s \<longleftrightarrow> ab_objs s x \<noteq> None \<and> ab_objs s y \<noteq> None"
| "ab_ok (Ab_destruct x) s \<longleftrightarrow> ab_objs s x \<noteq> None"

subsection \<open>Refinement\<close>

definition ab_abs :: "ab_store \<Rightarrow> own" where
  "ab_abs s = \<lparr>ow_objs = (\<lambda>x. map_option ab_ptr (ab_objs s x)), ow_live = dom (ab_heap s),
     ow_next = ab_next s, ow_bad = ab_bad s\<rparr>"

fun ab_op_abs :: "ab_op \<Rightarrow> ab_store \<Rightarrow> own_op" where
  "ab_op_abs (Ab_construct memalign x sz) s =
     (if sz = 0 then Own_null x else if memalign then Own_new x else Own_skip)"
| "ab_op_abs (Ab_move_construct x y) s = Own_move x y"
| "ab_op_abs (Ab_move_assign x y) s = Own_assign x y"
| "ab_op_abs (Ab_destruct x) s = Own_destroy x"

lemmas ab_defs = ab_construct_def ab_move_construct_def ab_move_assign_def ab_destruct_def
  ab_free_def ab_moved_from_def

interpretation ab: single_owner ab_abs ab_ok ab_step ab_op_abs ab_init
proof unfold_locales
  show "ab_abs ab_init = own_init" by (simp add: ab_abs_def ab_init_def own_init_def)
  fix op s assume ok: "ab_ok op s"
  show "own_ok (ab_op_abs op s) (ab_abs s)" using ok by (cases op) (auto simp: ab_abs_def)
  show "ab_abs (ab_step op s) = own_step (ab_op_abs op s) (ab_abs s)"
    using ok by (cases op)
      (auto simp: ab_abs_def ab_defs own_release_def fun_eq_iff split: option.split)
qed

text \<open>An object's size is the size of its block; an empty one has none.\<close>

definition ab_has_block :: "(addr \<rightharpoonup> u64) \<Rightarrow> abuf \<Rightarrow> bool" where
  "ab_has_block h b \<longleftrightarrow>
     (case ab_ptr b of None \<Rightarrow> ab_size b = 0 | Some a \<Rightarrow> h a = Some (ab_size b) \<and> ab_size b \<noteq> 0)"

definition ab_sized :: "ab_store \<Rightarrow> bool" where
  "ab_sized s \<longleftrightarrow> (\<forall>x b. ab_objs s x = Some b \<longrightarrow> ab_has_block (ab_heap s) b)"

lemma ab_sizedD: "ab_sized s \<Longrightarrow> ab_objs s x = Some b \<Longrightarrow> ab_has_block (ab_heap s) b"
  by (simp add: ab_sized_def)

lemma ab_has_block_moved_from [simp]: "ab_has_block h ab_moved_from"
  by (simp add: ab_has_block_def ab_moved_from_def)

lemma ab_has_block_upd: "ab_has_block h b \<Longrightarrow> ab_ptr b \<noteq> Some a \<Longrightarrow> ab_has_block (h(a := v)) b"
  by (simp add: ab_has_block_def split: option.splits)

text \<open>Freeing the block of one object takes nothing from the others.\<close>

lemma ab_free_others:
  assumes "own_inv (ab_abs s)" and "ab_sized s" and "ab_objs s x = Some this"
    and "ab_objs s y = Some b" and "x \<noteq> y"
  shows "ab_has_block (ab_heap (ab_free (ab_ptr this) s)) b"
proof (cases "ab_ptr this")
  case (Some a)
  have "ab_ptr b \<noteq> Some a"
    using own_invD(2) [OF assms(1), of x a y] assms(3-5) Some by (auto simp: owns_def ab_abs_def)
  with ab_has_block_upd ab_sizedD [OF assms(2,4)] Some show ?thesis by (simp add: ab_free_def)
qed (use ab_sizedD [OF assms(2,4)] in \<open>simp add: ab_free_def\<close>)

text \<open>A new block is not one that an object has.\<close>

lemma ab_next_fresh:
  assumes "own_inv (ab_abs s)" and "ab_objs s x = Some b"
  shows "ab_ptr b \<noteq> Some (ab_next s)"
proof
  assume "ab_ptr b = Some (ab_next s)"
  with assms(2) have "owns (ab_abs s) x (ab_next s)" by (simp add: owns_def ab_abs_def)
  with own_invD(3,4) [OF assms(1), of "ab_next s"] show False by (auto simp: ab_abs_def)
qed

lemma ab_step_sized:
  assumes "own_inv (ab_abs s)" and "ab_sized s" and "ab_ok op s"
  shows "ab_sized (ab_step op s)"
  unfolding ab_sized_def
proof (intro allI impI)
  fix z b assume z: "ab_objs (ab_step op s) z = Some b"
  show "ab_has_block (ab_heap (ab_step op s)) b"
  proof (cases op)
    case (Ab_construct memalign x sz)
    with z ab_has_block_upd [OF ab_sizedD [OF assms(2)] ab_next_fresh [OF assms(1)]] ab_sizedD [OF assms(2)]
    show ?thesis by (auto simp: ab_construct_def ab_has_block_def [of _ "\<lparr>ab_ptr = _, ab_size = _\<rparr>"] split: if_splits)
  next
    case (Ab_move_construct x y)
    with z assms(3) ab_sizedD [OF assms(2)] show ?thesis
      by (auto simp: ab_move_construct_def split: if_splits)
  next
    case (Ab_move_assign x y)
    with assms(3) obtain this other where o: "ab_objs s x = Some this" "ab_objs s y = Some other" by auto
    show ?thesis
    proof (cases "x = y")
      case True
      with Ab_move_assign o z ab_sizedD [OF assms(2)] show ?thesis by (simp add: ab_move_assign_def)
    next
      case False
      with Ab_move_assign o z ab_free_others [OF assms(1,2) o(1)] show ?thesis
        by (auto simp: ab_move_assign_def split: if_splits)
    qed
  next
    case (Ab_destruct x)
    with assms(3) obtain this where o: "ab_objs s x = Some this" by auto
    with Ab_destruct z ab_free_others [OF assms(1,2) o] show ?thesis
      by (auto simp: ab_destruct_def split: if_splits)
  qed
qed

lemma ab_runs:
  assumes "run_ops ab_ok ab_step ops ab_init = Some s"
  shows "own_inv (ab_abs s)" and "ab_sized s"
  using ab.runs_keep [OF assms, of ab_sized] ab_step_sized by (auto simp: ab_sized_def ab_init_def)

subsection \<open>Properties\<close>

text \<open>
  C37. Whatever sequence of constructions (also failing ones), moves, assignments (also of a
  buffer to itself) and destructions a program performs on its buffers: no block is freed
  twice, every block in use belongs to exactly one buffer and has the size that the buffer
  reports, a buffer of size 0 has no block, and when all buffers are gone so are all blocks.
\<close>

theorem aligned_buffers_freed_once:
  assumes "run_ops ab_ok ab_step ops ab_init = Some s"
  shows "\<not> ab_bad s
    \<and> (\<forall>a. ab_heap s a \<noteq> None \<longleftrightarrow> (\<exists>!x. \<exists>b. ab_objs s x = Some b \<and> ab_ptr b = Some a))
    \<and> (\<forall>x b. ab_objs s x = Some b \<longrightarrow>
        (case ab_ptr b of None \<Rightarrow> ab_size b = 0 | Some a \<Rightarrow> ab_heap s a = Some (ab_size b) \<and> ab_size b \<noteq> 0))
    \<and> (ab_objs s = Map.empty \<longrightarrow> ab_heap s = Map.empty)"
proof -
  note i = own_invD [OF ab_runs(1) [OF assms]]
  have owns: "owns (ab_abs s) x a \<longleftrightarrow> (\<exists>b. ab_objs s x = Some b \<and> ab_ptr b = Some a)" for x a
    by (auto simp: owns_def ab_abs_def)
  have "ab_heap s a \<noteq> None \<longleftrightarrow> (\<exists>x. owns (ab_abs s) x a)" for a
    using i(3) [of a] by (auto simp: ab_abs_def dom_def)
  with i(2) have "ab_heap s a \<noteq> None \<longleftrightarrow> (\<exists>!x. owns (ab_abs s) x a)" for a by blast
  moreover have "\<not> ab_bad s" using i(1) by (simp add: ab_abs_def)
  moreover have "ab_heap s = Map.empty" if "ab_objs s = Map.empty"
    using ab.runs_balanced [OF assms] that by (simp add: ab_abs_def)
  ultimately show ?thesis
    using ab_runs(2) [OF assms] unfolding owns ab_sized_def ab_has_block_def by blast
qed

text \<open>
  A buffer on its way from the reader through a parameter to a handler, with a failed
  allocation and an assignment to itself on the way.
\<close>

theorem aligned_buffers_freed_once_witness:
  "\<exists>s. run_ops ab_ok ab_step [Ab_construct True 0 4096, Ab_move_construct 1 0, Ab_destruct 0,
       Ab_construct False 2 512, Ab_move_assign 1 1, Ab_destruct 1] ab_init = Some s
     \<and> \<not> ab_bad s \<and> ab_heap s = Map.empty"
proof -
  obtain s where s: "run_ops ab_ok ab_step [Ab_construct True 0 4096, Ab_move_construct 1 0, Ab_destruct 0,
       Ab_construct False 2 512, Ab_move_assign 1 1, Ab_destruct 1] ab_init = Some s"
    and "ab_objs s = Map.empty"
    by (simp add: ab_defs ab_init_def fun_eq_iff)
  with aligned_buffers_freed_once [OF s] show ?thesis by blast
qed

end
