(* ===== verification/Task_Handle.thy ===== *)
theory Task_Handle
  imports Ownership
begin

text \<open>
  \<open>Task\<close> of \<open>easyio/include/easyio/task.hpp\<close> as an object: default construction,
  construction from a coroutine, moves, assignment, destruction, and \<open>start\<close>,
  \<open>valid\<close> and \<open>await_ready\<close>, which look through the handle. What awaiting does is the
  subject of \<open>Task\<close>; here a frame is only done or not. Access to a frame that does not
  exist is \<open>th_bad\<close>.
\<close>

subsection \<open>Definitions\<close>

record task_store =
  th_objs :: "obj \<rightharpoonup> addr option"
  th_frames :: "addr \<rightharpoonup> bool"
  th_next :: addr
  th_bad :: bool

definition th_init :: task_store where
  "th_init = \<lparr>th_objs = Map.empty, th_frames = Map.empty, th_next = 0, th_bad = False\<rparr>"

text \<open>\<open>destroy\<close>, as far as the frame is concerned.\<close>

definition th_destroy :: "addr option \<Rightarrow> task_store \<Rightarrow> task_store" where
  "th_destroy h s =
     (case h of
        None \<Rightarrow> s
      | Some a \<Rightarrow>
          if th_frames s a = None then s\<lparr>th_bad := True\<rparr> else s\<lparr>th_frames := (th_frames s)(a := None)\<rparr>)"

text \<open>\<open>Task()\<close>, and calling a coroutine (\<open>get_return_object\<close>).\<close>

definition th_default :: "obj \<Rightarrow> task_store \<Rightarrow> task_store" where
  "th_default x s = s\<lparr>th_objs := (th_objs s)(x \<mapsto> None)\<rparr>"

definition th_coroutine :: "obj \<Rightarrow> task_store \<Rightarrow> task_store" where
  "th_coroutine x s =
     s\<lparr>th_objs := (th_objs s)(x \<mapsto> Some (th_next s)), th_frames := (th_frames s)(th_next s \<mapsto> False),
       th_next := th_next s + 1\<rparr>"

definition th_move_construct :: "obj \<Rightarrow> obj \<Rightarrow> task_store \<Rightarrow> task_store" where
  "th_move_construct x y s =
     (case th_objs s y of
        None \<Rightarrow> s\<lparr>th_bad := True\<rparr>
      | Some other \<Rightarrow> s\<lparr>th_objs := (th_objs s)(x \<mapsto> other, y \<mapsto> None)\<rparr>)"

definition th_move_assign :: "obj \<Rightarrow> obj \<Rightarrow> task_store \<Rightarrow> task_store" where
  "th_move_assign x y s =
     (case (th_objs s x, th_objs s y) of
        (Some this, Some other) \<Rightarrow>
          if x = y then s
          else (th_destroy this s)\<lparr>th_objs := (th_objs s)(x \<mapsto> other, y \<mapsto> None)\<rparr>
      | _ \<Rightarrow> s\<lparr>th_bad := True\<rparr>)"

definition th_destruct :: "obj \<Rightarrow> task_store \<Rightarrow> task_store" where
  "th_destruct x s =
     (case th_objs s x of
        None \<Rightarrow> s\<lparr>th_bad := True\<rparr>
      | Some this \<Rightarrow> (th_destroy this s)\<lparr>th_objs := (th_objs s)(x := None)\<rparr>)"

text \<open>\<open>valid\<close> and \<open>await_ready\<close>; the latter has no answer if it looks at a dead frame.\<close>

definition th_valid :: "obj \<Rightarrow> task_store \<Rightarrow> bool" where
  "th_valid x s \<longleftrightarrow> (case th_objs s x of Some (Some _) \<Rightarrow> True | _ \<Rightarrow> False)"

definition th_await_ready :: "obj \<Rightarrow> task_store \<Rightarrow> bool option" where
  "th_await_ready x s =
     (case th_objs s x of
        None \<Rightarrow> None
      | Some None \<Rightarrow> Some True
      | Some (Some a) \<Rightarrow> th_frames s a)"

text \<open>
  Resuming a frame, which is an error once it is done; \<open>fin\<close> tells whether the body gets
  to its end.
\<close>

definition th_resume :: "bool \<Rightarrow> addr \<Rightarrow> task_store \<Rightarrow> task_store" where
  "th_resume fin a s =
     (if th_frames s a = Some False then s\<lparr>th_frames := (th_frames s)(a \<mapsto> fin)\<rparr> else s\<lparr>th_bad := True\<rparr>)"

definition th_start :: "bool \<Rightarrow> obj \<Rightarrow> task_store \<Rightarrow> task_store" where
  "th_start fin x s =
     (case th_objs s x of
        None \<Rightarrow> s\<lparr>th_bad := True\<rparr>
      | Some None \<Rightarrow> s
      | Some (Some a) \<Rightarrow>
          (case th_frames s a of
             None \<Rightarrow> s\<lparr>th_bad := True\<rparr>
           | Some fin' \<Rightarrow> if fin' then s else th_resume fin a s))"

text \<open>
  What is done with tasks. \<open>Th_resume\<close> is a resumption from the queue, which holds handles
  of suspended coroutines only.
\<close>

datatype th_op =
    Th_default obj
  | Th_coroutine obj
  | Th_move_construct obj obj
  | Th_move_assign obj obj
  | Th_destruct obj
  | Th_start bool obj
  | Th_resume bool addr

fun th_step :: "th_op \<Rightarrow> task_store \<Rightarrow> task_store" where
  "th_step (Th_default x) s = th_default x s"
| "th_step (Th_coroutine x) s = th_coroutine x s"
| "th_step (Th_move_construct x y) s = th_move_construct x y s"
| "th_step (Th_move_assign x y) s = th_move_assign x y s"
| "th_step (Th_destruct x) s = th_destruct x s"
| "th_step (Th_start fin x) s = th_start fin x s"
| "th_step (Th_resume fin a) s = th_resume fin a s"

text \<open>The rules of the language; \<open>start\<close> is called on an object whose frame, if any, exists.\<close>

fun th_ok :: "th_op \<Rightarrow> task_store \<Rightarrow> bool" where
  "th_ok (Th_default x) s \<longleftrightarrow> th_objs s x = None"
| "th_ok (Th_coroutine x) s \<longleftrightarrow> th_objs s x = None"
| "th_ok (Th_move_construct x y) s \<longleftrightarrow> th_objs s x = None \<and> th_objs s y \<noteq> None"
| "th_ok (Th_move_assign x y) s \<longleftrightarrow> th_objs s x \<noteq> None \<and> th_objs s y \<noteq> None"
| "th_ok (Th_destruct x) s \<longleftrightarrow> th_objs s x \<noteq> None"
| "th_ok (Th_start fin x) s \<longleftrightarrow> th_objs s x \<noteq> None"
| "th_ok (Th_resume fin a) s \<longleftrightarrow> th_frames s a = Some False"

subsection \<open>Refinement\<close>

definition th_abs :: "task_store \<Rightarrow> own" where
  "th_abs s = \<lparr>ow_objs = th_objs s, ow_live = dom (th_frames s), ow_next = th_next s, ow_bad = th_bad s\<rparr>"

fun th_op_abs :: "th_op \<Rightarrow> task_store \<Rightarrow> own_op" where
  "th_op_abs (Th_default x) s = Own_null x"
| "th_op_abs (Th_coroutine x) s = Own_new x"
| "th_op_abs (Th_move_construct x y) s = Own_move x y"
| "th_op_abs (Th_move_assign x y) s = Own_assign x y"
| "th_op_abs (Th_destruct x) s = Own_destroy x"
| "th_op_abs (Th_start fin x) s = Own_skip"
| "th_op_abs (Th_resume fin a) s = Own_skip"

lemmas th_defs = th_default_def th_coroutine_def th_move_construct_def th_move_assign_def
  th_destruct_def th_destroy_def th_resume_def

text \<open>A valid task's frame exists.\<close>

lemma th_owned_frame:
  assumes "own_inv (th_abs s)" and "th_objs s x = Some (Some a)"
  shows "\<exists>fin. th_frames s a = Some fin"
proof -
  have "owns (th_abs s) x a" using assms(2) by (simp add: owns_def th_abs_def)
  with own_invD(3) [OF assms(1), of a] show ?thesis by (auto simp: th_abs_def)
qed

lemma th_start_abs:
  assumes "own_inv (th_abs s)" and "th_objs s x \<noteq> None"
  shows "th_abs (th_start fin x s) = th_abs s"
  using assms th_owned_frame [OF assms(1), of x]
  by (fastforce simp: th_abs_def th_start_def th_resume_def split: option.split)

interpretation th: single_owner th_abs th_ok th_step th_op_abs th_init
proof unfold_locales
  show "th_abs th_init = own_init" by (simp add: th_abs_def th_init_def own_init_def)
  fix op s assume ok: "th_ok op s"
  show "own_ok (th_op_abs op s) (th_abs s)" using ok by (cases op) (auto simp: th_abs_def)
  assume "own_inv (th_abs s)"
  from th_start_abs [OF this] show "th_abs (th_step op s) = own_step (th_op_abs op s) (th_abs s)"
    using ok by (cases op)
      (auto simp: th_abs_def th_defs own_release_def split: option.split)
qed

subsection \<open>Single ownership\<close>

text \<open>
  Whatever is done with \<open>Task\<close> objects (moving them along, assigning them, also to
  themselves, starting and resuming their coroutines): no frame is destroyed twice or resumed
  after its end, every frame belongs to exactly one task, \<open>valid\<close> tells which tasks have
  one, \<open>await_ready\<close> never looks at a destroyed frame, and when all tasks are gone so are
  their frames.
\<close>

lemma task_frames_single_owner:
  assumes "run_ops th_ok th_step ops th_init = Some s"
  shows "\<not> th_bad s"
    and "th_frames s a \<noteq> None \<longleftrightarrow> (\<exists>!x. th_objs s x = Some (Some a))"
    and "th_objs s x \<noteq> None \<Longrightarrow> \<exists>b. th_await_ready x s = Some b \<and> (th_valid x s \<or> b)"
    and "th_objs s = Map.empty \<Longrightarrow> th_frames s = Map.empty"
proof -
  note inv = th.runs_owned [OF assms]
  note i = own_invD [OF inv]
  have owns: "owns (th_abs s) x a \<longleftrightarrow> th_objs s x = Some (Some a)" for x a
    by (simp add: owns_def th_abs_def)
  show "\<not> th_bad s" using i(1) by (simp add: th_abs_def)
  have "th_frames s a \<noteq> None \<longleftrightarrow> (\<exists>x. owns (th_abs s) x a)"
    using i(3) [of a] by (auto simp: th_abs_def dom_def)
  with i(2) have "th_frames s a \<noteq> None \<longleftrightarrow> (\<exists>!x. owns (th_abs s) x a)" by blast
  then show "th_frames s a \<noteq> None \<longleftrightarrow> (\<exists>!x. th_objs s x = Some (Some a))" unfolding owns .
  show "\<exists>b. th_await_ready x s = Some b \<and> (th_valid x s \<or> b)" if "th_objs s x \<noteq> None"
    using that th_owned_frame [OF inv, of x]
    by (auto simp: th_await_ready_def th_valid_def split: option.splits)
  show "th_frames s = Map.empty" if "th_objs s = Map.empty"
    using th.runs_balanced [OF assms] that by (simp add: th_abs_def)
qed

end
