(* ===== verification/Task.thy ===== *)
theory Task
  imports Prelude
begin

text \<open>
  The coroutine tasks of \<open>easyio/include/easyio/task.hpp\<close>: frames with their promise
  (\<open>continuation\<close>, result or exception), lazily started \<open>Task\<close>s whose
  \<open>co_await\<close> transfers control to the child and back at its final suspension, and
  \<open>spawn\<close>, which wraps a task in a self-destroying \<open>DetachedTask\<close>. The machine
  below keeps the frames in a heap and reports every use of a frame that does not exist
  (\<open>m_bad\<close>). The specification is direct style: a \<open>co_await\<close> is a call that pushes
  the rest of the caller on a stack and pops it with the callee's value or exception.
\<close>

subsection \<open>Coroutine bodies\<close>

text \<open>
  What a body does up to its next suspension, as a possibly infinite resumption: it returns,
  throws, awaits an operation of the queue, awaits a task it has just created, or spawns one.
  The rest of the body gets the value or the exception.
\<close>

codatatype ('o, 'v) co =
    Return 'v
  | Throw exn
  | Io 'o "exn + 'v \<Rightarrow> ('o, 'v) co"
  | Await "('o, 'v) co" "exn + 'v \<Rightarrow> ('o, 'v) co"
  | Spawn "('o, 'v) co" "('o, 'v) co"

type_synonym ('o, 'v) kont = "exn + 'v \<Rightarrow> ('o, 'v) co"

subsection \<open>Frames\<close>

type_synonym addr = nat

text \<open>
  Where a frame is suspended: at its start, in an operation of the queue, in the
  \<open>co_await\<close> of the task \<open>c\<close>, in \<open>spawn\<close>'s \<open>co_await\<close> of its parameter,
  at the end; or it runs.
\<close>

datatype ('o, 'v) point =
    Fresh "('o, 'v) co"
  | In_io "('o, 'v) kont"
  | Awaiting addr "('o, 'v) kont"
  | Awaiting_param addr
  | Final
  | Running

record ('o, 'v) frame =
  fr_point :: "('o, 'v) point"
  fr_cont :: "addr option"
  fr_result :: "(exn + 'v) option"

text \<open>
  \<open>m_active\<close> is the C++ call stack: the coroutine that runs, and under it those that
  are in the middle of a call to \<open>spawn\<close> or \<open>resume\<close>, with what they do next.
  \<open>m_io\<close> holds the handles registered with the queue.
\<close>

record ('o, 'v) machine =
  m_heap :: "addr \<rightharpoonup> ('o, 'v) frame"
  m_next :: addr
  m_active :: "(addr \<times> ('o, 'v) co) list"
  m_io :: "(addr \<times> 'o) list"
  m_bad :: bool
  m_terminated :: bool

definition m_init :: "('o, 'v) machine" where
  "m_init = \<lparr>m_heap = Map.empty, m_next = 0, m_active = [], m_io = [], m_bad = False, m_terminated = False\<rparr>"

text \<open>Access to a frame through a handle.\<close>

definition upd_frame ::
  "addr \<Rightarrow> (('o, 'v) frame \<Rightarrow> ('o, 'v) frame) \<Rightarrow> ('o, 'v) machine \<Rightarrow> ('o, 'v) machine" where
  "upd_frame a f m =
     (case m_heap m a of
        None \<Rightarrow> m\<lparr>m_bad := True\<rparr>
      | Some fr \<Rightarrow> m\<lparr>m_heap := (m_heap m)(a \<mapsto> f fr)\<rparr>)"

definition set_point :: "addr \<Rightarrow> ('o, 'v) point \<Rightarrow> ('o, 'v) machine \<Rightarrow> ('o, 'v) machine" where
  "set_point a p = upd_frame a (\<lambda>f. f\<lparr>fr_point := p\<rparr>)"

text \<open>\<open>_handle.destroy()\<close>.\<close>

definition frame_destroy :: "addr \<Rightarrow> ('o, 'v) machine \<Rightarrow> ('o, 'v) machine" where
  "frame_destroy a m =
     (if m_heap m a = None then m\<lparr>m_bad := True\<rparr> else m\<lparr>m_heap := (m_heap m)(a := None)\<rparr>)"

subsection \<open>Tasks\<close>

text \<open>Calling a coroutine function: a frame at its start, and the \<open>Task\<close> that owns it.\<close>

definition task_create :: "('o, 'v) co \<Rightarrow> ('o, 'v) machine \<Rightarrow> addr \<times> ('o, 'v) machine" where
  "task_create b m =
     (m_next m, m\<lparr>m_heap := (m_heap m)(m_next m \<mapsto> \<lparr>fr_point = Fresh b, fr_cont = None, fr_result = None\<rparr>),
                  m_next := m_next m + 1\<rparr>)"

text \<open>Resuming a frame that is at its start.\<close>

definition start_frame :: "addr \<Rightarrow> ('o, 'v) machine \<Rightarrow> ('o, 'v) machine" where
  "start_frame c m =
     (case map_option fr_point (m_heap m c) of
        Some (Fresh b) \<Rightarrow> set_point c Running (m\<lparr>m_active := (c, b) # m_active m\<rparr>)
      | _ \<Rightarrow> m\<lparr>m_bad := True\<rparr>)"

text \<open>
  \<open>Task::await_suspend\<close>: the task is not done when it is first awaited; its continuation
  is the awaiting coroutine, and control goes to the task.
\<close>

definition task_await_suspend :: "addr \<Rightarrow> addr \<Rightarrow> ('o, 'v) machine \<Rightarrow> ('o, 'v) machine" where
  "task_await_suspend c awaiting m =
     start_frame c (upd_frame c (\<lambda>f. f\<lparr>fr_cont := Some awaiting\<rparr>) m)"

text \<open>\<open>take_result\<close>: the value, or the exception to rethrow; neither is an error.\<close>

definition take_result :: "addr \<Rightarrow> ('o, 'v) machine \<Rightarrow> (exn + 'v) option" where
  "take_result c m = (case m_heap m c of None \<Rightarrow> None | Some f \<Rightarrow> fr_result f)"

text \<open>
  Resuming whoever awaits the finished task \<open>c\<close>: \<open>await_resume\<close> takes the result;
  the temporary \<open>Task\<close> of a \<open>co_await\<close> is destroyed with its full expression, the
  parameter of \<open>spawn\<close> with \<open>spawn\<close>'s own frame, which goes away by itself
  (\<open>suspend_never\<close>) unless the task threw.
\<close>

definition resume_awaiter :: "addr \<Rightarrow> addr \<Rightarrow> ('o, 'v) machine \<Rightarrow> ('o, 'v) machine" where
  "resume_awaiter p c m =
     (case (m_heap m p, take_result c m) of
        (Some f, Some r) \<Rightarrow>
          (case fr_point f of
             Awaiting c' k \<Rightarrow>
               if c' = c
               then set_point p Running (frame_destroy c (m\<lparr>m_active := (p, k r) # m_active m\<rparr>))
               else m\<lparr>m_bad := True\<rparr>
           | Awaiting_param c' \<Rightarrow>
               if c' = c
               then (case r of
                       Inl e \<Rightarrow> m\<lparr>m_terminated := True\<rparr>
                     | Inr v \<Rightarrow> frame_destroy p (frame_destroy c m))
               else m\<lparr>m_bad := True\<rparr>
           | _ \<Rightarrow> m\<lparr>m_bad := True\<rparr>)
      | _ \<Rightarrow> m\<lparr>m_bad := True\<rparr>)"

text \<open>
  The end of a task's body: \<open>return_value\<close> or \<open>unhandled_exception\<close>, then
  \<open>FinalAwaiter::await_suspend\<close>, which hands over to the continuation, if any.
\<close>

definition task_finish :: "addr \<Rightarrow> exn + 'v \<Rightarrow> ('o, 'v) machine \<Rightarrow> ('o, 'v) machine" where
  "task_finish c r m =
     (let m1 = upd_frame c (\<lambda>f. f\<lparr>fr_result := Some r, fr_point := Final\<rparr>) m
      in case m_heap m1 c of
           None \<Rightarrow> m1
         | Some f \<Rightarrow> (case fr_cont f of None \<Rightarrow> m1 | Some p \<Rightarrow> resume_awaiter p c m1))"

text \<open>
  \<open>spawn\<close>: the task moves into a detached frame that starts at once
  (\<open>suspend_never\<close>) and awaits it.
\<close>

definition spawn :: "('o, 'v) co \<Rightarrow> ('o, 'v) machine \<Rightarrow> ('o, 'v) machine" where
  "spawn b m =
     (case task_create b m of (t, m1) \<Rightarrow>
        (let d = m_next m1;
             m2 = m1\<lparr>m_heap := (m_heap m1)(d \<mapsto> \<lparr>fr_point = Awaiting_param t, fr_cont = None, fr_result = None\<rparr>),
                     m_next := d + 1\<rparr>
         in task_await_suspend t d m2))"

subsection \<open>Running\<close>

text \<open>One step of the running coroutine.\<close>

definition m_exec :: "('o, 'v) machine \<Rightarrow> ('o, 'v) machine" where
  "m_exec m =
     (case m_active m of
        [] \<Rightarrow> m
      | (a, b) # rest \<Rightarrow>
          (let m0 = m\<lparr>m_active := rest\<rparr> in
           case b of
             Return v \<Rightarrow> task_finish a (Inr v) m0
           | Throw e \<Rightarrow> task_finish a (Inl e) m0
           | Io x k \<Rightarrow> set_point a (In_io k) (m0\<lparr>m_io := m_io m @ [(a, x)]\<rparr>)
           | Await ch k \<Rightarrow>
               (case task_create ch m0 of (c, m1) \<Rightarrow> task_await_suspend c a (set_point a (Awaiting c k) m1))
           | Spawn ch b' \<Rightarrow> spawn ch (m0\<lparr>m_active := (a, b') # rest\<rparr>)))"

text \<open>An operation of the queue completes and its handle is resumed, at any moment.\<close>

definition m_complete :: "nat \<Rightarrow> exn + 'v \<Rightarrow> ('o, 'v) machine \<Rightarrow> ('o, 'v) machine" where
  "m_complete i r m =
     (if i < length (m_io m)
      then (let a = fst (m_io m ! i); m0 = m\<lparr>m_io := take i (m_io m) @ drop (Suc i) (m_io m)\<rparr> in
            case m_heap m0 a of
              Some f \<Rightarrow>
                (case fr_point f of
                   In_io k \<Rightarrow> set_point a Running (m0\<lparr>m_active := (a, k r) # m_active m\<rparr>)
                 | _ \<Rightarrow> m0\<lparr>m_bad := True\<rparr>)
            | None \<Rightarrow> m0\<lparr>m_bad := True\<rparr>)
      else m)"

text \<open>What drives the machine; after \<open>std::terminate\<close> nothing happens.\<close>

datatype ('o, 'v) event = Exec | Complete nat "exn + 'v" | Spawn_task "('o, 'v) co"

definition m_step :: "('o, 'v) event \<Rightarrow> ('o, 'v) machine \<Rightarrow> ('o, 'v) machine" where
  "m_step ev m =
     (if m_terminated m then m
      else (case ev of Exec \<Rightarrow> m_exec m | Complete i r \<Rightarrow> m_complete i r m | Spawn_task b \<Rightarrow> spawn b m))"

subsection \<open>Direct style\<close>

record ('o, 'v) calls =
  d_active :: "(('o, 'v) co \<times> ('o, 'v) kont list) list"
  d_io :: "('o \<times> ('o, 'v) kont \<times> ('o, 'v) kont list) list"
  d_terminated :: bool

definition d_init :: "('o, 'v) calls" where
  "d_init = \<lparr>d_active = [], d_io = [], d_terminated = False\<rparr>"

definition d_exec :: "('o, 'v) calls \<Rightarrow> ('o, 'v) calls" where
  "d_exec s =
     (case d_active s of
        [] \<Rightarrow> s
      | (b, ks) # rest \<Rightarrow>
          (case b of
             Return v \<Rightarrow> (case ks of [] \<Rightarrow> s\<lparr>d_active := rest\<rparr> | k # ks' \<Rightarrow> s\<lparr>d_active := (k (Inr v), ks') # rest\<rparr>)
           | Throw e \<Rightarrow>
               (case ks of [] \<Rightarrow> s\<lparr>d_active := rest, d_terminated := True\<rparr>
                | k # ks' \<Rightarrow> s\<lparr>d_active := (k (Inl e), ks') # rest\<rparr>)
           | Io x k \<Rightarrow> s\<lparr>d_active := rest, d_io := d_io s @ [(x, k, ks)]\<rparr>
           | Await ch k \<Rightarrow> s\<lparr>d_active := (ch, k # ks) # rest\<rparr>
           | Spawn ch b' \<Rightarrow> s\<lparr>d_active := (ch, []) # (b', ks) # rest\<rparr>))"

definition d_complete :: "nat \<Rightarrow> exn + 'v \<Rightarrow> ('o, 'v) calls \<Rightarrow> ('o, 'v) calls" where
  "d_complete i r s =
     (if i < length (d_io s)
      then (case d_io s ! i of (x, k, ks) \<Rightarrow>
              s\<lparr>d_io := take i (d_io s) @ drop (Suc i) (d_io s), d_active := (k r, ks) # d_active s\<rparr>)
      else s)"

definition d_step :: "('o, 'v) event \<Rightarrow> ('o, 'v) calls \<Rightarrow> ('o, 'v) calls" where
  "d_step ev s =
     (if d_terminated s then s
      else (case ev of
              Exec \<Rightarrow> d_exec s
            | Complete i r \<Rightarrow> d_complete i r s
            | Spawn_task b \<Rightarrow> s\<lparr>d_active := (b, []) # d_active s\<rparr>))"

subsection \<open>Threads of frames\<close>

text \<open>
  A thread of control is a chain of frames: the innermost one \<open>a\<close>, the frames that
  await it, inside out, each with the rest of its body, and the detached frame \<open>d\<close>.
\<close>

type_synonym ('o, 'v) thread = "addr \<times> (addr \<times> ('o, 'v) kont) list \<times> addr"

fun linked :: "(addr \<rightharpoonup> ('o, 'v) frame) \<Rightarrow> addr \<Rightarrow> (addr \<times> ('o, 'v) kont) list \<Rightarrow> addr \<Rightarrow> bool" where
  "linked H a [] d \<longleftrightarrow> map_option fr_cont (H a) = Some (Some d) \<and> map_option fr_point (H d) = Some (Awaiting_param a)"
| "linked H a ((p, k) # ps) d \<longleftrightarrow> map_option fr_cont (H a) = Some (Some p)
     \<and> map_option fr_point (H p) = Some (Awaiting a k) \<and> linked H p ps d"

fun frames :: "('o, 'v) thread \<Rightarrow> addr list" where
  "frames (a, ps, d) = a # map fst ps @ [d]"

lemma length_frames [simp]: "length (frames t) = 2 + length (fst (snd t))"
  by (cases t rule: frames.cases) simp

fun thread_ok :: "(addr \<rightharpoonup> ('o, 'v) frame) \<Rightarrow> ('o, 'v) point \<times> ('o, 'v) thread \<Rightarrow> bool" where
  "thread_ok H (pt, a, ps, d) \<longleftrightarrow> linked H a ps d \<and> map_option fr_point (H a) = Some pt"

abbreviation all_frames :: "(('o, 'v) point \<times> ('o, 'v) thread) list \<Rightarrow> addr list" where
  "all_frames L \<equiv> concat (map (frames \<circ> snd) L)"

text \<open>The heap consists of the given threads, each frame in one place of one thread.\<close>

definition heap_ok ::
  "(addr \<rightharpoonup> ('o, 'v) frame) \<Rightarrow> addr \<Rightarrow> (('o, 'v) point \<times> ('o, 'v) thread) list \<Rightarrow> bool" where
  "heap_ok H n L \<longleftrightarrow> list_all (thread_ok H) L \<and> distinct (all_frames L)
     \<and> dom H = set (all_frames L) \<and> (\<forall>x \<in> dom H. x < n)"

lemma linked_cong:
  "(\<And>x. x \<in> set (map fst ps @ [d]) \<Longrightarrow> H' x = H x) \<Longrightarrow> map_option fr_cont (H' a) = map_option fr_cont (H a) \<Longrightarrow>
     linked H' a ps d = linked H a ps d"
proof (induction ps arbitrary: a)
  case (Cons q ps)
  obtain p k where q: "q = (p, k)" by (cases q)
  have "linked H' p ps d = linked H p ps d"
    using Cons.prems(1) q by (intro Cons.IH) auto
  with Cons.prems q show ?case by simp
qed simp

lemma thread_ok_cong:
  assumes "\<And>x. x \<in> set (frames (snd t)) \<Longrightarrow> H' x = H x"
  shows "thread_ok H' t = thread_ok H t"
proof -
  obtain pt a ps d where t: "t = (pt, a, ps, d)" by (cases t) auto
  then have "linked H' a ps d = linked H a ps d" "H' a = H a" using assms by (auto intro!: linked_cong)
  with t show ?thesis by simp
qed

text \<open>Changing the frames of one thread leaves the others alone.\<close>

lemma others_ok:
  assumes "list_all (thread_ok H) L" and "\<And>x. x \<in> set (all_frames L) \<Longrightarrow> H' x = H x"
  shows "list_all (thread_ok H') L"
  unfolding list_all_iff
proof
  fix t assume "t \<in> set L"
  then have "thread_ok H' t = thread_ok H t" using assms(2) by (intro thread_ok_cong) auto
  with assms(1) \<open>t \<in> set L\<close> show "thread_ok H' t" by (simp add: list_all_iff)
qed

lemma heap_ok_perm:
  assumes "mset L = mset L'"
  shows "heap_ok H n L = heap_ok H n L'"
proof -
  have "mset (all_frames L) = mset (all_frames L')"
    using assms by (simp add: mset_concat flip: mset_map) (metis mset_map sum_mset_sum_list)
  then have "distinct (all_frames L) = distinct (all_frames L')" "set (all_frames L) = set (all_frames L')"
    by (rule mset_eq_imp_distinct_iff, rule mset_eq_setD)
  moreover have "list_all (thread_ok H) L = list_all (thread_ok H) L'"
    using mset_eq_setD [OF assms] by (simp add: list_all_iff)
  ultimately show ?thesis by (simp add: heap_ok_def)
qed

text \<open>Suspending or resuming the innermost frame.\<close>

lemma heap_ok_point:
  assumes "heap_ok H n ((pt, a, ps, d) # L)" and "H a = Some f" and "map_option fr_cont (Some f') = Some (fr_cont f)"
    and "fr_point f' = pt'"
  shows "heap_ok (H(a \<mapsto> f')) n ((pt', a, ps, d) # L)"
proof -
  let ?H = "H(a \<mapsto> f')"
  have d: "distinct (all_frames ((pt, a, ps, d) # L))" "linked H a ps d" "list_all (thread_ok H) L"
    "dom H = set (all_frames ((pt, a, ps, d) # L))" "\<forall>x \<in> dom H. x < n"
    using assms(1) by (simp_all add: heap_ok_def)
  have "?H x = H x" if "x \<in> set (map fst ps @ [d])" for x
    using that d(1) by auto
  then have "linked ?H a ps d" using linked_cong [of ps d ?H H a] d(2) assms(2,3) by simp
  moreover have "list_all (thread_ok ?H) L" using d(1) by (intro others_ok [OF d(3)]) auto
  ultimately show ?thesis
    using d assms by (auto simp: heap_ok_def)
qed

lemma heap_ok_fresh: "heap_ok H n L \<Longrightarrow> n \<le> x \<Longrightarrow> H x = None \<and> x \<notin> set (all_frames L)"
  unfolding heap_ok_def by (metis domIff leD)

text \<open>A \<open>co_await\<close> adds a frame at the inner end of the chain.\<close>

lemma heap_ok_await:
  assumes "heap_ok H n ((Running, a, ps, d) # L)" and "H a = Some f"
  shows "heap_ok (H(a \<mapsto> f\<lparr>fr_point := Awaiting n k\<rparr>,
      n \<mapsto> \<lparr>fr_point = Running, fr_cont = Some a, fr_result = None\<rparr>)) (n + 1) ((Running, n, (a, k) # ps, d) # L)"
    (is "heap_ok ?H _ _")
proof -
  have d: "distinct (all_frames ((Running, a, ps, d) # L))" "linked H a ps d" "list_all (thread_ok H) L"
    "dom H = set (all_frames ((Running, a, ps, d) # L))" "\<forall>x \<in> dom H. x < n"
    using assms(1) by (simp_all add: heap_ok_def)
  have n: "n \<notin> set (all_frames ((Running, a, ps, d) # L))"
    using heap_ok_fresh [OF assms(1), of n] by blast
  have "?H x = H x" if "x \<in> set (map fst ps @ [d])" for x
    using that d(1) n by auto
  moreover have "map_option fr_cont (?H a) = map_option fr_cont (H a)" using n assms(2) by auto
  ultimately have "linked ?H a ps d" using linked_cong [of ps d ?H H a] d(2) by blast
  moreover have "list_all (thread_ok ?H) L" using d(1) n by (intro others_ok [OF d(3)]) auto
  ultimately show ?thesis
    using d n assms(2) by (auto simp: heap_ok_def less_Suc_eq)
qed

text \<open>The end of a task removes it and makes its awaiter the innermost frame.\<close>

lemma heap_ok_return:
  assumes "heap_ok H n ((pt, c, (p, k) # ps, d) # L)" and "H p = Some g"
  shows "heap_ok (H(c := None, p \<mapsto> g\<lparr>fr_point := Running\<rparr>)) n ((Running, p, ps, d) # L)"
    (is "heap_ok ?H _ _")
proof -
  have d: "distinct (all_frames ((pt, c, (p, k) # ps, d) # L))" "linked H p ps d" "list_all (thread_ok H) L"
    "dom H = set (all_frames ((pt, c, (p, k) # ps, d) # L))" "\<forall>x \<in> dom H. x < n"
    using assms(1) by (simp_all add: heap_ok_def)
  have "?H x = H x" if "x \<in> set (map fst ps @ [d])" for x
    using that d(1) by auto
  then have "linked ?H p ps d" using linked_cong [of ps d ?H H p] d(2) assms(2) by simp
  moreover have "list_all (thread_ok ?H) L" using d(1) by (intro others_ok [OF d(3)]) auto
  ultimately show ?thesis
    using d assms(2) by (auto simp: heap_ok_def)
qed

text \<open>The end of a detached task removes both frames.\<close>

lemma heap_ok_end:
  assumes "heap_ok H n ((pt, c, [], d) # L)"
  shows "heap_ok (H(c := None, d := None)) n L" (is "heap_ok ?H _ _")
proof -
  have d: "distinct (all_frames ((pt, c, [], d) # L))" "list_all (thread_ok H) L"
    "dom H = set (all_frames ((pt, c, [], d) # L))" "\<forall>x \<in> dom H. x < n"
    using assms(1) by (simp_all add: heap_ok_def)
  have "list_all (thread_ok ?H) L" using d(1) by (intro others_ok [OF d(2)]) auto
  then show ?thesis using d by (auto simp: heap_ok_def)
qed

text \<open>\<open>spawn\<close> adds a thread of two frames.\<close>

lemma heap_ok_spawn:
  assumes "heap_ok H n L"
  shows "heap_ok (H(n \<mapsto> \<lparr>fr_point = Running, fr_cont = Some (n + 1), fr_result = None\<rparr>,
      n + 1 \<mapsto> \<lparr>fr_point = Awaiting_param n, fr_cont = None, fr_result = None\<rparr>)) (n + 2)
    ((Running, n, [], n + 1) # L)" (is "heap_ok ?H _ _")
proof -
  have d: "distinct (all_frames L)" "list_all (thread_ok H) L" "dom H = set (all_frames L)" "\<forall>x \<in> dom H. x < n"
    using assms(1) by (simp_all add: heap_ok_def)
  have n: "n \<notin> set (all_frames L)" "n + 1 \<notin> set (all_frames L)"
    using heap_ok_fresh [OF assms(1), of n] heap_ok_fresh [OF assms(1), of "n + 1"] by auto
  have "list_all (thread_ok ?H) L" using n by (intro others_ok [OF d(2)]) auto
  then show ?thesis using d n by (auto simp: heap_ok_def less_Suc_eq)
qed

subsection \<open>Simulation\<close>

text \<open>
  The running and the suspended threads of the machine are those of the direct-style state,
  in the same order, with the rests of the awaiting bodies as the call stack.
\<close>

definition sim :: "('o, 'v) machine \<Rightarrow> ('o, 'v) calls \<Rightarrow> bool" where
  "sim m s \<longleftrightarrow> \<not> m_bad m \<and> m_terminated m = d_terminated s \<and> (\<not> m_terminated m \<longrightarrow>
     (\<exists>A B. m_active m = map (\<lambda>(b, a, ps, d). (a, b)) A \<and> d_active s = map (\<lambda>(b, a, ps, d). (b, map snd ps)) A
       \<and> m_io m = map (\<lambda>((x, k), a, ps, d). (a, x)) B \<and> d_io s = map (\<lambda>((x, k), a, ps, d). (x, k, map snd ps)) B
       \<and> heap_ok (m_heap m) (m_next m)
           (map (\<lambda>(b, t). (Running, t)) A @ map (\<lambda>((x, k), t). (In_io k, t)) B)))"

lemma sim_init: "sim m_init d_init"
  by (simp add: sim_def m_init_def d_init_def heap_ok_def)

lemmas machine_defs = upd_frame_def set_point_def frame_destroy_def task_create_def start_frame_def
  task_await_suspend_def take_result_def resume_awaiter_def task_finish_def spawn_def

lemma heap_ok_Cons_frame: "heap_ok H n ((pt, a, ps, d) # L) \<Longrightarrow> \<exists>f. H a = Some f \<and> fr_point f = pt"
  by (auto simp: heap_ok_def)

lemma spawn_machine:
  "spawn b m = m\<lparr>m_heap := (m_heap m)(m_next m \<mapsto> \<lparr>fr_point = Running, fr_cont = Some (m_next m + 1), fr_result = None\<rparr>,
       m_next m + 1 \<mapsto> \<lparr>fr_point = Awaiting_param (m_next m), fr_cont = None, fr_result = None\<rparr>),
     m_next := m_next m + 2, m_active := (m_next m, b) # m_active m\<rparr>"
  by (simp add: machine_defs Let_def fun_upd_twist)

lemma await_machine:
  assumes "m_heap m a = Some f" and "m_heap m (m_next m) = None"
  shows "(case task_create ch m of (c, m1) \<Rightarrow> task_await_suspend c a (set_point a (Awaiting c k) m1))
    = m\<lparr>m_heap := (m_heap m)(a \<mapsto> f\<lparr>fr_point := Awaiting (m_next m) k\<rparr>,
          m_next m \<mapsto> \<lparr>fr_point = Running, fr_cont = Some a, fr_result = None\<rparr>),
        m_next := m_next m + 1, m_active := (m_next m, ch) # m_active m\<rparr>"
proof -
  have "a \<noteq> m_next m" using assms by auto
  with assms show ?thesis by (simp add: machine_defs fun_upd_twist)
qed

lemma finish_machine:
  assumes "m_heap m c = Some f" and "fr_cont f = Some p" and "m_heap m p = Some g" and "p \<noteq> c"
  shows "fr_point g = Awaiting c k \<Longrightarrow> task_finish c r m
      = m\<lparr>m_heap := (m_heap m)(c := None, p \<mapsto> g\<lparr>fr_point := Running\<rparr>), m_active := (p, k r) # m_active m\<rparr>"
    and "fr_point g = Awaiting_param c \<Longrightarrow> task_finish c (Inr v) m = m\<lparr>m_heap := (m_heap m)(c := None, p := None)\<rparr>"
    and "fr_point g = Awaiting_param c \<Longrightarrow>
      m_bad (task_finish c (Inl e) m) = m_bad m \<and> m_terminated (task_finish c (Inl e) m)"
  using assms by (simp_all add: machine_defs Let_def fun_upd_twist)

text \<open>The end of the innermost task of the running thread.\<close>

lemma sim_finish:
  assumes "heap_ok (m_heap m) (m_next m) ((Running, c, ps, d) # L)" and "\<not> m_bad m" and "\<not> m_terminated m"
  shows "case ps of
      (p, k) # ps' \<Rightarrow> m_active (task_finish c r m) = (p, k r) # m_active m
        \<and> heap_ok (m_heap (task_finish c r m)) (m_next m) ((Running, p, ps', d) # L)
        \<and> m_next (task_finish c r m) = m_next m \<and> m_io (task_finish c r m) = m_io m
        \<and> \<not> m_bad (task_finish c r m) \<and> \<not> m_terminated (task_finish c r m)
    | [] \<Rightarrow> \<not> m_bad (task_finish c r m) \<and> (m_terminated (task_finish c r m) \<longleftrightarrow> (\<exists>e. r = Inl e))
        \<and> (\<forall>v. r = Inr v \<longrightarrow> m_active (task_finish c r m) = m_active m \<and> m_io (task_finish c r m) = m_io m
             \<and> m_next (task_finish c r m) = m_next m \<and> heap_ok (m_heap (task_finish c r m)) (m_next m) L)"
proof (cases ps)
  case Nil
  from assms(1) Nil obtain f g where fg: "m_heap m c = Some f" "fr_cont f = Some d" "m_heap m d = Some g"
    "fr_point g = Awaiting_param c" "d \<noteq> c"
    by (auto simp: heap_ok_def)
  note fin = finish_machine [OF fg(1-3,5)]
  show ?thesis
    using Nil assms fin(2,3) fg(4) heap_ok_end by (cases r) auto
next
  case (Cons q ps')
  obtain p k where q: "q = (p, k)" by (cases q)
  from assms(1) Cons q obtain f g where fg: "m_heap m c = Some f" "fr_cont f = Some p" "m_heap m p = Some g"
    "fr_point g = Awaiting c k" "p \<noteq> c"
    by (auto simp: heap_ok_def)
  note fin = finish_machine(1) [OF fg(1-3,5,4)]
  show ?thesis
    using Cons q assms heap_ok_return [where H = "m_heap m" and p = p, OF _ fg(3)] by (auto simp: fin)
qed

text \<open>
  The state with a running thread on top, split off from the other threads \<open>A\<close> and the
  suspended ones \<open>B\<close>: what \<open>sim\<close> says, and what the two machines then do.
\<close>

type_synonym ('o, 'v) running = "('o, 'v) co \<times> ('o, 'v) thread"
type_synonym ('o, 'v) suspended = "('o \<times> ('o, 'v) kont) \<times> ('o, 'v) thread"

definition split_top ::
  "('o, 'v) machine \<Rightarrow> ('o, 'v) calls \<Rightarrow> ('o, 'v) running \<Rightarrow> ('o, 'v) running list \<Rightarrow> ('o, 'v) suspended list \<Rightarrow> bool" where
  "split_top m s th A B \<longleftrightarrow> \<not> m_bad m \<and> \<not> m_terminated m \<and> \<not> d_terminated s
     \<and> m_active m = map (\<lambda>(b, a, ps, d). (a, b)) (th # A) \<and> d_active s = map (\<lambda>(b, a, ps, d). (b, map snd ps)) (th # A)
     \<and> m_io m = map (\<lambda>((x, k), a, ps, d). (a, x)) B \<and> d_io s = map (\<lambda>((x, k), a, ps, d). (x, k, map snd ps)) B
     \<and> heap_ok (m_heap m) (m_next m) ((Running, snd th) # map (\<lambda>(b, t). (Running, t)) A
         @ map (\<lambda>((x, k), t). (In_io k, t)) B)"

lemma sim_top_finish:
  assumes "split_top m s (b, a, ps, d) A B"
  shows "sim (task_finish a r (m\<lparr>m_active := map (\<lambda>(b, a, ps, d). (a, b)) A\<rparr>)) (case ps of
      [] \<Rightarrow> s\<lparr>d_active := map (\<lambda>(b, a, ps, d). (b, map snd ps)) A, d_terminated := (\<exists>e. r = Inl e)\<rparr>
    | (p, k) # ps' \<Rightarrow> s\<lparr>d_active := (k r, map snd ps') # map (\<lambda>(b, a, ps, d). (b, map snd ps)) A\<rparr>)"
proof -
  let ?m = "m\<lparr>m_active := map (\<lambda>(b, a, ps, d). (a, b)) A\<rparr>"
  note fin = sim_finish [of ?m a ps d "map (\<lambda>(b, t). (Running, t)) A @ map (\<lambda>((x, k), t). (In_io k, t)) B" r]
  show ?thesis
  proof (cases ps)
    case Nil
    with fin assms show ?thesis
      by (cases r) (auto simp: split_top_def sim_def intro!: exI [of _ A] exI [of _ B])
  next
    case (Cons q ps')
    obtain p k where "q = (p, k)" by (cases q)
    with fin Cons assms show ?thesis
      by (auto simp: split_top_def sim_def intro!: exI [of _ "(k r, p, ps', d) # A"] exI [of _ B])
  qed
qed

lemma sim_top_return:
  assumes "split_top m s (b, a, ps, d) A B" and "b = Return v \<and> r = Inr v \<or> b = Throw e \<and> r = Inl e"
  shows "sim (m_exec m) (d_exec s)"
proof -
  have "m_exec m = task_finish a r (m\<lparr>m_active := map (\<lambda>(b, a, ps, d). (a, b)) A\<rparr>)"
    using assms by (auto simp: split_top_def m_exec_def Let_def)
  moreover have "d_exec s = (case ps of
      [] \<Rightarrow> s\<lparr>d_active := map (\<lambda>(b, a, ps, d). (b, map snd ps)) A, d_terminated := (\<exists>e. r = Inl e)\<rparr>
    | (p, k) # ps' \<Rightarrow> s\<lparr>d_active := (k r, map snd ps') # map (\<lambda>(b, a, ps, d). (b, map snd ps)) A\<rparr>)"
    using assms by (auto simp: split_top_def d_exec_def split: list.split)
  ultimately show ?thesis using sim_top_finish [OF assms(1), of r] by simp
qed

lemma sim_top_io:
  assumes "split_top m s (Io x k, a, ps, d) A B"
  shows "sim (m_exec m) (d_exec s)"
proof -
  have ok: "heap_ok (m_heap m) (m_next m) ((Running, a, ps, d) # map (\<lambda>(b, t). (Running, t)) A
      @ map (\<lambda>((x, k), t). (In_io k, t)) B)" using assms by (simp add: split_top_def)
  obtain f where f: "m_heap m a = Some f" using heap_ok_Cons_frame [OF ok] by blast
  have "heap_ok ((m_heap m)(a \<mapsto> f\<lparr>fr_point := In_io k\<rparr>)) (m_next m)
      (map (\<lambda>(b, t). (Running, t)) A @ map (\<lambda>((x, k), t). (In_io k, t)) (B @ [((x, k), a, ps, d)]))"
    using heap_ok_point [OF ok f, of "f\<lparr>fr_point := In_io k\<rparr>" "In_io k"]
    by (subst heap_ok_perm [where L' = "(In_io k, a, ps, d) # map (\<lambda>(b, t). (Running, t)) A
        @ map (\<lambda>((x, k), t). (In_io k, t)) B"]) simp_all
  then show ?thesis
    using f assms
    by (auto simp: split_top_def sim_def m_exec_def d_exec_def Let_def set_point_def upd_frame_def
        intro!: exI [of _ A] exI [of _ "B @ [((x, k), a, ps, d)]"])
qed

lemma sim_top_await:
  assumes "split_top m s (Await ch k, a, ps, d) A B"
  shows "sim (m_exec m) (d_exec s)"
proof -
  have ok: "heap_ok (m_heap m) (m_next m) ((Running, a, ps, d) # map (\<lambda>(b, t). (Running, t)) A
      @ map (\<lambda>((x, k), t). (In_io k, t)) B)" using assms by (simp add: split_top_def)
  obtain f where f: "m_heap m a = Some f" using heap_ok_Cons_frame [OF ok] by blast
  have n: "m_heap m (m_next m) = None" using heap_ok_fresh [OF ok] by blast
  show ?thesis
    using heap_ok_await [OF ok f, of k] assms f n
      await_machine [where m = "m\<lparr>m_active := map (\<lambda>(b, a, ps, d). (a, b)) A\<rparr>" and a = a and f = f and ch = ch and k = k]
    by (auto simp: split_top_def sim_def m_exec_def d_exec_def Let_def
        intro!: exI [of _ "(ch, m_next m, (a, k) # ps, d) # A"] exI [of _ B])
qed

lemma sim_top_spawn:
  assumes "split_top m s (Spawn ch b, a, ps, d) A B"
  shows "sim (m_exec m) (d_exec s)"
proof -
  have ok: "heap_ok (m_heap m) (m_next m) ((Running, a, ps, d) # map (\<lambda>(b, t). (Running, t)) A
      @ map (\<lambda>((x, k), t). (In_io k, t)) B)" using assms by (simp add: split_top_def)
  show ?thesis
    using heap_ok_spawn [OF ok] assms
    by (auto simp: split_top_def sim_def m_exec_def d_exec_def Let_def spawn_machine
        intro!: exI [of _ "(ch, m_next m, [], Suc (m_next m)) # (b, a, ps, d) # A"] exI [of _ B])
qed

lemma sim_exec:
  assumes "sim m s" and "\<not> m_terminated m"
  shows "sim (m_exec m) (d_exec s)"
proof -
  from assms obtain A B where act: "m_active m = map (\<lambda>(b, a, ps, d). (a, b)) A"
      "d_active s = map (\<lambda>(b, a, ps, d). (b, map snd ps)) A"
    and io: "m_io m = map (\<lambda>((x, k), a, ps, d). (a, x)) B" "d_io s = map (\<lambda>((x, k), a, ps, d). (x, k, map snd ps)) B"
    and ok: "heap_ok (m_heap m) (m_next m)
      (map (\<lambda>(b, t). (Running, t)) A @ map (\<lambda>((x, k), t). (In_io k, t)) B)"
    and nb: "\<not> m_bad m" "\<not> d_terminated s"
    by (auto simp: sim_def)
  show ?thesis
  proof (cases A)
    case Nil
    then have "m_exec m = m" "d_exec s = s" using act by (simp_all add: m_exec_def d_exec_def)
    with assms(1) show ?thesis by simp
  next
    case (Cons th A')
    obtain b a ps d where "th = (b, a, ps, d)" by (cases th) auto
    with act io ok nb Cons assms(2) have "split_top m s (b, a, ps, d) A' B" by (simp add: split_top_def)
    then show ?thesis
      by (cases b) (blast intro: sim_top_return sim_top_io sim_top_await sim_top_spawn)+
  qed
qed

lemma map_take_drop_nth: "map f (take i xs) @ map f (drop (Suc i) xs) = take i (map f xs) @ drop (Suc i) (map f xs)"
  by (simp add: take_map drop_map)

lemma sim_complete:
  assumes "sim m s" and "\<not> m_terminated m"
  shows "sim (m_complete i r m) (d_complete i r s)"
proof -
  from assms obtain A B where act: "m_active m = map (\<lambda>(b, a, ps, d). (a, b)) A"
      "d_active s = map (\<lambda>(b, a, ps, d). (b, map snd ps)) A"
    and io: "m_io m = map (\<lambda>((x, k), a, ps, d). (a, x)) B" "d_io s = map (\<lambda>((x, k), a, ps, d). (x, k, map snd ps)) B"
    and ok: "heap_ok (m_heap m) (m_next m)
      (map (\<lambda>(b, t). (Running, t)) A @ map (\<lambda>((x, k), t). (In_io k, t)) B)"
    and nb: "\<not> m_bad m" "\<not> d_terminated s"
    by (auto simp: sim_def)
  show ?thesis
  proof (cases "i < length B")
    case False
    then have "m_complete i r m = m" "d_complete i r s = s" using io by (simp_all add: m_complete_def d_complete_def)
    with assms(1) show ?thesis by simp
  next
    case True
    obtain x k a ps d where b: "B ! i = ((x, k), a, ps, d)" by (metis prod.exhaust)
    let ?B = "take i B @ drop (Suc i) B"
    have "mset B = add_mset (B ! i) (mset ?B)"
      using id_take_nth_drop [OF True] by (metis add_mset_add_single mset.simps(2) mset_append union_mset_add_mset_right)
    then have "mset (map (\<lambda>(b, t). (Running, t)) A @ map (\<lambda>((x, k), t). (In_io k, t)) B)
        = mset ((In_io k, a, ps, d) # map (\<lambda>(b, t). (Running, t)) A @ map (\<lambda>((x, k), t). (In_io k, t)) ?B)"
      by (simp add: b)
    from ok [unfolded heap_ok_perm [OF this]]
    have ok': "heap_ok (m_heap m) (m_next m)
        ((In_io k, a, ps, d) # map (\<lambda>(b, t). (Running, t)) A @ map (\<lambda>((x, k), t). (In_io k, t)) ?B)" .
    obtain f where f: "m_heap m a = Some f" "fr_point f = In_io k" using heap_ok_Cons_frame [OF ok'] by blast
    have "m_complete i r m = m\<lparr>m_io := map (\<lambda>((x, k), a, ps, d). (a, x)) ?B,
        m_heap := (m_heap m)(a \<mapsto> f\<lparr>fr_point := Running\<rparr>), m_active := (a, k r) # m_active m\<rparr>"
      using True b f io
      by (simp add: m_complete_def Let_def set_point_def upd_frame_def take_map drop_map)
    moreover have "d_complete i r s = s\<lparr>d_io := map (\<lambda>((x, k), a, ps, d). (x, k, map snd ps)) ?B,
        d_active := (k r, map snd ps) # d_active s\<rparr>"
      using True b io by (simp add: d_complete_def take_map drop_map)
    ultimately show ?thesis
      using heap_ok_point [OF ok' f(1), of "f\<lparr>fr_point := Running\<rparr>" Running] act nb assms(2)
      by (auto simp: sim_def intro!: exI [of _ "(k r, a, ps, d) # A"] exI [of _ ?B])
  qed
qed

lemma sim_step:
  assumes "sim m s"
  shows "sim (m_step ev m) (d_step ev s)"
proof (cases "m_terminated m")
  case True
  with assms have "d_terminated s" by (simp add: sim_def)
  with True assms show ?thesis by (simp add: m_step_def d_step_def)
next
  case False
  with assms have nt: "\<not> d_terminated s" by (simp add: sim_def)
  show ?thesis
  proof (cases ev)
    case Exec
    with sim_exec [OF assms False] False nt show ?thesis by (simp add: m_step_def d_step_def)
  next
    case (Complete i r)
    with sim_complete [OF assms False] False nt show ?thesis by (simp add: m_step_def d_step_def)
  next
    case (Spawn_task b)
    from assms False obtain A B where "m_active m = map (\<lambda>(b, a, ps, d). (a, b)) A"
        "d_active s = map (\<lambda>(b, a, ps, d). (b, map snd ps)) A"
      and "m_io m = map (\<lambda>((x, k), a, ps, d). (a, x)) B" "d_io s = map (\<lambda>((x, k), a, ps, d). (x, k, map snd ps)) B"
      and "heap_ok (m_heap m) (m_next m) (map (\<lambda>(b, t). (Running, t)) A @ map (\<lambda>((x, k), t). (In_io k, t)) B)"
      and "\<not> m_bad m"
      by (auto simp: sim_def)
    with Spawn_task False nt heap_ok_spawn show ?thesis
      by (auto simp: sim_def m_step_def d_step_def spawn_machine
          intro!: exI [of _ "(b, m_next m, [], Suc (m_next m)) # A"] exI [of _ B])
  qed
qed

lemma sim_run: "sim m s \<Longrightarrow> sim (fold m_step evs m) (fold d_step evs s)"
  by (induction evs arbitrary: m s) (simp_all add: sim_step)

subsection \<open>Properties\<close>

text \<open>
  C18. Awaiting a task is a call. Under every sequence of steps, completions and spawns the
  machine of frames does what direct-style code does: it runs the same bodies, waits for the
  same operations, passes every value and exception to the awaiting body, and stops with
  \<open>std::terminate\<close> exactly when an exception leaves a spawned task. No frame is resumed,
  read or destroyed after it is gone.
\<close>

theorem tasks_are_calls:
  "\<not> m_bad (fold m_step evs m_init)
   \<and> m_terminated (fold m_step evs m_init) = d_terminated (fold d_step evs d_init)
   \<and> (m_terminated (fold m_step evs m_init)
      \<or> map snd (m_active (fold m_step evs m_init)) = map fst (d_active (fold d_step evs d_init))
        \<and> map snd (m_io (fold m_step evs m_init)) = map fst (d_io (fold d_step evs d_init)))"
  using sim_run [OF sim_init, of evs] by (auto simp: sim_def o_def case_prod_beta)

text \<open>
  C36. Frames do not leak and belong to one thread of control: at every moment there are
  exactly the frames of the suspended and running call chains, two for each thread (its
  detached frame and its innermost task) and one for each call in progress; so when nothing
  runs and no operation is pending every frame has been destroyed.
\<close>

theorem frames_are_freed:
  assumes "\<not> m_terminated (fold m_step evs m_init)"
  shows "finite (dom (m_heap (fold m_step evs m_init)))
    \<and> card (dom (m_heap (fold m_step evs m_init)))
      = sum_list (map (\<lambda>c. 2 + length (snd c)) (d_active (fold d_step evs d_init)))
        + sum_list (map (\<lambda>c. 2 + length (snd (snd c))) (d_io (fold d_step evs d_init)))"
proof -
  let ?m = "fold m_step evs m_init" and ?s = "fold d_step evs d_init"
  from sim_run [OF sim_init, of evs] assms obtain A B
    where A: "d_active ?s = map (\<lambda>(b, a, ps, d). (b, map snd ps)) A"
      and B: "d_io ?s = map (\<lambda>((x, k), a, ps, d). (x, k, map snd ps)) B"
      and ok: "heap_ok (m_heap ?m) (m_next ?m)
        (map (\<lambda>(b, t). (Running, t)) A @ map (\<lambda>((x, k), t). (In_io k, t)) B)"
    by (auto simp: sim_def)
  let ?L = "map (\<lambda>(b, t). (Running, t)) A @ map (\<lambda>((x, k), t). (In_io k, t)) B"
  have dom: "dom (m_heap ?m) = set (all_frames ?L)" and dist: "distinct (all_frames ?L)"
    using ok by (simp_all only: heap_ok_def simp_thms)
  have "card (dom (m_heap ?m)) = length (all_frames ?L)"
    unfolding dom by (rule distinct_card [OF dist])
  moreover have "finite (dom (m_heap ?m))" unfolding dom by simp
  ultimately show ?thesis
    by (simp add: A B length_concat o_def case_prod_beta)
qed

theorem frames_are_freed_witness:
  "card (dom (m_heap (fold m_step
     [Spawn_task (Await (Io ''recv'' (\<lambda>_. Return ())) (\<lambda>_. Return ())), Exec, Exec] m_init))) = 3"
proof -
  let ?evs = "[Spawn_task (Await (Io ''recv'' (\<lambda>_. Return ())) (\<lambda>_. Return ())), Exec, Exec]"
  have d: "fold d_step ?evs d_init = \<lparr>d_active = [],
      d_io = [(''recv'', \<lambda>_. Return (), [\<lambda>_. Return ()])], d_terminated = False\<rparr>"
    by (simp add: d_step_def d_exec_def d_init_def)
  then have "\<not> m_terminated (fold m_step ?evs m_init)"
    using sim_run [OF sim_init, of ?evs] by (simp add: sim_def)
  from frames_are_freed [OF this] d show ?thesis by simp
qed

end
