(* ===== verification/Spawned.thy ===== *)
theory Spawned
  imports Task
begin

text \<open>
  The coroutines that the program hands to \<open>spawn\<close>, as bodies of \<open>Task\<close>: the accept
  loop and \<open>accept_one\<close> (\<open>server/server.cpp\<close>), \<open>handle_connection\<close>, its handlers
  and \<open>tracked\<close> (\<open>server/session.cpp\<close>), and the client's \<open>connect_task\<close>,
  \<open>reader_loop\<close> and \<open>send_request\<close> (\<open>client/client.cpp\<close>). Only their control
  flow matters here: what they await, what they spawn and which exceptions they let out, since
  an exception that leaves a spawned task calls \<open>std::terminate\<close>. The tasks they await
  (operations of the queue, reads of the framed reader, \<open>send_all\<close>) are arbitrary bodies
  that spawn nothing unsafe; what the code computes from a value it got is an argument.
\<close>

subsection \<open>Definitions\<close>

text \<open>The rest of a body after awaiting something it does not catch exceptions of.\<close>

definition propagate :: "('v \<Rightarrow> ('o, 'v) co) \<Rightarrow> ('o, 'v) kont" where
  "propagate k r = (case r of Inl e \<Rightarrow> Throw e | Inr v \<Rightarrow> k v)"

text \<open>
  A coroutine with a loop is given by where it can be (its state) and what it does next
  there.
\<close>

datatype (discs_sels) ('o, 'v, 's) act =
    Act_return 'v
  | Act_throw exn
  | Act_io 'o "exn + 'v \<Rightarrow> 's"
  | Act_await "('o, 'v) co" "exn + 'v \<Rightarrow> 's"
  | Act_spawn "('o, 'v) co" 's

primcorec run_co :: "('s \<Rightarrow> ('o, 'v, 's) act) \<Rightarrow> 's \<Rightarrow> ('o, 'v) co" where
  "run_co next s =
     (case next s of
        Act_return v \<Rightarrow> Return v
      | Act_throw e \<Rightarrow> Throw e
      | Act_io x k \<Rightarrow> Io x (\<lambda>r. run_co next (k r))
      | Act_await c k \<Rightarrow> Await c (\<lambda>r. run_co next (k r))
      | Act_spawn c s' \<Rightarrow> Spawn c (run_co next s'))"

definition is_system_error :: "exn \<Rightarrow> bool" where
  "is_system_error e \<longleftrightarrow> (\<exists>n. e = System_error n)"

subsubsection \<open>The server\<close>

text \<open>
  The end of each handler: the mutex, which does not throw, then \<open>send_all\<close>. \<open>io\<close> is
  the operation on the file, \<open>buf\<close> the allocation of a read's buffer.
\<close>

definition send_error_co :: "'o \<Rightarrow> ('o, 'v) co \<Rightarrow> ('o, 'v) co" where
  "send_error_co lock snd_all = Io lock (\<lambda>_. Await snd_all (propagate Return))"

definition handle_write_co :: "('o, 'v) co \<Rightarrow> 'o \<Rightarrow> (exn + 'v \<Rightarrow> ('o, 'v) co) \<Rightarrow> ('o, 'v) co" where
  "handle_write_co io lock snd_all =
     Await io (\<lambda>r. case r of
       Inl e \<Rightarrow> if is_system_error e then send_error_co lock (snd_all r) else Throw e
     | Inr _ \<Rightarrow> send_error_co lock (snd_all r))"

definition handle_read_co ::
  "exn + unit \<Rightarrow> ('o, 'v) co \<Rightarrow> 'o \<Rightarrow> (exn + 'v \<Rightarrow> ('o, 'v) co) \<Rightarrow> ('o, 'v) co" where
  "handle_read_co buf io lock snd_all =
     (case buf of Inl e \<Rightarrow> Throw e | Inr _ \<Rightarrow> handle_write_co io lock snd_all)"

definition tracked :: "('o, 'v) co \<Rightarrow> 'v \<Rightarrow> ('o, 'v) co" where
  "tracked t u = Await t (\<lambda>_. Return u)"

text \<open>
  What the loop of \<open>handle_connection\<close> makes of a header: read a payload and spawn a
  handler with it, spawn a handler, or throw (no memory, a bad request).
\<close>

datatype ('o, 'v) todo =
    Read_payload "('o, 'v) co" "'v \<Rightarrow> ('o, 'v) co"
  | Handle "('o, 'v) co"
  | Fail

datatype 'v conn_pc = Conn_start "exn + unit" | Conn_header "exn + 'v" | Conn_payload 'v "exn + 'v" | Conn_loop | Conn_drained

fun connection_next ::
  "('o, 'v) co \<Rightarrow> ('v \<Rightarrow> ('o, 'v) todo) \<Rightarrow> 'o \<Rightarrow> 'v \<Rightarrow> 'v conn_pc \<Rightarrow> ('o, 'v, 'v conn_pc) act" where
  "connection_next read_header todo wait u (Conn_start (Inl e)) = Act_throw e"
| "connection_next read_header todo wait u (Conn_start (Inr _)) = Act_await read_header Conn_header"
| "connection_next read_header todo wait u Conn_loop = Act_await read_header Conn_header"
| "connection_next read_header todo wait u (Conn_header (Inl e)) = Act_io wait (\<lambda>_. Conn_drained)"
| "connection_next read_header todo wait u (Conn_header (Inr v)) =
     (case todo v of
        Read_payload b h \<Rightarrow> Act_await b (Conn_payload v)
      | Handle h \<Rightarrow> Act_spawn (tracked h u) Conn_loop
      | Fail \<Rightarrow> Act_io wait (\<lambda>_. Conn_drained))"
| "connection_next read_header todo wait u (Conn_payload v (Inl e)) = Act_io wait (\<lambda>_. Conn_drained)"
| "connection_next read_header todo wait u (Conn_payload v (Inr p)) =
     (case todo v of
        Read_payload b h \<Rightarrow> Act_spawn (tracked (h p) u) Conn_loop
      | _ \<Rightarrow> Act_return u)"
| "connection_next read_header todo wait u Conn_drained = Act_return u"

definition handle_connection_co ::
  "exn + unit \<Rightarrow> ('o, 'v) co \<Rightarrow> ('v \<Rightarrow> ('o, 'v) todo) \<Rightarrow> 'o \<Rightarrow> 'v \<Rightarrow> ('o, 'v) co" where
  "handle_connection_co prep read_header todo wait u =
     run_co (connection_next read_header todo wait u) (Conn_start prep)"

definition accept_one :: "('o, 'v) co \<Rightarrow> ('o, 'v) co \<Rightarrow> 'v \<Rightarrow> ('o, 'v) co" where
  "accept_one connection close_fd u = Await connection (\<lambda>_. Await close_fd (\<lambda>_. Return u))"

text \<open>\<open>shutdown i\<close> is the flag as the loop reads it after its \<open>i\<close>th failed accept.\<close>

datatype 'v accept_pc = Accept_next nat | Accept_got nat "exn + 'v"

fun accept_next ::
  "('o, 'v) co \<Rightarrow> (nat \<Rightarrow> bool) \<Rightarrow> ('v \<Rightarrow> ('o, 'v) co) \<Rightarrow> 'v \<Rightarrow> 'v accept_pc \<Rightarrow> ('o, 'v, 'v accept_pc) act" where
  "accept_next accept_fd shutdown one u (Accept_next i) = Act_await accept_fd (Accept_got i)"
| "accept_next accept_fd shutdown one u (Accept_got i (Inl e)) =
     (if shutdown i then Act_return u else Act_await accept_fd (Accept_got (Suc i)))"
| "accept_next accept_fd shutdown one u (Accept_got i (Inr fd)) = Act_spawn (one fd) (Accept_next i)"

definition accept_loop_co ::
  "('o, 'v) co \<Rightarrow> (nat \<Rightarrow> bool) \<Rightarrow> ('v \<Rightarrow> ('o, 'v) co) \<Rightarrow> 'v \<Rightarrow> ('o, 'v) co" where
  "accept_loop_co accept_fd shutdown one u = run_co (accept_next accept_fd shutdown one u) (Accept_next 0)"

subsubsection \<open>The client\<close>

definition connect_task :: "('o, 'v) co \<Rightarrow> 'v \<Rightarrow> ('o, 'v) co" where
  "connect_task connect u = Await connect (\<lambda>_. Return u)"

definition send_request_co :: "'o \<Rightarrow> ('o, 'v) co \<Rightarrow> 'v \<Rightarrow> ('o, 'v) co" where
  "send_request_co lock snd_all u = Io lock (\<lambda>_. Await snd_all (\<lambda>_. Return u))"

text \<open>
  \<open>reader_loop\<close>: creating the stream comes before the \<open>try\<close>. \<open>known\<close> says what a
  header announces: an unknown cid (\<open>None\<close>), a body to read, or nothing more.
\<close>

datatype 'v reader_pc = Reader_start "exn + unit" | Reader_header "exn + 'v" | Reader_body "exn + 'v"

fun reader_next ::
  "('o, 'v) co \<Rightarrow> ('v \<Rightarrow> ('o, 'v) co option option) \<Rightarrow> 'v \<Rightarrow> 'v reader_pc \<Rightarrow> ('o, 'v, 'v reader_pc) act" where
  "reader_next read_header known u (Reader_start (Inl e)) = Act_throw e"
| "reader_next read_header known u (Reader_start (Inr _)) = Act_await read_header Reader_header"
| "reader_next read_header known u (Reader_header (Inl e)) = Act_return u"
| "reader_next read_header known u (Reader_header (Inr v)) =
     (case known v of
        None \<Rightarrow> Act_return u
      | Some (Some b) \<Rightarrow> Act_await b Reader_body
      | Some None \<Rightarrow> Act_await read_header Reader_header)"
| "reader_next read_header known u (Reader_body (Inl e)) = Act_return u"
| "reader_next read_header known u (Reader_body (Inr v)) = Act_await read_header Reader_header"

definition reader_loop_co ::
  "exn + unit \<Rightarrow> ('o, 'v) co \<Rightarrow> ('v \<Rightarrow> ('o, 'v) co option option) \<Rightarrow> 'v \<Rightarrow> ('o, 'v) co" where
  "reader_loop_co stream read_header known u = run_co (reader_next read_header known u) (Reader_start stream)"

subsection \<open>Bodies that let no exception out\<close>

text \<open>
  \<open>never_throws\<close>: no exception leaves the body. \<open>contained\<close>: of whatever it, and
  what it awaits or spawns, spawns, no exception leaves. What the program spawns should be
  both.
\<close>

coinductive never_throws :: "('o, 'v) co \<Rightarrow> bool" where
  "never_throws (Return v)"
| "\<forall>r. never_throws (k r) \<Longrightarrow> never_throws (Io a k)"
| "\<forall>r. never_throws (k r) \<Longrightarrow> never_throws (Await c k)"
| "never_throws b \<Longrightarrow> never_throws (Spawn c b)"

inductive_simps never_throws_simps [simp]:
  "never_throws (Return v)" "never_throws (Throw e)" "never_throws (Io a k)" "never_throws (Await c k)"
  "never_throws (Spawn c b)"

coinductive contained :: "('o, 'v) co \<Rightarrow> bool" where
  "contained (Return v)"
| "contained (Throw e)"
| "\<forall>r. contained (k r) \<Longrightarrow> contained (Io a k)"
| "contained c \<Longrightarrow> \<forall>r. contained (k r) \<Longrightarrow> contained (Await c k)"
| "never_throws c \<Longrightarrow> contained c \<Longrightarrow> contained b \<Longrightarrow> contained (Spawn c b)"

inductive_simps contained_simps [simp]:
  "contained (Return v)" "contained (Throw e)" "contained (Io a k)" "contained (Await c k)" "contained (Spawn c b)"

definition quiet :: "('o, 'v) co \<Rightarrow> bool" where
  "quiet b \<longleftrightarrow> contained b \<and> never_throws b"

text \<open>A looping coroutine is contained, and throws nothing, if this holds of what it does next.\<close>

definition contained_act :: "('s \<Rightarrow> bool) \<Rightarrow> ('o, 'v, 's) act \<Rightarrow> bool" where
  "contained_act P a =
     (case a of
        Act_return v \<Rightarrow> True
      | Act_throw e \<Rightarrow> True
      | Act_io x k \<Rightarrow> \<forall>r. P (k r)
      | Act_await c k \<Rightarrow> contained c \<and> (\<forall>r. P (k r))
      | Act_spawn c s \<Rightarrow> quiet c \<and> P s)"

definition no_throw_act :: "('s \<Rightarrow> bool) \<Rightarrow> ('o, 'v, 's) act \<Rightarrow> bool" where
  "no_throw_act P a =
     (case a of
        Act_return v \<Rightarrow> True
      | Act_throw e \<Rightarrow> False
      | Act_io x k \<Rightarrow> \<forall>r. P (k r)
      | Act_await c k \<Rightarrow> \<forall>r. P (k r)
      | Act_spawn c s \<Rightarrow> P s)"

lemma run_co_simps:
  "next s = Act_return v \<Longrightarrow> run_co next s = Return v"
  "next s = Act_throw e \<Longrightarrow> run_co next s = Throw e"
  "next s = Act_io a k \<Longrightarrow> run_co next s = Io a (\<lambda>r. run_co next (k r))"
  "next s = Act_await c k \<Longrightarrow> run_co next s = Await c (\<lambda>r. run_co next (k r))"
  "next s = Act_spawn c s' \<Longrightarrow> run_co next s = Spawn c (run_co next s')"
  by (simp_all add: run_co.code)

lemma contained_run_co:
  assumes "P s" and "\<And>s. P s \<Longrightarrow> contained_act P (next s)"
  shows "contained (run_co next s)"
proof (rule contained.coinduct [where X = "\<lambda>b. \<exists>s. b = run_co next s \<and> P s"])
  show "\<exists>s'. run_co next s = run_co next s' \<and> P s'" using assms(1) by blast
next
  fix b assume "\<exists>s. b = run_co next s \<and> P s"
  then obtain s where b: "b = run_co next s" and "P s" by blast
  from assms(2) [OF this(2)] show "(\<exists>v. b = Return v) \<or> (\<exists>e. b = Throw e)
      \<or> (\<exists>k a. b = Io a k \<and> (\<forall>r. (\<exists>s. k r = run_co next s \<and> P s) \<or> contained (k r)))
      \<or> (\<exists>c k. b = Await c k \<and> ((\<exists>s. c = run_co next s \<and> P s) \<or> contained c)
           \<and> (\<forall>r. (\<exists>s. k r = run_co next s \<and> P s) \<or> contained (k r)))
      \<or> (\<exists>c b'. b = Spawn c b' \<and> never_throws c \<and> ((\<exists>s. c = run_co next s \<and> P s) \<or> contained c)
           \<and> ((\<exists>s. b' = run_co next s \<and> P s) \<or> contained b'))"
    unfolding b by (cases "next s") (auto simp: contained_act_def quiet_def run_co_simps)
qed

lemma never_throws_run_co:
  assumes "P s" and "\<And>s. P s \<Longrightarrow> no_throw_act P (next s)"
  shows "never_throws (run_co next s)"
proof (rule never_throws.coinduct [where X = "\<lambda>b. \<exists>s. b = run_co next s \<and> P s"])
  show "\<exists>s'. run_co next s = run_co next s' \<and> P s'" using assms(1) by blast
next
  fix b assume "\<exists>s. b = run_co next s \<and> P s"
  then obtain s where b: "b = run_co next s" and "P s" by blast
  from assms(2) [OF this(2)] show "(\<exists>v. b = Return v)
      \<or> (\<exists>k a. b = Io a k \<and> (\<forall>r. (\<exists>s. k r = run_co next s \<and> P s) \<or> never_throws (k r)))
      \<or> (\<exists>k c. b = Await c k \<and> (\<forall>r. (\<exists>s. k r = run_co next s \<and> P s) \<or> never_throws (k r)))
      \<or> (\<exists>b' c. b = Spawn c b' \<and> ((\<exists>s. b' = run_co next s \<and> P s) \<or> never_throws b'))"
    unfolding b by (cases "next s") (auto simp: no_throw_act_def run_co_simps)
qed

subsection \<open>What the program spawns\<close>

text \<open>The requests of a connection: a write, a read, an oversized read, anything else.\<close>

inductive conn_todo :: "('o, 'v) todo \<Rightarrow> bool" where
  todo_write: "contained rd \<Longrightarrow> (\<And>p. contained (io p)) \<Longrightarrow> (\<And>p r. contained (snd_all p r)) \<Longrightarrow>
    conn_todo (Read_payload rd (\<lambda>p. handle_write_co (io p) lock (snd_all p)))"
| todo_read: "contained io \<Longrightarrow> (\<And>r. contained (snd_all r)) \<Longrightarrow> conn_todo (Handle (handle_read_co buf io lock snd_all))"
| todo_error: "contained snd_all \<Longrightarrow> conn_todo (Handle (send_error_co lock snd_all))"
| todo_fail: "conn_todo Fail"

text \<open>
  The tasks handed to \<open>spawn\<close>: the accept loop, which spawns \<open>accept_one\<close> and through
  it everything else of the server, and the client's three, its reader with a stream that
  could be created. The operations they await are any that spawn nothing that throws.
\<close>

inductive program_task :: "('o, 'v) co \<Rightarrow> bool" where
  acceptor: "contained accept_fd \<Longrightarrow> (\<And>fd. contained (rh fd)) \<Longrightarrow> (\<And>fd v. conn_todo (todo fd v)) \<Longrightarrow>
    (\<And>fd. contained (close_fd fd)) \<Longrightarrow>
    program_task (accept_loop_co accept_fd shutdown
      (\<lambda>fd. accept_one (handle_connection_co (prep fd) (rh fd) (todo fd) wait u) (close_fd fd) u) u)"
| connector: "contained connect \<Longrightarrow> program_task (connect_task connect u)"
| sender: "contained snd_all \<Longrightarrow> program_task (send_request_co lock snd_all u)"
| reader: "contained rh \<Longrightarrow> (\<And>v b. known v = Some (Some b) \<Longrightarrow> contained b) \<Longrightarrow>
    program_task (reader_loop_co (Inr ()) rh known u)"

lemma contained_send_error: "contained snd_all \<Longrightarrow> contained (send_error_co lock snd_all)"
  by (auto simp: send_error_co_def propagate_def split: sum.split)

lemma contained_handle_write:
  "contained io \<Longrightarrow> (\<And>r. contained (snd_all r)) \<Longrightarrow> contained (handle_write_co io lock snd_all)"
  by (auto simp: handle_write_co_def contained_send_error split: sum.split)

lemma conn_todo_contained:
  assumes "conn_todo t"
  shows "case t of Read_payload b h \<Rightarrow> contained b \<and> (\<forall>p. contained (h p)) | Handle h \<Rightarrow> contained h | Fail \<Rightarrow> True"
  using assms
  by induction (auto simp: handle_read_co_def contained_handle_write contained_send_error split: sum.split)

lemma quiet_tracked: "contained t \<Longrightarrow> quiet (tracked t u)"
  by (simp add: quiet_def tracked_def)

lemma contained_connection:
  assumes "contained rh" and "\<And>v. conn_todo (todo v)"
  shows "contained (handle_connection_co prep rh todo wait u)"
  unfolding handle_connection_co_def
proof (rule contained_run_co [where P = "\<lambda>_. True"])
  show "contained_act (\<lambda>_. True) (connection_next rh todo wait u pc)" for pc
  proof (cases "(rh, todo, wait, u, pc)" rule: connection_next.cases)
    case (5 rh' todo' wait' u' v)
    with conn_todo_contained [OF assms(2), of v] show ?thesis
      by (auto simp: contained_act_def quiet_tracked split: todo.splits)
  next
    case (7 rh' todo' wait' u' v p)
    with conn_todo_contained [OF assms(2), of v] show ?thesis
      by (auto simp: contained_act_def quiet_tracked split: todo.splits)
  qed (use assms(1) in \<open>auto simp: contained_act_def\<close>)
qed simp

lemma quiet_accept_one: "contained connection \<Longrightarrow> contained close_fd \<Longrightarrow> quiet (accept_one connection close_fd u)"
  by (simp add: quiet_def accept_one_def)

lemma quiet_accept_loop:
  assumes "contained accept_fd" and "\<And>fd. quiet (one fd)"
  shows "quiet (accept_loop_co accept_fd shutdown one u)"
proof -
  have "contained_act (\<lambda>_. True) (accept_next accept_fd shutdown one u pc)"
    "no_throw_act (\<lambda>_. True) (accept_next accept_fd shutdown one u pc)" for pc
    using assms
    by (cases "(accept_fd, shutdown, one, u, pc)" rule: accept_next.cases;
        simp add: contained_act_def no_throw_act_def)+
  then show ?thesis
    unfolding quiet_def accept_loop_co_def
    by (intro conjI contained_run_co [where P = "\<lambda>_. True"] never_throws_run_co [where P = "\<lambda>_. True"]) simp_all
qed

lemma quiet_reader_loop:
  assumes "contained rh" and "\<And>v b. known v = Some (Some b) \<Longrightarrow> contained b"
  shows "quiet (reader_loop_co (Inr ()) rh known u)"
proof -
  let ?P = "\<lambda>pc. \<forall>e. pc \<noteq> Reader_start (Inl e)"
  have "contained_act ?P (reader_next rh known u pc)" "no_throw_act ?P (reader_next rh known u pc)" if "?P pc" for pc
    using assms that
    by (cases "(rh, known, u, pc)" rule: reader_next.cases;
        simp add: contained_act_def no_throw_act_def split: option.split)+
  then show ?thesis
    unfolding quiet_def reader_loop_co_def
    by (intro conjI contained_run_co [where P = ?P] never_throws_run_co [where P = ?P]) simp_all
qed

lemma program_task_quiet: "program_task b \<Longrightarrow> quiet b"
proof (induction rule: program_task.induct)
  case (acceptor accept_fd rh todo close_fd shutdown prep wait u)
  then show ?case by (intro quiet_accept_loop quiet_accept_one contained_connection) blast+
next
  case (reader rh known u)
  then show ?case by (intro quiet_reader_loop)
qed (simp_all add: quiet_def connect_task_def send_request_co_def)

subsection \<open>Running them\<close>

fun stack_ok :: "('o, 'v) kont list \<Rightarrow> bool" where
  "stack_ok [] = True"
| "stack_ok (k # ks) = ((\<forall>r. contained (k r) \<and> (ks = [] \<longrightarrow> never_throws (k r))) \<and> stack_ok ks)"

definition call_ok :: "('o, 'v) co \<times> ('o, 'v) kont list \<Rightarrow> bool" where
  "call_ok c \<longleftrightarrow> contained (fst c) \<and> (snd c = [] \<longrightarrow> never_throws (fst c)) \<and> stack_ok (snd c)"

definition calls_ok :: "('o, 'v) calls \<Rightarrow> bool" where
  "calls_ok s \<longleftrightarrow> \<not> d_terminated s \<and> list_all call_ok (d_active s)
     \<and> list_all (\<lambda>(x, k, ks). \<forall>r. call_ok (k r, ks)) (d_io s)"

lemma calls_ok_exec:
  assumes "calls_ok s"
  shows "calls_ok (d_exec s)"
proof (cases "d_active s")
  case Nil
  with assms show ?thesis by (simp add: d_exec_def)
next
  case (Cons c rest)
  obtain b ks where c: "c = (b, ks)" by (cases c)
  with Cons assms have top: "call_ok (b, ks)" "list_all call_ok rest" by (simp_all add: calls_ok_def)
  show ?thesis
    using assms top Cons c
    by (cases b; cases ks) (auto simp: d_exec_def calls_ok_def call_ok_def quiet_def)
qed

lemma calls_ok_step:
  assumes "calls_ok s" and "\<And>b. ev = Spawn_task b \<Longrightarrow> quiet b"
  shows "calls_ok (d_step ev s)"
proof (cases ev)
  case Exec
  with assms(1) calls_ok_exec [OF assms(1)] show ?thesis by (simp add: d_step_def)
next
  case (Complete i r)
  have "list_all (\<lambda>(x, k, ks). \<forall>r. call_ok (k r, ks)) (take i (d_io s) @ drop (Suc i) (d_io s))"
    using assms(1) by (fastforce simp: calls_ok_def list_all_iff dest: in_set_takeD in_set_dropD)
  moreover have "case d_io s ! i of (x, k, ks) \<Rightarrow> call_ok (k r, ks)" if "i < length (d_io s)"
    using assms(1) that by (fastforce simp: calls_ok_def list_all_length)
  ultimately show ?thesis
    using Complete assms(1) by (auto simp: d_step_def d_complete_def calls_ok_def split: prod.splits)
next
  case (Spawn_task b)
  with assms show ?thesis by (auto simp: d_step_def calls_ok_def call_ok_def quiet_def)
qed

lemma calls_ok_run:
  "calls_ok s \<Longrightarrow> (\<And>b. Spawn_task b \<in> set evs \<Longrightarrow> quiet b) \<Longrightarrow> calls_ok (fold d_step evs s)"
proof (induction evs arbitrary: s)
  case (Cons ev evs)
  then show ?case using calls_ok_step [of s ev] by auto
qed simp

subsection \<open>Properties\<close>

text \<open>
  C17. No exception brings the process down: whatever the operations of the queue answer and
  throw, in whatever order they complete, no exception ever leaves one of the coroutines that
  the server spawns (the accept loop, \<open>accept_one\<close>, the request handlers under
  \<open>tracked\<close>) or the client spawns (\<open>connect_task\<close>, \<open>send_request\<close>, and
  \<open>reader_loop\<close> once its stream is created), so \<open>std::terminate\<close> is not called.
\<close>

theorem spawned_tasks_never_terminate:
  assumes "\<And>b. Spawn_task b \<in> set evs \<Longrightarrow> program_task b"
  shows "\<not> m_terminated (fold m_step evs m_init)"
proof -
  have "calls_ok d_init" by (simp add: calls_ok_def d_init_def)
  then have "calls_ok (fold d_step evs d_init)" using calls_ok_run assms program_task_quiet by blast
  with sim_run [OF sim_init, of evs] show ?thesis by (simp add: sim_def calls_ok_def)
qed

theorem spawned_tasks_never_terminate_witness:
  "\<not> m_terminated (fold m_step
     [Spawn_task (connect_task (Throw (System_error ECONNRESET)) ''done''), Exec, Exec, Exec] m_init)"
  by (rule spawned_tasks_never_terminate) (auto intro: program_task.connector)

text \<open>
  The exception to this is creating the receive stream in the client's
  \<open>reader_loop\<close>, which happens outside its \<open>try\<close> block: whatever it throws calls
  \<open>std::terminate\<close> as soon as the \<open>Client\<close> constructor spawns the loop, instead of
  becoming the error code of \<open>easybd_client_create\<close>; the same failure on a server
  connection only ends that connection.
\<close>

lemma reader_loop_stream_failure:
  "m_terminated (fold m_step [Spawn_task (reader_loop_co (Inl e) rh known u), Exec] m_init)
   \<and> quiet (accept_one (handle_connection_co (Inl e) (Return u) (\<lambda>_. Fail) wait u) (Return u) u)"
proof
  have "d_terminated (fold d_step [Spawn_task (reader_loop_co (Inl e) rh known u), Exec] d_init)"
    by (simp add: d_step_def d_init_def d_exec_def reader_loop_co_def run_co_simps)
  then show "m_terminated (fold m_step [Spawn_task (reader_loop_co (Inl e) rh known u), Exec] m_init)"
    using sim_run [OF sim_init, of "[Spawn_task (reader_loop_co (Inl e) rh known u), Exec]"] by (simp add: sim_def)
  show "quiet (accept_one (handle_connection_co (Inl e) (Return u) (\<lambda>_. Fail) wait u) (Return u) u)"
    by (intro quiet_accept_one contained_connection) (simp_all add: todo_fail)
qed

end
