(* ===== verification/Protocol.thy ===== *)
theory Protocol
  imports Prelude
begin

text \<open>
  The wire protocol of \<open>include/easybd/protocol.h\<close>: the two packed
  headers, the operation codes, the payload limit, and the \<open>memcpy\<close>
  between a header and its bytes. The sources never convert byte order; a header
  travels in the order of the machine that built it, so the conversion is
  parameterised by the machine's order and the round trips hold for either one.
\<close>

unbundle bit_operations_syntax

subsection \<open>Definitions\<close>

datatype byte_order = Little_endian | Big_endian

text \<open>The bytes of an unsigned 64-bit integer, least significant first, and back.\<close>

definition le_bytes :: "u64 \<Rightarrow> byte list" where
  "le_bytes w = map (\<lambda>i. ucast (drop_bit (8 * i) w)) [0..<8]"

definition le_word :: "byte list \<Rightarrow> u64" where
  "le_word bs = foldr (\<lambda>b acc. ucast b OR push_bit 8 acc) bs 0"

text \<open>The object representation of a \<open>uint64_t\<close> on a machine of the given order.\<close>

definition bytes_of_u64 :: "byte_order \<Rightarrow> u64 \<Rightarrow> byte list" where
  "bytes_of_u64 bo w = (case bo of Little_endian \<Rightarrow> le_bytes w | Big_endian \<Rightarrow> rev (le_bytes w))"

definition u64_of_bytes :: "byte_order \<Rightarrow> byte list \<Rightarrow> u64" where
  "u64_of_bytes bo bs = (case bo of Little_endian \<Rightarrow> le_word bs | Big_endian \<Rightarrow> le_word (rev bs))"

definition EASYBD_OP_READ :: u8 where [io_simps]: "EASYBD_OP_READ = 0"
definition EASYBD_OP_WRITE :: u8 where [io_simps]: "EASYBD_OP_WRITE = 1"
definition EASYBD_OP_WRITE_SYNC :: u8 where [io_simps]: "EASYBD_OP_WRITE_SYNC = 2"

definition EASYBD_MAX_PAYLOAD_SIZE :: u64 where
  [io_simps]: "EASYBD_MAX_PAYLOAD_SIZE = 4 * 1024 * 1024"

record EasyBDRequestHeader =
  rq_cid :: u64
  rq_offset :: u64
  rq_size :: u64
  rq_op :: u8

record EasyBDResponseHeader =
  rs_cid :: u64
  rs_res :: i64

definition sizeof_EasyBDRequestHeader :: nat where
  [io_simps]: "sizeof_EasyBDRequestHeader = 25"

definition sizeof_EasyBDResponseHeader :: nat where
  [io_simps]: "sizeof_EasyBDResponseHeader = 16"

definition bytes_of_request :: "byte_order \<Rightarrow> EasyBDRequestHeader \<Rightarrow> byte list" where
  "bytes_of_request bo h =
     bytes_of_u64 bo (rq_cid h) @ bytes_of_u64 bo (rq_offset h) @
     bytes_of_u64 bo (rq_size h) @ [rq_op h]"

definition request_of_bytes :: "byte_order \<Rightarrow> byte list \<Rightarrow> EasyBDRequestHeader" where
  "request_of_bytes bo bs =
     \<lparr>rq_cid = u64_of_bytes bo (take 8 bs),
      rq_offset = u64_of_bytes bo (take 8 (drop 8 bs)),
      rq_size = u64_of_bytes bo (take 8 (drop 16 bs)),
      rq_op = bs ! 24\<rparr>"

definition bytes_of_response :: "byte_order \<Rightarrow> EasyBDResponseHeader \<Rightarrow> byte list" where
  "bytes_of_response bo h = bytes_of_u64 bo (rs_cid h) @ bytes_of_u64 bo (rs_res h)"

definition response_of_bytes :: "byte_order \<Rightarrow> byte list \<Rightarrow> EasyBDResponseHeader" where
  "response_of_bytes bo bs =
     \<lparr>rs_cid = u64_of_bytes bo (take 8 bs),
      rs_res = u64_of_bytes bo (take 8 (drop 8 bs))\<rparr>"

text \<open>
  How many payload bytes follow a request header on the wire, and how many follow
  a response header when the request it answers was a read.
\<close>

definition is_write_op :: "u8 \<Rightarrow> bool" where
  "is_write_op op \<longleftrightarrow> op = EASYBD_OP_WRITE \<or> op = EASYBD_OP_WRITE_SYNC"

definition request_payload_len :: "EasyBDRequestHeader \<Rightarrow> nat" where
  "request_payload_len h = (if is_write_op (rq_op h) then unat (rq_size h) else 0)"

definition response_payload_len :: "bool \<Rightarrow> EasyBDResponseHeader \<Rightarrow> nat" where
  "response_payload_len is_read h = (if is_read \<and> 0 < sint (rs_res h) then nat (sint (rs_res h)) else 0)"

subsection \<open>Bytes of a 64-bit word\<close>

lemma length_le_bytes [simp]: "length (le_bytes w) = 8"
  by (simp add: le_bytes_def)

lemma length_bytes_of_u64 [simp]: "length (bytes_of_u64 bo w) = 8"
  by (cases bo) (simp_all add: bytes_of_u64_def)

lemma bit_le_word:
  "bit (le_word bs) n \<longleftrightarrow> n < 64 \<and> n div 8 < length bs \<and> bit (bs ! (n div 8)) (n mod 8)"
proof (induction bs arbitrary: n)
  case Nil
  then show ?case by (simp add: le_word_def)
next
  case (Cons b bs)
  have step: "le_word (b # bs) = ucast b OR push_bit 8 (le_word bs)"
    by (simp add: le_word_def)
  show ?case
  proof (cases "n < 8")
    case True
    then show ?thesis by (simp add: step bit_simps)
  next
    case False
    then obtain m where n: "n = m + 8" by (metis add.commute le_Suc_ex not_less)
    have "\<not> bit (ucast b :: u64) n"
      using False by (auto simp: bit_simps dest: bit_imp_le_length)
    moreover have "n div 8 = Suc (m div 8)" and "n mod 8 = m mod 8" and "n - 8 = m"
      by (simp_all add: n)
    ultimately show ?thesis
      using n by (auto simp: step bit_simps Cons.IH)
  qed
qed

lemma le_word_le_bytes [simp]: "le_word (le_bytes w) = w"
proof (rule bit_word_eqI)
  fix n assume "n < LENGTH(64)"
  then have "n div 8 < 8" and "n < 64" by simp_all
  moreover have "n div 8 * 8 + n mod 8 = n" by simp
  ultimately show "bit (le_word (le_bytes w)) n = bit w n"
    by (auto simp: bit_le_word le_bytes_def bit_drop_bit_eq bit_ucast_iff mult.commute
        less_mult_imp_div_less)
qed

lemma le_bytes_le_word:
  assumes "length bs = 8"
  shows "le_bytes (le_word bs) = bs"
proof (rule nth_equalityI)
  show "length (le_bytes (le_word bs)) = length bs" using assms by simp
next
  fix i assume "i < length (le_bytes (le_word bs))"
  then have i: "i < 8" by simp
  show "le_bytes (le_word bs) ! i = bs ! i"
  proof (rule bit_word_eqI)
    fix n assume n: "n < LENGTH(8)"
    with i assms show "bit (le_bytes (le_word bs) ! i) n = bit (bs ! i) n"
      by (auto simp: le_bytes_def bit_simps bit_le_word)
  qed
qed

lemma u64_of_bytes_of_u64 [simp]: "u64_of_bytes bo (bytes_of_u64 bo w) = w"
  by (cases bo) (simp_all add: u64_of_bytes_def bytes_of_u64_def)

lemma bytes_of_u64_of_bytes:
  "length bs = 8 \<Longrightarrow> bytes_of_u64 bo (u64_of_bytes bo bs) = bs"
  by (cases bo) (simp_all add: u64_of_bytes_def bytes_of_u64_def le_bytes_le_word)

subsection \<open>Headers\<close>

lemma length_bytes_of_request [simp]:
  "length (bytes_of_request bo h) = sizeof_EasyBDRequestHeader"
  by (simp add: bytes_of_request_def sizeof_EasyBDRequestHeader_def)

lemma length_bytes_of_response [simp]:
  "length (bytes_of_response bo h) = sizeof_EasyBDResponseHeader"
  by (simp add: bytes_of_response_def sizeof_EasyBDResponseHeader_def)

lemma request_of_bytes_of_request [simp]:
  "request_of_bytes bo (bytes_of_request bo h) = h"
  by (simp add: request_of_bytes_def bytes_of_request_def nth_append)

lemma response_of_bytes_of_response [simp]:
  "response_of_bytes bo (bytes_of_response bo h) = h"
  by (simp add: response_of_bytes_def bytes_of_response_def)

lemma split_header_bytes:
  assumes "length bs = 25"
  shows "bs = take 8 bs @ take 8 (drop 8 bs) @ take 8 (drop 16 bs) @ [bs ! 24]"
proof -
  have "drop 24 bs = [bs ! 24]"
    using assms Cons_nth_drop_Suc [of 24 bs] by simp
  then have "take 8 (drop 16 bs) @ [bs ! 24] = drop 16 bs"
    using append_take_drop_id [of 8 "drop 16 bs"] by simp
  then have "take 8 (drop 8 bs) @ take 8 (drop 16 bs) @ [bs ! 24] = drop 8 bs"
    using append_take_drop_id [of 8 "drop 8 bs"] by simp
  then show ?thesis using append_take_drop_id [of 8 bs] by simp
qed

lemma bytes_of_request_of_bytes:
  assumes "length bs = sizeof_EasyBDRequestHeader"
  shows "bytes_of_request bo (request_of_bytes bo bs) = bs"
proof -
  have "length bs = 25" using assms by (simp add: sizeof_EasyBDRequestHeader_def)
  then show ?thesis
    using split_header_bytes [of bs]
    by (simp add: bytes_of_request_def request_of_bytes_def bytes_of_u64_of_bytes)
qed

lemma max_payload_nat: "unat EASYBD_MAX_PAYLOAD_SIZE = 4194304"
  by (simp add: EASYBD_MAX_PAYLOAD_SIZE_def)

text \<open>
  Request headers survive the wire in either byte order: decoding the bytes of a
  header gives the header back, and re-encoding received bytes of header size gives
  these bytes back, so no two headers share an encoding and every 25-byte string is one.
\<close>

lemma request_header_bijection:
  assumes "length bs = sizeof_EasyBDRequestHeader"
  shows "request_of_bytes bo (bytes_of_request bo h) = h
    \<and> bytes_of_request bo (request_of_bytes bo bs) = bs"
  using assms by (simp add: bytes_of_request_of_bytes)

end
