(* ===== verification/Session.thy ===== *)
theory Session
  imports Protocol Framed_Reader
begin

text \<open>
  The reader coroutine of one server connection, \<open>handle_connection\<close> in
  \<open>server/session.cpp\<close>: one turn of its loop reads a request header, for a write also
  the payload, and spawns the handler of the request or ends the loop. It runs over any
  receive stream; \<open>spec_turn\<close> is the same over the plain bytes. What the handlers do
  after they are spawned is the theory \<open>Connection\<close>.
\<close>

subsection \<open>Definitions\<close>

definition kRecvEntrySize :: nat where "kRecvEntrySize = 131072"
definition kRecvEntries :: nat where "kRecvEntries = 4"

text \<open>
  The \<open>AlignedBuffer\<close> constructor of \<open>server/aligned_buffer.hpp\<close>; \<open>alloc\<close>
  says for which sizes \<open>posix_memalign\<close> succeeds.
\<close>

definition aligned_buffer :: "(nat \<Rightarrow> bool) \<Rightarrow> nat \<Rightarrow> exn + byte list" where
  "aligned_buffer alloc n =
     (if n = 0 then Inr [] else if alloc n then Inr (replicate n 0) else Inl Bad_alloc)"

text \<open>The handlers a turn can spawn, with their arguments.\<close>

datatype request =
    Write_req u64 u64 "byte list" bool
  | Read_req u64 u64 u64
  | Error_req u64 errno

datatype turn = Spawn request | Stop exn

definition too_large_exn :: exn where
  "too_large_exn = Runtime_error ''easybd: write request exceeds EASYBD_MAX_PAYLOAD_SIZE''"

definition invalid_op_exn :: exn where
  "invalid_op_exn = Runtime_error ''easybd: invalid request op''"

definition session_turn ::
  "'s next_batch \<Rightarrow> byte_order \<Rightarrow> (nat \<Rightarrow> bool) \<Rightarrow> reader \<times> 's \<Rightarrow> (turn \<times> reader \<times> 's) option" where
  "session_turn nb bo alloc rs =
     (case read_exact nb sizeof_EasyBDRequestHeader rs of
        None \<Rightarrow> None
      | Some (Inl e, rs1) \<Rightarrow> Some (Stop e, rs1)
      | Some (Inr header, rs1) \<Rightarrow>
          (let req = request_of_bytes bo header in
           if rq_op req = EASYBD_OP_WRITE \<or> rq_op req = EASYBD_OP_WRITE_SYNC then
             (if EASYBD_MAX_PAYLOAD_SIZE < rq_size req then Some (Stop too_large_exn, rs1)
              else
                (case aligned_buffer alloc (unat (rq_size req)) of
                   Inl e \<Rightarrow> Some (Stop e, rs1)
                 | Inr buf \<Rightarrow>
                     (case read_exact_into nb buf (unat (rq_size req)) rs1 of
                        None \<Rightarrow> None
                      | Some (Inl e, rs2) \<Rightarrow> Some (Stop e, rs2)
                      | Some (Inr payload, rs2) \<Rightarrow>
                          Some (Spawn (Write_req (rq_cid req) (rq_offset req) payload
                                  (rq_op req = EASYBD_OP_WRITE_SYNC)), rs2))))
           else if rq_op req = EASYBD_OP_READ then
             (if EASYBD_MAX_PAYLOAD_SIZE < rq_size req
              then Some (Spawn (Error_req (rq_cid req) EMSGSIZE), rs1)
              else Some (Spawn (Read_req (rq_cid req) (rq_offset req) (rq_size req)), rs1))
           else Some (Stop invalid_op_exn, rs1)))"

text \<open>
  The first \<open>n\<close> turns: the handlers spawned, and whether the loop goes on, waits for
  bytes that do not come, or has ended.
\<close>

datatype loop_state = Going | Waiting | Ended exn

fun session_run ::
  "'s next_batch \<Rightarrow> byte_order \<Rightarrow> (nat \<Rightarrow> bool) \<Rightarrow> nat \<Rightarrow> reader \<times> 's \<Rightarrow> request list \<times> loop_state" where
  "session_run nb bo alloc 0 rs = ([], Going)"
| "session_run nb bo alloc (Suc n) rs =
     (case session_turn nb bo alloc rs of
        None \<Rightarrow> ([], Waiting)
      | Some (Stop e, _) \<Rightarrow> ([], Ended e)
      | Some (Spawn r, rs') \<Rightarrow> apfst ((#) r) (session_run nb bo alloc n rs'))"

subsection \<open>Specification on the plain bytes\<close>

definition spec_turn ::
  "byte_order \<Rightarrow> (nat \<Rightarrow> bool) \<Rightarrow> byte list \<Rightarrow> stream_end option \<Rightarrow> (turn \<times> byte list) option" where
  "spec_turn bo alloc bs fin =
     (case spec_read sizeof_EasyBDRequestHeader bs fin of
        None \<Rightarrow> None
      | Some (Inl e) \<Rightarrow> Some (Stop e, [])
      | Some (Inr (header, rest)) \<Rightarrow>
          (let req = request_of_bytes bo header in
           if is_write_op (rq_op req) then
             (if EASYBD_MAX_PAYLOAD_SIZE < rq_size req then Some (Stop too_large_exn, rest)
              else if rq_size req \<noteq> 0 \<and> \<not> alloc (unat (rq_size req)) then Some (Stop Bad_alloc, rest)
              else
                (case spec_read (unat (rq_size req)) rest fin of
                   None \<Rightarrow> None
                 | Some (Inl e) \<Rightarrow> Some (Stop e, [])
                 | Some (Inr (payload, rest')) \<Rightarrow>
                     Some (Spawn (Write_req (rq_cid req) (rq_offset req) payload
                             (rq_op req = EASYBD_OP_WRITE_SYNC)), rest')))
           else if rq_op req = EASYBD_OP_READ then
             Some (Spawn (if EASYBD_MAX_PAYLOAD_SIZE < rq_size req
                          then Error_req (rq_cid req) EMSGSIZE
                          else Read_req (rq_cid req) (rq_offset req) (rq_size req)), rest)
           else Some (Stop invalid_op_exn, rest)))"

fun spec_run ::
  "byte_order \<Rightarrow> (nat \<Rightarrow> bool) \<Rightarrow> nat \<Rightarrow> byte list \<Rightarrow> stream_end option \<Rightarrow> request list \<times> loop_state" where
  "spec_run bo alloc 0 bs fin = ([], Going)"
| "spec_run bo alloc (Suc n) bs fin =
     (case spec_turn bo alloc bs fin of
        None \<Rightarrow> ([], Waiting)
      | Some (Stop e, _) \<Rightarrow> ([], Ended e)
      | Some (Spawn r, rest) \<Rightarrow> apfst ((#) r) (spec_run bo alloc n rest fin))"

text \<open>
  A request as a client sends it, the request the server is to see, and what the protocol
  allows.
\<close>

definition message_bytes :: "byte_order \<Rightarrow> EasyBDRequestHeader \<times> byte list \<Rightarrow> byte list" where
  "message_bytes bo m = bytes_of_request bo (fst m) @ snd m"

definition message_request :: "EasyBDRequestHeader \<times> byte list \<Rightarrow> request" where
  "message_request m =
     (let h = fst m in
      if is_write_op (rq_op h)
      then Write_req (rq_cid h) (rq_offset h) (snd m) (rq_op h = EASYBD_OP_WRITE_SYNC)
      else if EASYBD_MAX_PAYLOAD_SIZE < rq_size h then Error_req (rq_cid h) EMSGSIZE
      else Read_req (rq_cid h) (rq_offset h) (rq_size h))"

definition message_ok :: "(nat \<Rightarrow> bool) \<Rightarrow> EasyBDRequestHeader \<times> byte list \<Rightarrow> bool" where
  "message_ok alloc m \<longleftrightarrow> length (snd m) = request_payload_len (fst m)
     \<and> (if is_write_op (rq_op (fst m))
        then rq_size (fst m) \<le> EASYBD_MAX_PAYLOAD_SIZE \<and> (snd m \<noteq> [] \<longrightarrow> alloc (length (snd m)))
        else rq_op (fst m) = EASYBD_OP_READ)"

subsection \<open>The turns over a stream\<close>

context recv_stream
begin

lemma session_turn_spec:
  assumes "invar st" and "reader_inv r"
  shows "case spec_turn bo alloc (leftover r @ incoming st) (outcome st) of
      None \<Rightarrow> session_turn next_batch bo alloc (r, st) = None
    | Some (Stop e, _) \<Rightarrow> \<exists>rs'. session_turn next_batch bo alloc (r, st) = Some (Stop e, rs')
    | Some (Spawn q, rest) \<Rightarrow> \<exists>r' st'. session_turn next_batch bo alloc (r, st) = Some (Spawn q, r', st')
        \<and> reader_inv r' \<and> invar st' \<and> leftover r' @ incoming st' = rest \<and> outcome st' = outcome st"
  using read_exact_implements [OF assms, of sizeof_EasyBDRequestHeader]
proof (cases rule: implements_read_cases)
  case hang
  then show ?thesis by (simp add: session_turn_def spec_turn_def)
next
  case (failed e rs')
  then show ?thesis by (simp add: session_turn_def spec_turn_def)
next
  case (got header rest r1 st1)
  let ?req = "request_of_bytes bo header"
  have body: "implements_read (read_exact_into next_batch (replicate (unat (rq_size ?req)) 0)
      (unat (rq_size ?req)) (r1, st1)) incoming outcome invar (unat (rq_size ?req)) (r1, st1)"
    by (rule read_exact_into_implements [OF got(4,3)]) simp
  have buf: "aligned_buffer alloc (unat (rq_size ?req)) =
      (if rq_size ?req \<noteq> 0 \<and> \<not> alloc (unat (rq_size ?req)) then Inl Bad_alloc
       else Inr (replicate (unat (rq_size ?req)) 0))"
    by (simp add: aligned_buffer_def unat_eq_zero)
  show ?thesis
  proof (cases "is_write_op (rq_op ?req) \<and> rq_size ?req \<le> EASYBD_MAX_PAYLOAD_SIZE
      \<and> (rq_size ?req = 0 \<or> alloc (unat (rq_size ?req)))")
    case True
    with got body buf show ?thesis
      by (auto simp: session_turn_def spec_turn_def implements_read_def is_write_op_def Let_def
          split: option.splits sum.splits prod.splits)
  next
    case False
    with got buf show ?thesis
      by (auto simp: session_turn_def spec_turn_def is_write_op_def Let_def not_le)
  qed
qed

lemma session_run_spec:
  assumes "invar st" and "reader_inv r"
  shows "session_run next_batch bo alloc n (r, st)
    = spec_run bo alloc n (leftover r @ incoming st) (outcome st)"
  using assms
proof (induction n arbitrary: r st)
  case 0
  then show ?case by simp
next
  case (Suc n)
  from session_turn_spec [OF Suc.prems, of bo alloc] show ?case
    by (auto simp: Suc.IH split: option.splits turn.splits prod.splits)
qed

end

subsection \<open>Requests survive the trip\<close>

lemma spec_read_append: "length a = n \<Longrightarrow> spec_read n (a @ b) fin = Some (Inr (a, b))"
  by (auto simp: spec_read_def)

lemma spec_turn_message:
  assumes "message_ok alloc m"
  shows "spec_turn bo alloc (message_bytes bo m @ rest) fin = Some (Spawn (message_request m), rest)"
proof -
  obtain h payload where m: "m = (h, payload)" by (cases m)
  have hd: "spec_read sizeof_EasyBDRequestHeader (message_bytes bo m @ rest) fin
      = Some (Inr (bytes_of_request bo h, payload @ rest))"
    by (simp add: message_bytes_def m spec_read_append)
  show ?thesis
  proof (cases "is_write_op (rq_op h)")
    case True
    then have "spec_read (unat (rq_size h)) (payload @ rest) fin = Some (Inr (payload, rest))"
      using assms by (intro spec_read_append) (simp add: message_ok_def request_payload_len_def m)
    moreover have "\<not> (rq_size h \<noteq> 0 \<and> \<not> alloc (unat (rq_size h)))" "\<not> EASYBD_MAX_PAYLOAD_SIZE < rq_size h"
      using assms True
      by (auto simp: message_ok_def request_payload_len_def m not_less unat_eq_zero
          simp flip: length_greater_0_conv)
    ultimately show ?thesis using True hd by (simp add: spec_turn_def message_request_def m)
  next
    case False
    then have "payload = []" "rq_op h = EASYBD_OP_READ"
      using assms by (simp_all add: message_ok_def request_payload_len_def m)
    with False hd show ?thesis by (simp add: spec_turn_def message_request_def m Let_def)
  qed
qed

lemma spec_run_messages:
  assumes "list_all (message_ok alloc) ms"
  shows "spec_run bo alloc (length ms) (concat (map (message_bytes bo) ms) @ rest) fin
    = (map message_request ms, Going)"
  using assms by (induction ms) (simp_all add: spec_turn_message)

end
