(* ===== verification/Serial_Send.thy ===== *)
theory Serial_Send
  imports Mutex
begin

text \<open>
  Coroutines that send whole messages over one socket, serialised by an \<open>easyio::Mutex\<close>:
  the pattern shared by the request handlers of a server connection
  (\<open>server/session.cpp\<close>) and by \<open>Client::send_request\<close> (\<open>client/client.cpp\<close>),
  \<open>co_await lock_guard(mtx); co_await send_all(...)\<close>. A sender has any name. How many
  bytes a send takes, and whether it fails, is up to the socket; nothing in the code stops
  other senders from going on after a failure, and neither does the model.
\<close>

subsection \<open>Definitions\<close>

text \<open>
  A sender is queued for the mutex with its message, or holds it with so many bytes sent.
  \<open>sl_entered\<close>, \<open>sl_log\<close> and \<open>sl_late\<close> record history: the messages in the order
  their senders asked for the mutex, those sent completely before any send failed, and after.
\<close>

datatype sphase = Queued "byte list" | Sending "byte list" nat

record 'k serial =
  sl_mutex :: "'k mutex"
  sl_senders :: "'k \<rightharpoonup> sphase"
  sl_wire :: "byte list"
  sl_failed :: bool
  sl_entered :: "('k \<times> byte list) list"
  sl_log :: "('k \<times> byte list) list"
  sl_late :: "('k \<times> byte list) list"

definition serial_init :: "'k serial" where
  "serial_init = \<lparr>sl_mutex = mutex_init, sl_senders = Map.empty, sl_wire = [], sl_failed = False,
     sl_entered = [], sl_log = [], sl_late = []\<rparr>"

definition sl_enter :: "'k \<Rightarrow> byte list \<Rightarrow> 'k serial \<Rightarrow> 'k serial" where
  "sl_enter k msg s =
     (case lock_guard k (sl_mutex s) of (now, m) \<Rightarrow>
        s\<lparr>sl_mutex := m, sl_senders := (sl_senders s)(k \<mapsto> (if now then Sending msg 0 else Queued msg)),
          sl_entered := sl_entered s @ [(k, msg)]\<rparr>)"

text \<open>The guard is destroyed: the mutex passes to the sender it resumes.\<close>

definition resume_sender :: "'k option \<Rightarrow> ('k \<rightharpoonup> sphase) \<Rightarrow> ('k \<rightharpoonup> sphase)" where
  "resume_sender nxt sn =
     (case nxt of
        None \<Rightarrow> sn
      | Some k \<Rightarrow> (case sn k of Some (Queued msg) \<Rightarrow> sn(k \<mapsto> Sending msg 0) | _ \<Rightarrow> sn))"

definition sl_release :: "'k \<Rightarrow> 'k serial \<Rightarrow> 'k serial" where
  "sl_release k s =
     (case guard_destroy guard_acquired (sl_mutex s) of (nxt, m) \<Rightarrow>
        s\<lparr>sl_mutex := m, sl_senders := resume_sender nxt ((sl_senders s)(k := None))\<rparr>)"

text \<open>The socket takes \<open>n\<close> more bytes; \<open>send_all\<close> is done; \<open>send_all\<close> throws.\<close>

definition sl_send :: "'k \<Rightarrow> byte list \<Rightarrow> nat \<Rightarrow> nat \<Rightarrow> 'k serial \<Rightarrow> 'k serial" where
  "sl_send k msg j n s =
     s\<lparr>sl_wire := sl_wire s @ take n (drop j msg), sl_senders := (sl_senders s)(k \<mapsto> Sending msg (j + n))\<rparr>"

definition sl_sent :: "'k \<Rightarrow> byte list \<Rightarrow> 'k serial \<Rightarrow> 'k serial" where
  "sl_sent k msg s =
     sl_release k (if sl_failed s then s\<lparr>sl_late := sl_late s @ [(k, msg)]\<rparr> else s\<lparr>sl_log := sl_log s @ [(k, msg)]\<rparr>)"

definition sl_fail :: "'k \<Rightarrow> 'k serial \<Rightarrow> 'k serial" where
  "sl_fail k s = sl_release k (s\<lparr>sl_failed := True\<rparr>)"

inductive serial_step :: "'k serial \<Rightarrow> 'k serial \<Rightarrow> bool" where
  enter: "sl_senders s k = None \<Longrightarrow> serial_step s (sl_enter k msg s)"
| send: "sl_senders s k = Some (Sending msg j) \<Longrightarrow> 0 < n \<Longrightarrow> j + n \<le> length msg \<Longrightarrow>
    serial_step s (sl_send k msg j n s)"
| sent: "sl_senders s k = Some (Sending msg (length msg)) \<Longrightarrow> serial_step s (sl_sent k msg s)"
| fail: "sl_senders s k = Some (Sending msg j) \<Longrightarrow> j < length msg \<Longrightarrow> serial_step s (sl_fail k s)"

text \<open>What the operations leave alone.\<close>

lemma sl_enter_sel [simp]:
  "sl_senders (sl_enter k msg s) x = (if x = k then Some (if fst (lock_guard k (sl_mutex s)) then Sending msg 0 else Queued msg)
     else sl_senders s x)"
  "sl_entered (sl_enter k msg s) = sl_entered s @ [(k, msg)]" "sl_log (sl_enter k msg s) = sl_log s"
  "sl_failed (sl_enter k msg s) = sl_failed s" "sl_wire (sl_enter k msg s) = sl_wire s"
  by (simp_all add: sl_enter_def split: prod.split)

lemma resume_sender_dom [simp]: "(resume_sender nxt sn x = None) = (sn x = None)"
  by (auto simp: resume_sender_def split: option.split sphase.split)

lemma sl_release_frame [simp]:
  "(sl_senders (sl_release k s) x = None) = (x = k \<or> sl_senders s x = None)"
  "sl_entered (sl_release k s) = sl_entered s" "sl_log (sl_release k s) = sl_log s"
  "sl_failed (sl_release k s) = sl_failed s" "sl_wire (sl_release k s) = sl_wire s"
  by (simp_all add: sl_release_def split: prod.split)

lemma sl_sent_frame [simp]:
  "(sl_senders (sl_sent k msg s) x = None) = (x = k \<or> sl_senders s x = None)"
  "sl_entered (sl_sent k msg s) = sl_entered s" "sl_failed (sl_sent k msg s) = sl_failed s"
  "sl_log (sl_sent k msg s) = (if sl_failed s then sl_log s else sl_log s @ [(k, msg)])" "sl_wire (sl_sent k msg s) = sl_wire s"
  by (simp_all add: sl_sent_def)

lemma sl_fail_frame [simp]:
  "(sl_senders (sl_fail k s) x = None) = (x = k \<or> sl_senders s x = None)"
  "sl_entered (sl_fail k s) = sl_entered s" "sl_failed (sl_fail k s)" "sl_log (sl_fail k s) = sl_log s"
  by (simp_all add: sl_fail_def)

lemma sl_send_frame [simp]:
  "(sl_senders (sl_send k msg j n s) x = None) = (x \<noteq> k \<and> sl_senders s x = None)"
  "sl_entered (sl_send k msg j n s) = sl_entered s" "sl_log (sl_send k msg j n s) = sl_log s"
  "sl_failed (sl_send k msg j n s) = sl_failed s"
  by (auto simp: sl_send_def)

subsection \<open>The invariant\<close>

fun msg_of :: "sphase \<Rightarrow> byte list" where
  "msg_of (Queued msg) = msg"
| "msg_of (Sending msg j) = msg"

definition sender_msg :: "('k \<rightharpoonup> sphase) \<Rightarrow> 'k \<Rightarrow> byte list" where
  "sender_msg sn k = (case sn k of None \<Rightarrow> [] | Some p \<Rightarrow> msg_of p)"

definition is_sending :: "sphase option \<Rightarrow> bool" where
  "is_sending p \<longleftrightarrow> (\<exists>msg j. p = Some (Sending msg j))"

definition is_queued :: "sphase option \<Rightarrow> bool" where
  "is_queued p \<longleftrightarrow> (\<exists>msg. p = Some (Queued msg))"

text \<open>The mutex agrees with the senders: one holds it, and the queue holds the queued ones.\<close>

definition lock_ok :: "'k option \<Rightarrow> 'k mutex \<Rightarrow> ('k \<rightharpoonup> sphase) \<Rightarrow> bool" where
  "lock_ok holder m sn \<longleftrightarrow> mx.agrees m holder \<and> (\<forall>k. is_sending (sn k) \<longleftrightarrow> holder = Some k)
     \<and> (\<forall>k. is_queued (sn k) \<longleftrightarrow> k \<in> set (mx_waiters m))
     \<and> (\<forall>k msg j. sn k = Some (Sending msg j) \<longrightarrow> j \<le> length msg)"

text \<open>What is in the socket of the holder's message, and who is still to send, in order.\<close>

definition sent_part :: "'k option \<Rightarrow> ('k \<rightharpoonup> sphase) \<Rightarrow> byte list" where
  "sent_part holder sn =
     (case holder of None \<Rightarrow> [] | Some k \<Rightarrow> (case sn k of Some (Sending msg j) \<Rightarrow> take j msg | _ \<Rightarrow> []))"

definition to_send :: "'k option \<Rightarrow> 'k mutex \<Rightarrow> ('k \<rightharpoonup> sphase) \<Rightarrow> ('k \<times> byte list) list" where
  "to_send holder m sn =
     map (\<lambda>k. (k, sender_msg sn k)) ((case holder of None \<Rightarrow> [] | Some k \<Rightarrow> [k]) @ mx_waiters m)"

definition wire_whole :: "'k option \<Rightarrow> 'k serial \<Rightarrow> bool" where
  "wire_whole holder s \<longleftrightarrow> sl_wire s = concat (map snd (sl_log s)) @ sent_part holder (sl_senders s)
     \<and> sl_entered s = sl_log s @ to_send holder (sl_mutex s) (sl_senders s) \<and> sl_late s = []"

text \<open>After a failure: whole messages, a proper part of the next one, and anything.\<close>

definition wire_broken :: "'k serial \<Rightarrow> bool" where
  "wire_broken s \<longleftrightarrow> (\<exists>k msg later part rest. sl_entered s = sl_log s @ (k, msg) # later
     \<and> sl_wire s = concat (map snd (sl_log s)) @ part @ rest \<and> strict_prefix part msg)"

definition serial_inv :: "'k serial \<Rightarrow> bool" where
  "serial_inv s \<longleftrightarrow> (\<exists>holder. lock_ok holder (sl_mutex s) (sl_senders s)
     \<and> (if sl_failed s then wire_broken s else wire_whole holder s))"

lemma phase_simps [simp]:
  "is_sending (Some (Sending msg j))" "\<not> is_sending None" "\<not> is_sending (Some (Queued msg))"
  "is_queued (Some (Queued msg))" "\<not> is_queued None" "\<not> is_queued (Some (Sending msg j))"
  by (simp_all add: is_sending_def is_queued_def)

lemma lock_ok_enter:
  assumes "lock_ok holder m sn" and "sn k = None" and "lock_guard k m = (now, m')"
  shows "lock_ok (if now then Some k else holder) m' (sn(k \<mapsto> (if now then Sending msg 0 else Queued msg)))"
    and "now \<longleftrightarrow> holder = None" and "mx_waiters m' = (if now then mx_waiters m else mx_waiters m @ [k])"
proof -
  have h: "mx.agrees m holder" "\<forall>k. is_sending (sn k) \<longleftrightarrow> holder = Some k"
    "\<forall>k. is_queued (sn k) \<longleftrightarrow> k \<in> set (mx_waiters m)"
    using assms(1) by (auto simp: lock_ok_def)
  have free: "holder \<noteq> Some k" "k \<notin> set (mx_waiters m)"
    using h(2,3) assms(2) by (metis phase_simps(2), metis phase_simps(5))
  note l = mx.agrees_lock [OF h(1) assms(3) free]
  from l(1,3) show "now \<longleftrightarrow> holder = None" "mx_waiters m' = (if now then mx_waiters m else mx_waiters m @ [k])"
    by simp_all
  show "lock_ok (if now then Some k else holder) m' (sn(k \<mapsto> (if now then Sending msg 0 else Queued msg)))"
    using assms(1) h l free by (auto simp: lock_ok_def)
qed

lemma to_send_enter:
  assumes "lock_ok holder m sn" and "sn k = None" and "lock_guard k m = (now, m')"
  shows "to_send (if now then Some k else holder) m' (sn(k \<mapsto> (if now then Sending msg 0 else Queued msg)))
      = to_send holder m sn @ [(k, msg)]"
    and "sent_part (if now then Some k else holder) (sn(k \<mapsto> (if now then Sending msg 0 else Queued msg)))
      = sent_part holder sn"
proof -
  note e = lock_ok_enter(2,3) [OF assms]
  have agr: "mx.agrees m holder" and k: "k \<notin> set (mx_waiters m)" "holder \<noteq> Some k"
    using assms(1,2) by (auto simp: lock_ok_def) (metis phase_simps(5), metis phase_simps(2))
  show "to_send (if now then Some k else holder) m' (sn(k \<mapsto> (if now then Sending msg 0 else Queued msg)))
      = to_send holder m sn @ [(k, msg)]"
    using e k agr by (auto simp: to_send_def sender_msg_def mx.agrees_def split: option.split)
  show "sent_part (if now then Some k else holder) (sn(k \<mapsto> (if now then Sending msg 0 else Queued msg)))
      = sent_part holder sn"
    using e k by (auto simp: sent_part_def split: option.split)
qed

text \<open>Releasing: the next sender in the queue starts, or nobody holds the mutex.\<close>

lemma lock_ok_release:
  assumes "lock_ok (Some k) m sn" and "mutex_unlock m = (nxt, m')"
  shows "lock_ok nxt m' (resume_sender nxt (sn(k := None)))"
    and "to_send (Some k) m sn = (k, sender_msg sn k) # to_send nxt m' (resume_sender nxt (sn(k := None)))"
    and "sent_part nxt (resume_sender nxt (sn(k := None))) = []"
proof -
  have h: "mx.agrees m (Some k)" "\<forall>x. is_sending (sn x) \<longleftrightarrow> x = k"
    "\<forall>x. is_queued (sn x) \<longleftrightarrow> x \<in> set (mx_waiters m)" "\<forall>x msg j. sn x = Some (Sending msg j) \<longrightarrow> j \<le> length msg"
    using assms(1) by (auto simp: lock_ok_def)
  note u = mx.agrees_unlock [OF h(1) assms(2)]
  have ag: "distinct (mx_waiters m)" "k \<notin> set (mx_waiters m)"
    using h(1) by (auto simp: mx.agrees_def)
  have "lock_ok nxt m' (resume_sender nxt (sn(k := None)))
    \<and> to_send (Some k) m sn = (k, sender_msg sn k) # to_send nxt m' (resume_sender nxt (sn(k := None)))
    \<and> sent_part nxt (resume_sender nxt (sn(k := None))) = []"
  proof (cases nxt)
    case None
    then have w: "mx_waiters m = []" "mx_waiters m' = []" using u by auto
    with None u(1) h show ?thesis
      by (auto simp: lock_ok_def resume_sender_def to_send_def sent_part_def)
  next
    case (Some j)
    have w: "mx_waiters m = j # mx_waiters m'" using u(2) Some by simp
    then have "is_queued (sn j)" "j \<noteq> k" using h(3) ag by auto
    then obtain msg where j: "sn j = Some (Queued msg)" "j \<noteq> k" by (auto simp: is_queued_def)
    let ?sn = "sn(k := None, j \<mapsto> Sending msg 0)"
    have r: "resume_sender nxt (sn(k := None)) = ?sn"
      using Some j by (simp add: resume_sender_def)
    have "is_sending (?sn x) = (nxt = Some x)" for x
      using h(2) Some j by auto
    moreover have "is_queued (?sn x) = (x \<in> set (mx_waiters m'))" for x
      using h(2,3) w j ag by auto
    moreover have "\<forall>x msg' i. ?sn x = Some (Sending msg' i) \<longrightarrow> i \<le> length msg'" using h(4) by auto
    ultimately have "lock_ok nxt m' ?sn" using u(1) by (simp only: lock_ok_def simp_thms)
    moreover have "sender_msg ?sn x = sender_msg sn x" if "x \<in> set (mx_waiters m)" for x
      using that j ag by (auto simp: sender_msg_def)
    then have "to_send (Some k) m sn = (k, sender_msg sn k) # to_send nxt m' ?sn"
      using Some w by (simp add: to_send_def)
    moreover have "sent_part nxt ?sn = []" using Some by (simp add: sent_part_def)
    ultimately show ?thesis by (simp only: r simp_thms)
  qed
  then show "lock_ok nxt m' (resume_sender nxt (sn(k := None)))"
    "to_send (Some k) m sn = (k, sender_msg sn k) # to_send nxt m' (resume_sender nxt (sn(k := None)))"
    "sent_part nxt (resume_sender nxt (sn(k := None))) = []" by blast+
qed

lemma sl_release_sel:
  assumes "mutex_unlock (sl_mutex s) = (nxt, m)"
  shows "sl_release k s = s\<lparr>sl_mutex := m, sl_senders := resume_sender nxt ((sl_senders s)(k := None))\<rparr>"
  using assms by (simp add: sl_release_def)

lemma lock_ok_holder: "lock_ok holder m sn \<Longrightarrow> sn k = Some (Sending msg j) \<Longrightarrow> holder = Some k"
  unfolding lock_ok_def by (metis phase_simps(1))

subsection \<open>Every step keeps it\<close>

lemma wire_broken_more:
  assumes "wire_broken s" and "sl_log s' = sl_log s" and "sl_entered s' = sl_entered s @ es"
    and "sl_wire s' = sl_wire s @ bs"
  shows "wire_broken s'"
proof -
  from assms(1) obtain k msg later part rest where "sl_entered s = sl_log s @ (k, msg) # later"
    "sl_wire s = concat (map snd (sl_log s)) @ part @ rest" "strict_prefix part msg"
    by (auto simp: wire_broken_def)
  with assms(2-4) show ?thesis
    unfolding wire_broken_def by (intro exI [of _ k] exI [of _ msg] exI [of _ "later @ es"] exI [of _ part] exI [of _ "rest @ bs"]) simp
qed

lemma serial_inv_init: "serial_inv serial_init"
  by (auto simp: serial_inv_def serial_init_def lock_ok_def mx.agrees_def mutex_init_def wire_whole_def
      sent_part_def to_send_def intro!: exI [of _ None])

lemma serial_inv_enter:
  assumes "serial_inv s" and "sl_senders s k = None"
  shows "serial_inv (sl_enter k msg s)"
proof -
  obtain holder where l: "lock_ok holder (sl_mutex s) (sl_senders s)"
    and w: "if sl_failed s then wire_broken s else wire_whole holder s"
    using assms(1) by (auto simp: serial_inv_def)
  obtain now m where g: "lock_guard k (sl_mutex s) = (now, m)" by fastforce
  note e = lock_ok_enter(1) [OF l assms(2) g, of msg] to_send_enter [OF l assms(2) g, of msg]
  have "if sl_failed s then wire_broken (sl_enter k msg s) else wire_whole (if now then Some k else holder) (sl_enter k msg s)"
    using w e(2,3) g by (auto simp: wire_broken_def wire_whole_def sl_enter_def split: if_splits)
  with e(1) g show ?thesis
    unfolding serial_inv_def by (intro exI [of _ "if now then Some k else holder"]) (simp add: sl_enter_def)
qed

lemma serial_inv_send:
  assumes "serial_inv s" and "sl_senders s k = Some (Sending msg j)" and "j + n \<le> length msg"
  shows "serial_inv (sl_send k msg j n s)"
proof -
  obtain holder where l: "lock_ok holder (sl_mutex s) (sl_senders s)"
    and w: "if sl_failed s then wire_broken s else wire_whole holder s"
    using assms(1) by (auto simp: serial_inv_def)
  have h: "holder = Some k" by (rule lock_ok_holder [OF l assms(2)])
  have "lock_ok holder (sl_mutex s) ((sl_senders s)(k \<mapsto> Sending msg (j + n)))"
    using l assms h by (auto simp: lock_ok_def mx.agrees_def)
  moreover have "sender_msg ((sl_senders s)(k \<mapsto> Sending msg (j + n))) = sender_msg (sl_senders s)"
    using assms(2) by (auto simp: sender_msg_def)
  moreover have "wire_broken (sl_send k msg j n s)" if "sl_failed s"
    by (rule wire_broken_more [of s _ "[]" "take n (drop j msg)"]) (use that w in \<open>simp_all add: sl_send_def\<close>)
  ultimately show ?thesis
    using w assms(2) h
    by (auto simp: serial_inv_def sl_send_def wire_whole_def sent_part_def to_send_def take_add split: if_splits)
qed

lemma serial_inv_sent:
  assumes "serial_inv s" and "sl_senders s k = Some (Sending msg (length msg))"
  shows "serial_inv (sl_sent k msg s)"
proof -
  obtain holder where l: "lock_ok holder (sl_mutex s) (sl_senders s)"
    and w: "if sl_failed s then wire_broken s else wire_whole holder s"
    using assms(1) by (auto simp: serial_inv_def)
  have h: "holder = Some k" by (rule lock_ok_holder [OF l assms(2)])
  obtain nxt m where u: "mutex_unlock (sl_mutex s) = (nxt, m)" by fastforce
  note r = lock_ok_release [OF l [unfolded h] u]
  have msg: "sender_msg (sl_senders s) k = msg" using assms(2) by (simp add: sender_msg_def)
  have "if sl_failed s then wire_broken (sl_sent k msg s) else wire_whole nxt (sl_sent k msg s)"
    using w r(2,3) msg assms(2) h
    by (auto simp: wire_broken_def wire_whole_def sl_sent_def sl_release_sel u sent_part_def split: if_splits)
  moreover have "sl_failed (sl_sent k msg s) = sl_failed s" "sl_mutex (sl_sent k msg s) = m"
    "sl_senders (sl_sent k msg s) = resume_sender nxt ((sl_senders s)(k := None))"
    by (simp_all add: sl_sent_def sl_release_sel u)
  ultimately show ?thesis
    using r(1) unfolding serial_inv_def by (intro exI [of _ nxt]) (simp only: simp_thms)
qed

lemma serial_inv_fail:
  assumes "serial_inv s" and "sl_senders s k = Some (Sending msg j)" and "j < length msg"
  shows "serial_inv (sl_fail k s)"
proof -
  obtain holder where l: "lock_ok holder (sl_mutex s) (sl_senders s)"
    and w: "if sl_failed s then wire_broken s else wire_whole holder s"
    using assms(1) by (auto simp: serial_inv_def)
  have h: "holder = Some k" by (rule lock_ok_holder [OF l assms(2)])
  obtain nxt m where u: "mutex_unlock (sl_mutex s) = (nxt, m)" by fastforce
  note r = lock_ok_release [OF l [unfolded h] u]
  have msg: "sender_msg (sl_senders s) k = msg" using assms(2) by (simp add: sender_msg_def)
  have "wire_broken s"
  proof (cases "sl_failed s")
    case False
    then have "sl_entered s = sl_log s @ (k, msg) # to_send nxt m (resume_sender nxt ((sl_senders s)(k := None)))"
      "sl_wire s = concat (map snd (sl_log s)) @ take j msg @ []"
      using w r(2) msg assms(2) h by (simp_all add: wire_whole_def sent_part_def)
    moreover have "strict_prefix (take j msg) msg"
      using assms(3) by (metis length_take less_irrefl min_less_iff_conj strict_prefix_def take_is_prefix)
    ultimately show ?thesis unfolding wire_broken_def by blast
  qed (use w in simp)
  then have "wire_broken (sl_fail k s)"
    by (simp add: wire_broken_def sl_fail_def sl_release_sel u)
  with r(1) show ?thesis
    unfolding serial_inv_def by (intro exI [of _ nxt]) (simp add: sl_fail_def sl_release_sel u)
qed

lemma serial_step_inv: "serial_step s s' \<Longrightarrow> serial_inv s \<Longrightarrow> serial_inv s'"
  by (induction rule: serial_step.induct)
    (auto intro: serial_inv_enter serial_inv_send serial_inv_sent serial_inv_fail)

lemma serial_reachable_inv: "serial_step\<^sup>*\<^sup>* serial_init s \<Longrightarrow> serial_inv s"
  by (induction rule: rtranclp_induct) (auto intro: serial_inv_init serial_step_inv)

subsection \<open>Consequences\<close>

text \<open>What is in the socket: whole messages in the order of entering, and more only after one failed.\<close>

lemma serial_wire:
  assumes "serial_inv s"
  shows "\<exists>part rest. sl_wire s = concat (map snd (sl_log s)) @ part @ rest \<and> prefix (sl_log s) (sl_entered s)
    \<and> (part = [] \<or> (\<exists>k msg later. sl_entered s = sl_log s @ (k, msg) # later \<and> prefix part msg))
    \<and> (\<not> sl_failed s \<longrightarrow> rest = [])"
proof -
  obtain holder where l: "lock_ok holder (sl_mutex s) (sl_senders s)"
    and w: "if sl_failed s then wire_broken s else wire_whole holder s"
    using assms(1) by (auto simp: serial_inv_def)
  show ?thesis
  proof (cases "sl_failed s")
    case True
    with w obtain k msg later part rest where b: "sl_entered s = sl_log s @ (k, msg) # later"
      "sl_wire s = concat (map snd (sl_log s)) @ part @ rest" "strict_prefix part msg"
      by (auto simp: wire_broken_def)
    with True show ?thesis
      by (intro exI [of _ part] exI [of _ rest]) (auto simp: strict_prefix_def)
  next
    case False
    with w have ww: "wire_whole holder s" by simp
    have "sent_part holder (sl_senders s) = [] \<or> (\<exists>k msg later. to_send holder (sl_mutex s) (sl_senders s) = (k, msg) # later
        \<and> prefix (sent_part holder (sl_senders s)) msg)"
      by (auto simp: sent_part_def to_send_def sender_msg_def take_is_prefix split: option.split sphase.split)
    with ww show ?thesis
      by (intro exI [of _ "sent_part holder (sl_senders s)"] exI [of _ "[]"]) (auto simp: wire_whole_def)
  qed
qed

text \<open>Someone holds the mutex whenever someone is queued for it.\<close>

lemma serial_progress:
  assumes "serial_inv s" and "sl_senders s k \<noteq> None"
  shows "\<exists>h msg j. sl_senders s h = Some (Sending msg j) \<and> j \<le> length msg"
proof -
  obtain holder where l: "lock_ok holder (sl_mutex s) (sl_senders s)"
    using assms(1) by (auto simp: serial_inv_def)
  have "\<exists>h. is_sending (sl_senders s h)"
  proof (cases "is_sending (sl_senders s k)")
    case False
    with assms(2) have "is_queued (sl_senders s k)"
      by (metis is_queued_def is_sending_def option.exhaust sphase.exhaust)
    then have "k \<in> set (mx_waiters (sl_mutex s))" "mx.agrees (sl_mutex s) holder"
      using l by (auto simp: lock_ok_def)
    then have "holder \<noteq> None" by (auto simp: mx.agrees_def)
    with l show ?thesis by (auto simp: lock_ok_def)
  qed blast
  then obtain h msg j where "sl_senders s h = Some (Sending msg j)" by (auto simp: is_sending_def)
  moreover from this have "j \<le> length msg" using l unfolding lock_ok_def by blast
  ultimately show ?thesis by blast
qed

text \<open>As long as nothing failed the socket holds a prefix of the messages, in order of entering.\<close>

lemma serial_prefix:
  assumes "serial_inv s" and "\<not> sl_failed s"
  shows "prefix (sl_wire s) (concat (map snd (sl_entered s)))"
proof -
  from serial_wire [OF assms(1)] assms(2) obtain part
    where w: "sl_wire s = concat (map snd (sl_log s)) @ part" and p: "prefix (sl_log s) (sl_entered s)"
      and q: "part = [] \<or> (\<exists>k msg later. sl_entered s = sl_log s @ (k, msg) # later \<and> prefix part msg)"
    by auto
  from p q show ?thesis unfolding w by (auto simp: prefix_def)
qed

text \<open>A message whose sender is not done with it is not entirely in the socket.\<close>

lemma split_by_key:
  assumes "distinct (map fst xs)" and "xs = pre @ (k, v) # post" and "xs = pre' @ (k, v') # post'"
  shows "pre = pre' \<and> v = v'"
proof -
  have "k \<notin> fst ` set pre" "k \<notin> fst ` set post" using assms(1) by (simp_all add: assms(2))
  with assms(3) show ?thesis
    unfolding assms(2) by (fastforce simp: append_eq_append_conv2 Cons_eq_append_conv append_eq_Cons_conv)
qed

lemma sent_part_first:
  "to_send holder m sn = (x, msg) # ts \<Longrightarrow> prefix (sent_part holder sn) msg"
  by (auto simp: sent_part_def to_send_def sender_msg_def take_is_prefix split: option.splits sphase.split)

lemma serial_unsent_short:
  assumes "serial_inv s" and "\<not> sl_failed s" and "distinct (map fst (sl_entered s))"
    and "sl_entered s = pre @ (k, msg) # post" and "msg \<noteq> []"
    and "sl_senders s k = Some p" and "\<And>m j. p = Sending m j \<Longrightarrow> j < length m"
  shows "length (sl_wire s) < length (concat (map snd pre)) + length msg"
proof -
  obtain holder where l: "lock_ok holder (sl_mutex s) (sl_senders s)" and w: "wire_whole holder s"
    using assms(1,2) by (auto simp: serial_inv_def)
  let ?t = "to_send holder (sl_mutex s) (sl_senders s)"
  have "k \<in> fst ` set ?t"
  proof (cases p)
    case (Queued m)
    then have "k \<in> set (mx_waiters (sl_mutex s))"
      using l assms(6) unfolding lock_ok_def by (metis is_queued_def)
    then show ?thesis by (force simp: to_send_def)
  next
    case (Sending m j)
    then show ?thesis using lock_ok_holder [OF l] assms(6) by (simp add: to_send_def)
  qed
  then obtain a m' b where t: "?t = a @ (k, m') # b"
    by (metis (no_types, opaque_lifting) imageE prod.collapse split_list)
  have "sl_entered s = (sl_log s @ a) @ (k, m') # b" using w t by (simp add: wire_whole_def)
  from split_by_key [OF assms(3,4) this] have pre: "pre = sl_log s @ a" "m' = msg" by simp_all
  have "length (sent_part holder (sl_senders s)) < length (concat (map snd a)) + length msg"
  proof (cases a)
    case Nil
    have "mx.agrees (sl_mutex s) holder" using l by (simp add: lock_ok_def)
    with Nil t have h: "holder = Some k" "sender_msg (sl_senders s) k = m'"
      by (auto simp: to_send_def mx.agrees_def split: option.splits)
    then obtain m j where "p = Sending m j"
      using l assms(6) unfolding lock_ok_def by (metis is_sending_def option.inject)
    with h assms(6,7) Nil pre show ?thesis by (simp add: sent_part_def sender_msg_def)
  next
    case (Cons e a')
    then have "prefix (sent_part holder (sl_senders s)) (snd e)" using sent_part_first t by (metis append_Cons prod.collapse)
    then have "length (sent_part holder (sl_senders s)) \<le> length (snd e)" by (rule prefix_length_le)
    moreover have "0 < length msg" using assms(5) by simp
    ultimately show ?thesis unfolding Cons list.map concat.simps length_append by linarith
  qed
  with w pre(1) show ?thesis by (simp add: wire_whole_def)
qed

subsection \<open>Properties\<close>

text \<open>
  C39. A failed send does not stop the others: when \<open>send_all\<close> throws in the middle of
  a message while another sender waits for the mutex, that sender can go on to send its whole
  message right after the part, so the peer reads a broken frame; neither the server's
  handlers nor the client's requests look at whether an earlier send failed.
\<close>

theorem failed_send_not_final:
  assumes "serial_step\<^sup>*\<^sup>* serial_init s" and "sl_senders s k = Some (Sending msg j)" and "j < length msg"
    and "mx_waiters (sl_mutex s) = h # ws" and "sl_senders s h = Some (Queued m)" and "m \<noteq> []"
  shows "\<exists>s'. serial_step\<^sup>*\<^sup>* s s' \<and> sl_failed s' \<and> sl_wire s' = sl_wire s @ m \<and> (h, m) \<in> set (sl_late s')"
proof -
  have "h \<noteq> k" using assms(2,5) by auto
  have u: "mutex_unlock (sl_mutex s) = (Some h, (sl_mutex s)\<lparr>mx_waiters := ws\<rparr>)"
    using assms(4) by (simp add: mutex_unlock_def)
  let ?a = "sl_fail k s" and ?b = "sl_send h m 0 (length m) (sl_fail k s)"
  have a: "sl_senders ?a h = Some (Sending m 0)" "sl_failed ?a" "sl_wire ?a = sl_wire s"
    using u assms(5) \<open>h \<noteq> k\<close> by (simp_all add: sl_fail_def sl_release_sel resume_sender_def)
  have b: "sl_senders ?b h = Some (Sending m (length m))" "sl_failed ?b" "sl_wire ?b = sl_wire s @ m"
    using a by (simp_all add: sl_send_def)
  have "serial_step s ?a" by (rule serial_step.fail [OF assms(2,3)])
  moreover have "serial_step ?a ?b" using serial_step.send [OF a(1), of "length m"] assms(6) by simp
  moreover have "serial_step ?b (sl_sent h m ?b)" by (rule serial_step.sent [OF b(1)])
  ultimately have "serial_step\<^sup>*\<^sup>* s (sl_sent h m ?b)"
    by (meson converse_rtranclp_into_rtranclp rtranclp.rtrancl_refl)
  moreover have "(h, m) \<in> set (sl_late (sl_sent h m ?b))"
    using b(2) by (simp add: sl_sent_def sl_release_def split: prod.split)
  ultimately show ?thesis using b by (intro exI [of _ "sl_sent h m ?b"]) simp
qed

theorem failed_send_not_final_witness:
  "\<exists>s :: nat serial. serial_step\<^sup>*\<^sup>* serial_init s \<and> sl_failed s \<and> sl_wire s = [3, 4]"
proof -
  let ?s = "sl_enter 1 [3, 4] (sl_enter 0 [1, 2] serial_init) :: nat serial"
  have e: "sl_senders ?s = [0 \<mapsto> Sending [1, 2] 0, 1 \<mapsto> Queued [3, 4]]" "mx_waiters (sl_mutex ?s) = [1]"
    by (simp_all add: sl_enter_def serial_init_def mutex_init_def lock_guard_def lock_await_ready_def
        lock_await_suspend_def)
  have w: "sl_wire (serial_init :: nat serial) = []" by (simp add: serial_init_def)
  have "serial_step serial_init (sl_enter (0 :: nat) [1, 2] serial_init)"
    by (rule serial_step.enter) (simp add: serial_init_def)
  moreover have "serial_step (sl_enter 0 [1, 2] serial_init) ?s"
    by (rule serial_step.enter) (simp add: sl_enter_def serial_init_def mutex_init_def lock_guard_def lock_await_ready_def)
  ultimately have r: "serial_step\<^sup>*\<^sup>* serial_init ?s" by (meson converse_rtranclp_into_rtranclp rtranclp.rtrancl_refl)
  have "sl_senders ?s 0 = Some (Sending [1, 2] 0)" "sl_senders ?s 1 = Some (Queued [3, 4])" by (simp_all only: e) simp_all
  from failed_send_not_final [OF r this(1) _ e(2) this(2)] obtain s' where
    s': "serial_step\<^sup>*\<^sup>* ?s s'" "sl_failed s'" "sl_wire s' = [3, 4]" by (auto simp: w)
  with rtranclp_trans [OF r s'(1)] show ?thesis by blast
qed

end
