(* ===== verification/Connection.thy ===== *)
theory Connection
  imports Session Serial_Send Wait_Group
begin

text \<open>
  The concurrent half of a server connection, \<open>server/session.cpp\<close>: the handlers
  spawned for the requests (\<open>handle_write\<close>, \<open>handle_read\<close>, \<open>send_error\<close>, each
  under \<open>tracked\<close>) interleave with the reader and with each other. They share the send
  mutex, the wait group and the socket; sending is the shared pattern of
  \<open>Serial_Send\<close>. A step is what one coroutine does between two suspensions. The results
  of file operations, and how the socket takes the bytes, are inputs.
\<close>

subsection \<open>Responses\<close>

text \<open>What the file operation of a handler gives: a count and the data read, or an exception.\<close>

datatype io_result = Io_ok nat "byte list" | Io_throw exn

definition response_header :: "byte_order \<Rightarrow> u64 \<Rightarrow> int \<Rightarrow> byte list" where
  "response_header bo cid res = bytes_of_response bo \<lparr>rs_cid = cid, rs_res = word_of_int res\<rparr>"

text \<open>
  The message a handler sends; \<open>None\<close> when an exception other than
  \<open>std::system_error\<close> leaves the handler, which \<open>tracked\<close> swallows.
\<close>

definition handle_write :: "byte_order \<Rightarrow> u64 \<Rightarrow> io_result \<Rightarrow> byte list option" where
  "handle_write bo cid r =
     (case r of
        Io_ok written _ \<Rightarrow> Some (response_header bo cid (int written))
      | Io_throw (System_error e) \<Rightarrow> Some (response_header bo cid (- e))
      | Io_throw _ \<Rightarrow> None)"

definition handle_read :: "byte_order \<Rightarrow> u64 \<Rightarrow> io_result \<Rightarrow> byte list option" where
  "handle_read bo cid r =
     (case r of
        Io_ok got buf \<Rightarrow>
          Some (if 0 < got then response_header bo cid (int got) @ take got buf
                else response_header bo cid (int got))
      | Io_throw (System_error e) \<Rightarrow> Some (response_header bo cid (- e))
      | Io_throw _ \<Rightarrow> None)"

definition send_error :: "byte_order \<Rightarrow> u64 \<Rightarrow> errno \<Rightarrow> byte list" where
  "send_error bo cid err = response_header bo cid (- err)"

fun handler_message :: "byte_order \<Rightarrow> request \<Rightarrow> io_result \<Rightarrow> byte list option" where
  "handler_message bo (Write_req cid off payload durable) r = handle_write bo cid r"
| "handler_message bo (Read_req cid off sz) r = handle_read bo cid r"
| "handler_message bo (Error_req cid err) r = Some (send_error bo cid err)"

subsection \<open>State\<close>

text \<open>
  Where a handler is: in its file operation, sending its response (the mutex and the socket
  are in \<open>cn_send\<close>, where the handler is a sender under its index), or about to call
  \<open>wg.done()\<close>.
\<close>

datatype hphase = Io request | Responding | Finishing

datatype conn_phase = Reading | Draining | Closed

text \<open>
  \<open>cn_requests\<close> and \<open>cn_dropped\<close> record history: the requests spawned (a handler is
  named by its index), and the handlers that ended without a message.
\<close>

record conn =
  cn_send :: "nat serial"
  cn_wg :: "unit wait_group"
  cn_handlers :: "nat \<rightharpoonup> hphase"
  cn_phase :: conn_phase
  cn_requests :: "request list"
  cn_dropped :: "nat list"

definition conn_init :: conn where
  "conn_init = \<lparr>cn_send = serial_init, cn_wg = wg_init, cn_handlers = Map.empty, cn_phase = Reading,
     cn_requests = [], cn_dropped = []\<rparr>"

definition conn_spawn :: "request \<Rightarrow> conn \<Rightarrow> conn" where
  "conn_spawn r c =
     c\<lparr>cn_wg := wg_add 1 (cn_wg c),
       cn_handlers := (cn_handlers c)(length (cn_requests c) \<mapsto> Io r),
       cn_requests := cn_requests c @ [r]\<rparr>"

text \<open>The message is ready: take the mutex, or queue for it.\<close>

definition conn_respond :: "nat \<Rightarrow> byte list \<Rightarrow> conn \<Rightarrow> conn" where
  "conn_respond h msg c =
     c\<lparr>cn_send := sl_enter h msg (cn_send c), cn_handlers := (cn_handlers c)(h \<mapsto> Responding)\<rparr>"

text \<open>An exception that is not a \<open>std::system_error\<close> ends the handler before it responds.\<close>

definition conn_drop :: "nat \<Rightarrow> conn \<Rightarrow> conn" where
  "conn_drop h c = c\<lparr>cn_handlers := (cn_handlers c)(h \<mapsto> Finishing), cn_dropped := h # cn_dropped c\<rparr>"

text \<open>The response is sent, or \<open>send_all\<close> throws; either way the guard is destroyed.\<close>

definition conn_sent :: "nat \<Rightarrow> byte list \<Rightarrow> conn \<Rightarrow> conn" where
  "conn_sent h msg c =
     c\<lparr>cn_send := sl_sent h msg (cn_send c), cn_handlers := (cn_handlers c)(h \<mapsto> Finishing)\<rparr>"

definition conn_fail :: "nat \<Rightarrow> conn \<Rightarrow> conn" where
  "conn_fail h c = c\<lparr>cn_send := sl_fail h (cn_send c), cn_handlers := (cn_handlers c)(h \<mapsto> Finishing)\<rparr>"

text \<open>The end of \<open>tracked\<close>, and of the reader's loop.\<close>

definition conn_finish :: "nat \<Rightarrow> conn \<Rightarrow> conn" where
  "conn_finish h c =
     (case wg_done (cn_wg c) of (resumed, w) \<Rightarrow>
        c\<lparr>cn_wg := w, cn_handlers := (cn_handlers c)(h := None),
          cn_phase := (if resumed \<noteq> None then Closed else cn_phase c)\<rparr>)"

definition conn_reader_end :: "conn \<Rightarrow> conn" where
  "conn_reader_end c =
     (case wg_wait () (cn_wg c) of (now, w) \<Rightarrow>
        c\<lparr>cn_wg := w, cn_phase := (if now then Closed else Draining)\<rparr>)"

inductive conn_step :: "byte_order \<Rightarrow> conn \<Rightarrow> conn \<Rightarrow> bool" for bo :: byte_order where
  spawn: "cn_phase c = Reading \<Longrightarrow> conn_step bo c (conn_spawn r c)"
| respond: "cn_handlers c h = Some (Io q) \<Longrightarrow> handler_message bo q r = Some msg \<Longrightarrow>
    conn_step bo c (conn_respond h msg c)"
| drop: "cn_handlers c h = Some (Io q) \<Longrightarrow> handler_message bo q r = None \<Longrightarrow> conn_step bo c (conn_drop h c)"
| send: "sl_senders (cn_send c) h = Some (Sending msg k) \<Longrightarrow> 0 < n \<Longrightarrow> k + n \<le> length msg \<Longrightarrow>
    conn_step bo c (c\<lparr>cn_send := sl_send h msg k n (cn_send c)\<rparr>)"
| sent: "sl_senders (cn_send c) h = Some (Sending msg (length msg)) \<Longrightarrow> conn_step bo c (conn_sent h msg c)"
| fail: "sl_senders (cn_send c) h = Some (Sending msg k) \<Longrightarrow> k < length msg \<Longrightarrow> conn_step bo c (conn_fail h c)"
| finish: "cn_handlers c h = Some Finishing \<Longrightarrow> conn_step bo c (conn_finish h c)"
| reader_end: "cn_phase c = Reading \<Longrightarrow> conn_step bo c (conn_reader_end c)"

subsection \<open>Invariants\<close>

text \<open>The wait group counts the handlers, and the reader leaves only when there is none.\<close>

definition count_inv :: "conn \<Rightarrow> bool" where
  "count_inv c \<longleftrightarrow> finite (dom (cn_handlers c))
     \<and> dom (cn_handlers c) \<subseteq> {..<length (cn_requests c)}
     \<and> wg_remaining (cn_wg c) = int (card (dom (cn_handlers c)))
     \<and> (case cn_phase c of
          Reading \<Rightarrow> wg_waiter (cn_wg c) = None
        | Draining \<Rightarrow> wg_waiter (cn_wg c) = Some () \<and> dom (cn_handlers c) \<noteq> {}
        | Closed \<Rightarrow> wg_waiter (cn_wg c) = None \<and> dom (cn_handlers c) = {})"

text \<open>Messages belong to their requests; every request is in one place.\<close>

definition answers :: "byte_order \<Rightarrow> request list \<Rightarrow> nat \<times> byte list \<Rightarrow> bool" where
  "answers bo qs e \<longleftrightarrow> fst e < length qs \<and> (\<exists>r. handler_message bo (qs ! fst e) r = Some (snd e))"

definition place_inv :: "byte_order \<Rightarrow> conn \<Rightarrow> bool" where
  "place_inv bo c \<longleftrightarrow>
     (\<forall>h q. cn_handlers c h = Some (Io q) \<longrightarrow> h < length (cn_requests c) \<and> q = cn_requests c ! h
        \<and> h \<notin> fst ` set (sl_entered (cn_send c)))
     \<and> (\<forall>h. cn_handlers c h = Some Responding \<longleftrightarrow> sl_senders (cn_send c) h \<noteq> None)
     \<and> list_all (answers bo (cn_requests c)) (sl_entered (cn_send c))
     \<and> distinct (map fst (sl_entered (cn_send c)))
     \<and> (\<forall>h < length (cn_requests c).
          cn_handlers c h \<in> {None, Some Finishing} \<longrightarrow>
          h \<in> fst ` set (sl_log (cn_send c)) \<or> h \<in> set (cn_dropped c) \<or> sl_failed (cn_send c))"

definition conn_inv :: "byte_order \<Rightarrow> conn \<Rightarrow> bool" where
  "conn_inv bo c \<longleftrightarrow> serial_inv (cn_send c) \<and> count_inv c \<and> place_inv bo c"

lemma conn_inv_init: "conn_inv bo conn_init"
  using serial_inv_init
  by (simp add: conn_inv_def conn_init_def count_inv_def wg_init_def place_inv_def)
    (simp add: serial_init_def)

subsection \<open>The wait group\<close>

lemma count_inv_same:
  assumes "count_inv c" and "dom (cn_handlers c') = dom (cn_handlers c)"
    and "cn_requests c' = cn_requests c" and "cn_wg c' = cn_wg c" and "cn_phase c' = cn_phase c"
  shows "count_inv c'"
  using assms(1) by (simp only: count_inv_def assms(2-5))

lemma count_inv_spawn:
  assumes "count_inv c" and "cn_phase c = Reading"
  shows "count_inv (conn_spawn r c)"
proof -
  have "length (cn_requests c) \<notin> dom (cn_handlers c)" using assms(1) by (auto simp: count_inv_def)
  then show ?thesis
    using assms by (auto simp: count_inv_def conn_spawn_def wg_add_def)
qed

lemma count_inv_finish:
  assumes "count_inv c" and "cn_handlers c h = Some Finishing"
  shows "count_inv (conn_finish h c)"
proof -
  let ?D = "dom (cn_handlers c)"
  have h: "h \<in> ?D" "finite ?D" using assms by (auto simp: count_inv_def)
  then have card: "card ?D = Suc (card (?D - {h}))" by (metis card.remove)
  have sub: "?D - {h} \<subseteq> {..<length (cn_requests c)}" using assms(1) by (auto simp: count_inv_def)
  have nonempty: "cn_phase c \<noteq> Closed" using assms(1) h by (auto simp: count_inv_def)
  show ?thesis
  proof (cases "?D - {h} = {}")
    case True
    with card have "wg_remaining (cn_wg c) = 1" using assms(1) by (simp add: count_inv_def)
    with True assms(1) nonempty show ?thesis
      by (auto simp: count_inv_def conn_finish_def wg_done_last split: conn_phase.splits)
  next
    case False
    with h(2) have "0 < card (?D - {h})" by (meson card_gt_0_iff finite_Diff)
    with card have r: "wg_remaining (cn_wg c) = 1 + int (card (?D - {h}))" "1 < wg_remaining (cn_wg c)"
      using assms(1) by (auto simp: count_inv_def)
    have fin: "conn_finish h c = c\<lparr>cn_wg := (cn_wg c)\<lparr>wg_remaining := int (card (?D - {h}))\<rparr>,
        cn_handlers := (cn_handlers c)(h := None)\<rparr>"
      using wg_done_not_last [OF r(2)] r(1) by (simp add: conn_finish_def)
    have d: "dom ((cn_handlers c)(h := None)) = ?D - {h}" by auto
    show ?thesis
      using False assms(1) h sub nonempty d unfolding fin count_inv_def by (auto split: conn_phase.splits)
  qed
qed

lemma count_inv_reader_end:
  assumes "count_inv c" and "cn_phase c = Reading"
  shows "count_inv (conn_reader_end c)"
  using assms
  by (auto simp: count_inv_def conn_reader_end_def wg_wait_def wg_await_ready_def wg_await_suspend_def
      card_gt_0_iff)

subsection \<open>Messages\<close>

lemma answers_append: "answers bo qs e \<Longrightarrow> answers bo (qs @ qs') e"
  by (auto simp: answers_def nth_append)

lemma place_inv_sender:
  assumes "place_inv bo c" and "sl_senders (cn_send c) h = Some p"
  shows "cn_handlers c h = Some Responding"
  using assms unfolding place_inv_def by force

lemma place_inv_spawn:
  assumes "place_inv bo c" and "count_inv c"
  shows "place_inv bo (conn_spawn r c)"
proof -
  let ?n = "length (cn_requests c)"
  have new: "?n \<notin> fst ` set (sl_entered (cn_send c))" "cn_handlers c ?n = None"
    using assms by (force simp: place_inv_def answers_def list_all_iff) (use assms in \<open>auto simp: count_inv_def\<close>)
  then have "sl_senders (cn_send c) ?n = None"
    using assms(1) unfolding place_inv_def by (metis option.distinct(1))
  moreover have "list_all (answers bo (cn_requests c @ [r])) (sl_entered (cn_send c))"
    using assms(1) answers_append by (fastforce simp: place_inv_def list_all_iff)
  ultimately show ?thesis
    using assms(1) new unfolding place_inv_def
    by (auto simp: conn_spawn_def nth_append less_Suc_eq)
qed

lemma place_inv_respond:
  assumes "place_inv bo c" and "cn_handlers c h = Some (Io q)" and "handler_message bo q r = Some msg"
  shows "place_inv bo (conn_respond h msg c)" and "sl_senders (cn_send c) h = None"
proof -
  have io: "h < length (cn_requests c)" "q = cn_requests c ! h" "h \<notin> fst ` set (sl_entered (cn_send c))"
    using assms(1,2) unfolding place_inv_def by blast+
  then have ans: "answers bo (cn_requests c) (h, msg)" using assms(3) by (auto simp: answers_def)
  have "list_all (answers bo (cn_requests c)) (sl_entered (cn_send c) @ [(h, msg)])"
    "distinct (map fst (sl_entered (cn_send c) @ [(h, msg)]))"
    using assms(1) ans io(3) by (simp_all add: place_inv_def)
  moreover have "\<forall>x q'. ((cn_handlers c)(h \<mapsto> Responding)) x = Some (Io q') \<longrightarrow> x < length (cn_requests c)
      \<and> q' = cn_requests c ! x \<and> x \<notin> fst ` set (sl_entered (cn_send c) @ [(h, msg)])"
    using assms(1) unfolding place_inv_def by auto
  moreover have "\<forall>x. ((cn_handlers c)(h \<mapsto> Responding)) x = Some Responding
      \<longleftrightarrow> sl_senders (sl_enter h msg (cn_send c)) x \<noteq> None"
    using assms(1) unfolding place_inv_def by simp
  moreover have "\<forall>x < length (cn_requests c). ((cn_handlers c)(h \<mapsto> Responding)) x \<in> {None, Some Finishing} \<longrightarrow>
      x \<in> fst ` set (sl_log (cn_send c)) \<or> x \<in> set (cn_dropped c) \<or> sl_failed (cn_send c)"
    using assms(1) unfolding place_inv_def by simp
  ultimately show "place_inv bo (conn_respond h msg c)"
    unfolding place_inv_def conn_respond_def by (simp del: fun_upd_apply)
  show "sl_senders (cn_send c) h = None"
    using assms(1,2) unfolding place_inv_def by (metis hphase.distinct(1) option.inject)
qed

text \<open>A handler that has ended its file operation or its sending.\<close>

lemma place_inv_drop:
  assumes "place_inv bo c" and "cn_handlers c h = Some (Io q)"
  shows "place_inv bo (conn_drop h c)"
proof -
  have "sl_senders (cn_send c) h = None"
    using assms unfolding place_inv_def by (metis hphase.distinct(1) option.inject)
  with assms show ?thesis unfolding place_inv_def by (auto simp: conn_drop_def)
qed

lemma place_inv_sent:
  assumes "place_inv bo c" and "sl_senders (cn_send c) h = Some p"
  shows "place_inv bo (conn_sent h msg c)" and "place_inv bo (conn_fail h c)"
  using assms unfolding place_inv_def by (auto simp: conn_sent_def conn_fail_def)

lemma place_inv_finish:
  assumes "place_inv bo c" and "cn_handlers c h = Some Finishing"
  shows "place_inv bo (conn_finish h c)"
proof -
  have "sl_senders (cn_send c) h = None"
    using assms unfolding place_inv_def by (metis hphase.distinct(5) option.inject)
  with assms show ?thesis
    unfolding place_inv_def by (auto simp: conn_finish_def split: prod.splits if_splits)
qed

subsection \<open>Every step keeps the invariants\<close>

lemma conn_invI: "serial_inv (cn_send c) \<Longrightarrow> count_inv c \<Longrightarrow> place_inv bo c \<Longrightarrow> conn_inv bo c"
  by (simp add: conn_inv_def)

lemma count_inv_sender:
  assumes "count_inv c" and "place_inv bo c" and "sl_senders (cn_send c) h = Some p"
  shows "count_inv (c\<lparr>cn_send := s, cn_handlers := (cn_handlers c)(h \<mapsto> x)\<rparr>)"
proof (rule count_inv_same [OF assms(1)])
  show "dom (cn_handlers (c\<lparr>cn_send := s, cn_handlers := (cn_handlers c)(h \<mapsto> x)\<rparr>)) = dom (cn_handlers c)"
    using place_inv_sender [OF assms(2,3)] by auto
qed simp_all

lemma conn_inv_spawn: "conn_inv bo c \<Longrightarrow> cn_phase c = Reading \<Longrightarrow> conn_inv bo (conn_spawn r c)"
  by (rule conn_invI) (auto simp: conn_inv_def intro: count_inv_spawn place_inv_spawn, simp add: conn_spawn_def)

lemma conn_inv_respond:
  assumes "conn_inv bo c" and "cn_handlers c h = Some (Io q)" and "handler_message bo q r = Some msg"
  shows "conn_inv bo (conn_respond h msg c)"
proof -
  have inv: "serial_inv (cn_send c)" "count_inv c" "place_inv bo c" using assms(1) by (auto simp: conn_inv_def)
  note p = place_inv_respond [OF inv(3) assms(2,3)]
  show ?thesis
  proof (rule conn_invI [OF _ _ p(1)])
    show "serial_inv (cn_send (conn_respond h msg c))"
      using serial_inv_enter [OF inv(1) p(2)] by (simp add: conn_respond_def)
    show "count_inv (conn_respond h msg c)"
      by (rule count_inv_same [OF inv(2)]) (use assms(2) in \<open>auto simp: conn_respond_def\<close>)
  qed
qed

lemma conn_inv_drop:
  assumes "conn_inv bo c" and "cn_handlers c h = Some (Io q)"
  shows "conn_inv bo (conn_drop h c)"
proof (rule conn_invI)
  show "place_inv bo (conn_drop h c)" using assms place_inv_drop by (auto simp: conn_inv_def)
  show "serial_inv (cn_send (conn_drop h c))" using assms(1) by (simp add: conn_drop_def conn_inv_def)
  show "count_inv (conn_drop h c)"
    by (rule count_inv_same [of c]) (use assms in \<open>auto simp: conn_drop_def conn_inv_def\<close>)
qed

lemma conn_inv_send:
  assumes "conn_inv bo c" and "sl_senders (cn_send c) h = Some (Sending msg k)" and "k + n \<le> length msg"
  shows "conn_inv bo (c\<lparr>cn_send := sl_send h msg k n (cn_send c)\<rparr>)"
proof -
  have inv: "serial_inv (cn_send c)" "count_inv c" "place_inv bo c" using assms(1) by (auto simp: conn_inv_def)
  show ?thesis
  proof (rule conn_invI)
    show "serial_inv (cn_send (c\<lparr>cn_send := sl_send h msg k n (cn_send c)\<rparr>))"
      using serial_inv_send [OF inv(1) assms(2,3)] by simp
    show "count_inv (c\<lparr>cn_send := sl_send h msg k n (cn_send c)\<rparr>)"
      by (rule count_inv_same [OF inv(2)]) simp_all
    have "(sl_senders (sl_send h msg k n (cn_send c)) x = None) = (sl_senders (cn_send c) x = None)" for x
      using assms(2) by auto
    with inv(3) show "place_inv bo (c\<lparr>cn_send := sl_send h msg k n (cn_send c)\<rparr>)"
      unfolding place_inv_def by simp
  qed
qed

lemma conn_inv_sent:
  assumes "conn_inv bo c" and "sl_senders (cn_send c) h = Some (Sending msg (length msg))"
  shows "conn_inv bo (conn_sent h msg c)"
proof -
  have inv: "serial_inv (cn_send c)" "count_inv c" "place_inv bo c" using assms(1) by (auto simp: conn_inv_def)
  show ?thesis
    by (rule conn_invI [OF _ _ place_inv_sent(1) [OF inv(3) assms(2)]])
      (use serial_inv_sent [OF inv(1) assms(2)] count_inv_sender [OF inv(2,3) assms(2)]
        in \<open>simp_all add: conn_sent_def\<close>)
qed

lemma conn_inv_fail:
  assumes "conn_inv bo c" and "sl_senders (cn_send c) h = Some (Sending msg k)" and "k < length msg"
  shows "conn_inv bo (conn_fail h c)"
proof -
  have inv: "serial_inv (cn_send c)" "count_inv c" "place_inv bo c" using assms(1) by (auto simp: conn_inv_def)
  show ?thesis
    by (rule conn_invI [OF _ _ place_inv_sent(2) [OF inv(3) assms(2)]])
      (use serial_inv_fail [OF inv(1) assms(2,3)] count_inv_sender [OF inv(2,3) assms(2)]
        in \<open>simp_all add: conn_fail_def\<close>)
qed

lemma conn_inv_finish:
  assumes "conn_inv bo c" and "cn_handlers c h = Some Finishing"
  shows "conn_inv bo (conn_finish h c)"
proof -
  have inv: "serial_inv (cn_send c)" "count_inv c" "place_inv bo c" using assms(1) by (auto simp: conn_inv_def)
  show ?thesis
    by (rule conn_invI [OF _ count_inv_finish [OF inv(2) assms(2)] place_inv_finish [OF inv(3) assms(2)]])
      (simp add: conn_finish_def inv(1) split: prod.split)
qed

lemma conn_inv_reader_end:
  assumes "conn_inv bo c" and "cn_phase c = Reading"
  shows "conn_inv bo (conn_reader_end c)"
proof -
  have inv: "serial_inv (cn_send c)" "count_inv c" "place_inv bo c" using assms(1) by (auto simp: conn_inv_def)
  let ?c = "conn_reader_end c"
  have same: "cn_send ?c = cn_send c" "cn_handlers ?c = cn_handlers c" "cn_requests ?c = cn_requests c"
    "cn_dropped ?c = cn_dropped c"
    by (simp_all add: conn_reader_end_def split: prod.split)
  show ?thesis
  proof (rule conn_invI [OF _ count_inv_reader_end [OF inv(2) assms(2)]])
    show "serial_inv (cn_send ?c)" unfolding same by (rule inv(1))
    show "place_inv bo ?c" using inv(3) unfolding place_inv_def same .
  qed
qed

lemma conn_step_inv:
  assumes "conn_step bo c c'" and "conn_inv bo c"
  shows "conn_inv bo c'"
  using assms
  by (cases rule: conn_step.cases)
    (auto intro: conn_inv_spawn conn_inv_respond conn_inv_drop conn_inv_send conn_inv_sent conn_inv_fail
      conn_inv_finish conn_inv_reader_end)

lemma conn_reachable_inv:
  assumes "(conn_step bo)\<^sup>*\<^sup>* conn_init c"
  shows "conn_inv bo c"
  using assms by (induction rule: rtranclp_induct) (auto intro: conn_inv_init conn_step_inv)

subsection \<open>Properties\<close>

text \<open>
  A complete run: one oversized read is answered with \<open>EMSGSIZE\<close>, in two sends, and
  the connection closes.
\<close>

definition sample_message :: "byte list" where
  "sample_message = send_error Little_endian 7 EMSGSIZE"

lemma sample_message_length: "length sample_message = 16"
  by (simp add: sample_message_def send_error_def response_header_def sizeof_EasyBDResponseHeader_def)

definition sample_conn :: "conn_phase \<Rightarrow> conn" where
  "sample_conn p = \<lparr>cn_send = serial_init\<lparr>sl_wire := sample_message, sl_entered := [(0, sample_message)],
       sl_log := [(0, sample_message)]\<rparr>,
     cn_wg = wg_init, cn_handlers = Map.empty, cn_phase = p, cn_requests = [Error_req 7 EMSGSIZE], cn_dropped = []\<rparr>"

lemma sample_run_reading: "(conn_step Little_endian)\<^sup>*\<^sup>* conn_init (sample_conn Reading)"
proof -
  let ?m = sample_message
  let ?s = "\<lambda>lk sn wire. \<lparr>sl_mutex = \<lparr>mx_locked = lk, mx_waiters = []\<rparr>, sl_senders = sn, sl_wire = wire,
    sl_failed = False, sl_entered = [(0, ?m)], sl_log = [], sl_late = []\<rparr>"
  let ?c = "\<lambda>hs s. \<lparr>cn_send = s, cn_wg = \<lparr>wg_remaining = 1, wg_waiter = None\<rparr>, cn_handlers = [0 \<mapsto> hs],
    cn_phase = Reading, cn_requests = [Error_req 7 EMSGSIZE], cn_dropped = []\<rparr>"
  let ?sent = "serial_init\<lparr>sl_wire := ?m, sl_entered := [(0, ?m)], sl_log := [(0, ?m)]\<rparr>"
  have 1: "conn_step Little_endian conn_init (?c (Io (Error_req 7 EMSGSIZE)) serial_init)"
    using spawn [of conn_init Little_endian "Error_req 7 EMSGSIZE"]
    by (simp add: conn_init_def conn_spawn_def wg_init_def wg_add_def)
  have 2: "conn_step Little_endian (?c (Io (Error_req 7 EMSGSIZE)) serial_init)
      (?c Responding (?s True [0 \<mapsto> Sending ?m 0] []))"
    using respond [of "?c (Io (Error_req 7 EMSGSIZE)) serial_init" 0 "Error_req 7 EMSGSIZE" Little_endian
        "Io_ok 0 []" ?m]
    by (simp add: sample_message_def conn_respond_def sl_enter_def serial_init_def mutex_init_def lock_guard_def
        lock_await_ready_def)
  have 3: "conn_step Little_endian (?c Responding (?s True [0 \<mapsto> Sending ?m 0] []))
      (?c Responding (?s True [0 \<mapsto> Sending ?m 5] (take 5 ?m)))"
    using send [of "?c Responding (?s True [0 \<mapsto> Sending ?m 0] [])" 0 ?m 0 5 Little_endian] sample_message_length
    by (simp add: sl_send_def)
  have 4: "conn_step Little_endian (?c Responding (?s True [0 \<mapsto> Sending ?m 5] (take 5 ?m)))
      (?c Responding (?s True [0 \<mapsto> Sending ?m 16] ?m))"
    using send [of "?c Responding (?s True [0 \<mapsto> Sending ?m 5] (take 5 ?m))" 0 ?m 5 11 Little_endian]
      sample_message_length
    by (simp add: sl_send_def flip: take_add)
  have 5: "conn_step Little_endian (?c Responding (?s True [0 \<mapsto> Sending ?m 16] ?m)) (?c Finishing ?sent)"
    using sent [of "?c Responding (?s True [0 \<mapsto> Sending ?m 16] ?m)" 0 ?m Little_endian] sample_message_length
    by (simp add: conn_sent_def sl_sent_def sl_release_def resume_sender_def mutex_unlock_def serial_init_def
        mutex_init_def)
  have 6: "conn_step Little_endian (?c Finishing ?sent) (sample_conn Reading)"
    using finish [of "?c Finishing ?sent" 0 Little_endian]
    by (simp add: conn_finish_def wg_done_def sample_conn_def wg_init_def)
  show ?thesis
    using 1 2 3 4 5 6 by (meson converse_rtranclp_into_rtranclp rtranclp.rtrancl_refl)
qed

lemma sample_run: "(conn_step Little_endian)\<^sup>*\<^sup>* conn_init (sample_conn Closed)"
proof -
  have "conn_step Little_endian (sample_conn Reading) (sample_conn Closed)"
    using reader_end [of "sample_conn Reading" Little_endian]
    by (simp add: conn_reader_end_def sample_conn_def wg_wait_def wg_await_ready_def wg_init_def)
  with sample_run_reading show ?thesis by (rule rtranclp.rtrancl_into_rtrancl)
qed



text \<open>
  C20. The connection coroutine ends only after every handler has: once it is closed no
  handler is left that could touch the mutex, the wait group or the buffers it owns, and,
  unless a send failed, every request was answered or its handler ended by an exception that
  is not a \<open>std::system_error\<close>.
\<close>

theorem connection_closes_last:
  assumes "(conn_step bo)\<^sup>*\<^sup>* conn_init c" and "cn_phase c = Closed"
  shows "cn_handlers c = Map.empty \<and> sl_senders (cn_send c) = Map.empty \<and> wg_remaining (cn_wg c) = 0
    \<and> (\<not> sl_failed (cn_send c) \<longrightarrow>
        {..<length (cn_requests c)} \<subseteq> fst ` set (sl_log (cn_send c)) \<union> set (cn_dropped c))"
proof -
  have inv: "count_inv c" "place_inv bo c"
    using conn_reachable_inv [OF assms(1)] by (auto simp: conn_inv_def)
  have e: "cn_handlers c = Map.empty" "wg_remaining (cn_wg c) = 0"
    using inv(1) assms(2) by (simp_all add: count_inv_def)
  moreover have "sl_senders (cn_send c) = Map.empty"
    using inv(2) e(1) unfolding place_inv_def by auto
  moreover have "h \<in> fst ` set (sl_log (cn_send c)) \<or> h \<in> set (cn_dropped c)"
    if "\<not> sl_failed (cn_send c)" "h < length (cn_requests c)" for h
    using inv(2) that e(1) unfolding place_inv_def by auto
  ultimately show ?thesis by blast
qed

theorem connection_closes_last_witness:
  "cn_handlers (sample_conn Closed) = Map.empty \<and> wg_remaining (cn_wg (sample_conn Closed)) = 0
   \<and> {..<length (cn_requests (sample_conn Closed))}
      \<subseteq> fst ` set (sl_log (cn_send (sample_conn Closed))) \<union> set (cn_dropped (sample_conn Closed))"
  using connection_closes_last [OF sample_run] by (simp add: sample_conn_def serial_init_def)

text \<open>
  C21. The connection never deadlocks on its own synchronisation: in every reachable state
  that is not closed some coroutine of it can go on, given only that file operations return
  and that the socket takes bytes or fails.
\<close>

theorem connection_never_stuck:
  assumes "(conn_step bo)\<^sup>*\<^sup>* conn_init c" and "cn_phase c \<noteq> Closed"
  shows "\<exists>c'. conn_step bo c c'"
proof -
  have inv: "serial_inv (cn_send c)" "count_inv c" "place_inv bo c"
    using conn_reachable_inv [OF assms(1)] by (auto simp: conn_inv_def)
  have "\<exists>h p. cn_handlers c h = Some p" if "cn_phase c = Draining"
    using that inv(2) by (auto simp: count_inv_def dom_def)
  then consider "cn_phase c = Reading" | h p where "cn_handlers c h = Some p"
    using assms(2) by (cases "cn_phase c") auto
  then show ?thesis
  proof cases
    case 1
    then show ?thesis by (blast intro: reader_end)
  next
    case 2
    show ?thesis
    proof (cases p)
      case (Io q)
      with 2 show ?thesis by (cases "handler_message bo q (Io_throw Bad_alloc)") (blast intro: respond conn_step.drop)+
    next
      case Responding
      with 2 inv(3) have "sl_senders (cn_send c) h \<noteq> None" unfolding place_inv_def by blast
      from serial_progress [OF inv(1) this] obtain h' msg j
        where s: "sl_senders (cn_send c) h' = Some (Sending msg j)" "j \<le> length msg" by blast
      show ?thesis
      proof (cases "j = length msg")
        case True
        with s(1) show ?thesis by (auto intro: sent)
      next
        case False
        with s have "j < length msg" by simp
        with s(1) show ?thesis by (blast intro: fail)
      qed
    next
      case Finishing
      with 2 show ?thesis by (blast intro: finish)
    qed
  qed
qed

theorem connection_never_stuck_witness: "\<exists>c'. conn_step Little_endian (sample_conn Reading) c'"
proof (rule connection_never_stuck)
  show "cn_phase (sample_conn Reading) \<noteq> Closed" by (simp add: sample_conn_def)
qed (rule sample_run_reading)

end
