(* ===== verification/Client.thy ===== *)
theory Client
  imports Session "HOL-Library.AList"
begin

text \<open>
  The client, \<open>client/client.cpp\<close>: issuing requests, the response reader, and the
  bookkeeping of \<open>_pending\<close>. The reader's parsing runs over any receive stream; the
  bookkeeping is a step relation in which issuing, failing sends and the reader interleave
  (the reader suspends between a header and its body). A callback with its user data is a
  value of any type; calling it is recorded in \<open>cl_callbacks\<close>.
\<close>

subsection \<open>Definitions\<close>

definition client_kRecvEntries :: nat where "client_kRecvEntries = 64 * 4"

record 'u pending =
  pd_is_read :: bool
  pd_buf :: nat
  pd_user :: 'u

text \<open>Where \<open>reader_loop\<close> is: before a header, before the body of a response, ended.\<close>

datatype 'u reader_at = At_header | At_body u64 "'u pending" i64 | At_end

text \<open>
  The object's fields, the caller's buffers (\<open>cl_mem\<close>, with \<open>cl_overflow\<close> set once a
  copy runs past the end of one), the requests whose message is not yet entirely in the
  socket, and the history of requests accepted and callbacks made.
\<close>

record 'u client =
  cl_next_cid :: u64
  cl_pending :: "(u64 \<times> 'u pending) list"
  cl_total_dispatched :: nat
  cl_sync_writes :: bool
  cl_reader :: "'u reader_at"
  cl_sending :: "u64 set"
  cl_mem :: "nat \<Rightarrow> byte list"
  cl_overflow :: bool
  cl_issued :: "'u list"
  cl_callbacks :: "('u \<times> i64) list"

definition client_init :: "bool \<Rightarrow> (nat \<Rightarrow> byte list) \<Rightarrow> 'u client" where
  "client_init sync mem =
     \<lparr>cl_next_cid = 1, cl_pending = [], cl_total_dispatched = 0, cl_sync_writes = sync,
      cl_reader = At_header, cl_sending = {}, cl_mem = mem, cl_overflow = False, cl_issued = [],
      cl_callbacks = []\<rparr>"

text \<open>
  Accepting a request: it gets the next cid and is entered in \<open>_pending\<close>; the message
  is what \<open>send_request\<close> then sends.
\<close>

definition client_issue :: "'u pending \<Rightarrow> 'u client \<Rightarrow> 'u client" where
  "client_issue p c =
     c\<lparr>cl_next_cid := cl_next_cid c + 1,
       cl_pending := AList.update (cl_next_cid c) p (cl_pending c),
       cl_sending := insert (cl_next_cid c) (cl_sending c),
       cl_issued := cl_issued c @ [pd_user p]\<rparr>"

definition client_pread ::
  "nat \<Rightarrow> u64 \<Rightarrow> u64 \<Rightarrow> 'u \<Rightarrow> 'u client \<Rightarrow>
     int \<times> (EasyBDRequestHeader \<times> byte list) option \<times> 'u client" where
  "client_pread buf sz off u c =
     (if EASYBD_MAX_PAYLOAD_SIZE < sz then (- EMSGSIZE, None, c)
      else (0, Some (\<lparr>rq_cid = cl_next_cid c, rq_offset = off, rq_size = sz, rq_op = EASYBD_OP_READ\<rparr>, []),
            client_issue \<lparr>pd_is_read = True, pd_buf = buf, pd_user = u\<rparr> c))"

definition client_pwrite ::
  "byte list \<Rightarrow> u64 \<Rightarrow> 'u \<Rightarrow> 'u client \<Rightarrow>
     int \<times> (EasyBDRequestHeader \<times> byte list) option \<times> 'u client" where
  "client_pwrite data off u c =
     (if unat EASYBD_MAX_PAYLOAD_SIZE < length data then (- EMSGSIZE, None, c)
      else (0, Some (\<lparr>rq_cid = cl_next_cid c, rq_offset = off, rq_size = of_nat (length data),
                      rq_op = (if cl_sync_writes c then EASYBD_OP_WRITE_SYNC else EASYBD_OP_WRITE)\<rparr>, data),
            client_issue \<lparr>pd_is_read = False, pd_buf = 0, pd_user = u\<rparr> c))"

text \<open>One callback, counted.\<close>

definition client_dispatch :: "'u pending \<Rightarrow> i64 \<Rightarrow> 'u client \<Rightarrow> 'u client" where
  "client_dispatch p res c =
     c\<lparr>cl_total_dispatched := cl_total_dispatched c + 1,
       cl_callbacks := cl_callbacks c @ [(pd_user p, res)]\<rparr>"

definition client_fail_all :: "errno \<Rightarrow> 'u client \<Rightarrow> 'u client" where
  "client_fail_all err c =
     fold (\<lambda>p. client_dispatch p (word_of_int (- err))) (map snd (cl_pending c)) (c\<lparr>cl_pending := []\<rparr>)"

text \<open>The \<open>catch\<close> clause of \<open>send_request\<close>.\<close>

definition client_send_failed :: "u64 \<Rightarrow> 'u client \<Rightarrow> 'u client" where
  "client_send_failed cid c =
     (let c1 = c\<lparr>cl_sending := cl_sending c - {cid}\<rparr>
      in case map_of (cl_pending c1) cid of
           None \<Rightarrow> c1
         | Some p \<Rightarrow>
             client_dispatch p (word_of_int (- ECONNRESET))
               (c1\<lparr>cl_pending := AList.delete cid (cl_pending c1)\<rparr>))"

text \<open>The last byte of the message is in the socket: \<open>send_all\<close> can no longer fail.\<close>

definition client_sent :: "u64 \<Rightarrow> 'u client \<Rightarrow> 'u client" where
  "client_sent cid c = c\<lparr>cl_sending := cl_sending c - {cid}\<rparr>"

text \<open>The reader: a header was read, a body was read, or the stream is over.\<close>

definition client_complete :: "u64 \<Rightarrow> 'u pending \<Rightarrow> i64 \<Rightarrow> 'u client \<Rightarrow> 'u client" where
  "client_complete cid p res c =
     client_dispatch p res (c\<lparr>cl_pending := AList.delete cid (cl_pending c), cl_reader := At_header\<rparr>)"

definition client_end :: "'u client \<Rightarrow> 'u client" where
  "client_end c = client_fail_all ECONNRESET (c\<lparr>cl_reader := At_end\<rparr>)"

definition client_header :: "EasyBDResponseHeader \<Rightarrow> 'u client \<Rightarrow> 'u client" where
  "client_header resp c =
     (case map_of (cl_pending c) (rs_cid resp) of
        None \<Rightarrow> client_end c
      | Some p \<Rightarrow>
          if pd_is_read p \<and> 0 < sint (rs_res resp)
          then c\<lparr>cl_reader := At_body (rs_cid resp) p (rs_res resp)\<rparr>
          else client_complete (rs_cid resp) p (rs_res resp) c)"

text \<open>\<open>memcpy\<close> into the caller's buffer.\<close>

definition client_copy :: "nat \<Rightarrow> byte list \<Rightarrow> 'u client \<Rightarrow> 'u client" where
  "client_copy buf body c =
     c\<lparr>cl_mem := (cl_mem c)(buf := memcpy_at (cl_mem c buf) 0 body),
       cl_overflow := cl_overflow c \<or> length (cl_mem c buf) < length body\<rparr>"

definition client_body :: "byte list \<Rightarrow> 'u client \<Rightarrow> 'u client" where
  "client_body body c =
     (case cl_reader c of
        At_body cid p res \<Rightarrow> client_complete cid p res (client_copy (pd_buf p) body c)
      | _ \<Rightarrow> c)"

text \<open>\<open>wait\<close>: how many callbacks a step of the queue made.\<close>

definition client_wait :: "('u client \<Rightarrow> 'u client) \<Rightarrow> 'u client \<Rightarrow> int \<times> 'u client" where
  "client_wait step_queue c =
     (let before = cl_total_dispatched c; c' = step_queue c
      in (int (cl_total_dispatched c') - int before, c'))"

text \<open>
  Every interleaving. A response header arrives only for a request that was sent completely,
  which is when a server can answer it; a body has the announced length.
\<close>

inductive client_step :: "'u client \<Rightarrow> 'u client \<Rightarrow> bool" where
  issue: "client_step c (client_issue p c)"
| sent: "cid \<in> cl_sending c \<Longrightarrow> client_step c (client_sent cid c)"
| send_failed: "cid \<in> cl_sending c \<Longrightarrow> client_step c (client_send_failed cid c)"
| header: "cl_reader c = At_header \<Longrightarrow> rs_cid resp \<notin> cl_sending c \<Longrightarrow> client_step c (client_header resp c)"
| body: "cl_reader c = At_body cid p res \<Longrightarrow> length data = nat (sint res) \<Longrightarrow> client_step c (client_body data c)"
| stream_end: "cl_reader c \<noteq> At_end \<Longrightarrow> client_step c (client_end c)"

subsubsection \<open>Parsing\<close>

text \<open>
  One turn of \<open>reader_loop\<close> over a stream, with \<open>pend\<close> the lookup in
  \<open>_pending\<close>: a response with its body, or the exception that ends the loop.
\<close>

datatype client_turn = Response EasyBDResponseHeader "byte list" | Reader_stop exn

definition unknown_cid_exn :: exn where
  "unknown_cid_exn = Runtime_error ''easybd: response with unknown cid''"

definition client_turn ::
  "'s next_batch \<Rightarrow> byte_order \<Rightarrow> (u64 \<rightharpoonup> 'u pending) \<Rightarrow> reader \<times> 's \<Rightarrow>
     (client_turn \<times> reader \<times> 's) option" where
  "client_turn nb bo pend rs =
     (case read_exact nb sizeof_EasyBDResponseHeader rs of
        None \<Rightarrow> None
      | Some (Inl e, rs1) \<Rightarrow> Some (Reader_stop e, rs1)
      | Some (Inr hdr, rs1) \<Rightarrow>
          (let resp = response_of_bytes bo hdr in
           case pend (rs_cid resp) of
             None \<Rightarrow> Some (Reader_stop unknown_cid_exn, rs1)
           | Some p \<Rightarrow>
               if pd_is_read p \<and> 0 < sint (rs_res resp) then
                 (case read_exact nb (nat (sint (rs_res resp))) rs1 of
                    None \<Rightarrow> None
                  | Some (Inl e, rs2) \<Rightarrow> Some (Reader_stop e, rs2)
                  | Some (Inr body, rs2) \<Rightarrow> Some (Response resp body, rs2))
               else Some (Response resp [], rs1)))"

definition spec_client_turn ::
  "byte_order \<Rightarrow> (u64 \<rightharpoonup> 'u pending) \<Rightarrow> byte list \<Rightarrow> stream_end option \<Rightarrow> (client_turn \<times> byte list) option" where
  "spec_client_turn bo pend bs fin =
     (case spec_read sizeof_EasyBDResponseHeader bs fin of
        None \<Rightarrow> None
      | Some (Inl e) \<Rightarrow> Some (Reader_stop e, [])
      | Some (Inr (hdr, rest)) \<Rightarrow>
          (let resp = response_of_bytes bo hdr in
           case pend (rs_cid resp) of
             None \<Rightarrow> Some (Reader_stop unknown_cid_exn, rest)
           | Some p \<Rightarrow>
               (case spec_read (response_payload_len (pd_is_read p) resp) rest fin of
                  None \<Rightarrow> None
                | Some (Inl e) \<Rightarrow> Some (Reader_stop e, [])
                | Some (Inr (body, rest')) \<Rightarrow> Some (Response resp body, rest'))))"

text \<open>The loop, with the entry of each response erased from \<open>_pending\<close>.\<close>

fun client_run ::
  "'s next_batch \<Rightarrow> byte_order \<Rightarrow> (u64 \<rightharpoonup> 'u pending) \<Rightarrow> nat \<Rightarrow> reader \<times> 's \<Rightarrow>
     (EasyBDResponseHeader \<times> byte list) list \<times> loop_state" where
  "client_run nb bo pend 0 rs = ([], Going)"
| "client_run nb bo pend (Suc n) rs =
     (case client_turn nb bo pend rs of
        None \<Rightarrow> ([], Waiting)
      | Some (Reader_stop e, _) \<Rightarrow> ([], Ended e)
      | Some (Response resp body, rs') \<Rightarrow>
          apfst ((#) (resp, body)) (client_run nb bo (pend(rs_cid resp := None)) n rs'))"

fun spec_client_run ::
  "byte_order \<Rightarrow> (u64 \<rightharpoonup> 'u pending) \<Rightarrow> nat \<Rightarrow> byte list \<Rightarrow> stream_end option \<Rightarrow>
     (EasyBDResponseHeader \<times> byte list) list \<times> loop_state" where
  "spec_client_run bo pend 0 bs fin = ([], Going)"
| "spec_client_run bo pend (Suc n) bs fin =
     (case spec_client_turn bo pend bs fin of
        None \<Rightarrow> ([], Waiting)
      | Some (Reader_stop e, _) \<Rightarrow> ([], Ended e)
      | Some (Response resp body, rest) \<Rightarrow>
          apfst ((#) (resp, body)) (spec_client_run bo (pend(rs_cid resp := None)) n rest fin))"

subsection \<open>Parsing over a stream\<close>

context recv_stream
begin

lemma client_turn_spec:
  assumes "invar st" and "reader_inv r"
  shows "case spec_client_turn bo pend (leftover r @ incoming st) (outcome st) of
      None \<Rightarrow> client_turn next_batch bo pend (r, st) = None
    | Some (Reader_stop e, _) \<Rightarrow> \<exists>rs'. client_turn next_batch bo pend (r, st) = Some (Reader_stop e, rs')
    | Some (Response resp body, rest) \<Rightarrow>
        \<exists>r' st'. client_turn next_batch bo pend (r, st) = Some (Response resp body, r', st')
          \<and> reader_inv r' \<and> invar st' \<and> leftover r' @ incoming st' = rest \<and> outcome st' = outcome st"
  using read_exact_implements [OF assms, of sizeof_EasyBDResponseHeader]
proof (cases rule: implements_read_cases)
  case hang
  then show ?thesis by (simp add: client_turn_def spec_client_turn_def)
next
  case (failed e rs')
  then show ?thesis by (simp add: client_turn_def spec_client_turn_def)
next
  case (got hdr rest r1 st1)
  let ?resp = "response_of_bytes bo hdr"
  have zero: "spec_read 0 rest (outcome st) = Some (Inr ([], rest))" by (simp add: spec_read_def)
  show ?thesis
  proof (cases "\<exists>p. pend (rs_cid ?resp) = Some p \<and> pd_is_read p \<and> 0 < sint (rs_res ?resp)")
    case True
    with got read_exact_implements [OF got(4,3), of "nat (sint (rs_res ?resp))"] show ?thesis
      by (auto simp: client_turn_def spec_client_turn_def implements_read_def Let_def
          response_payload_len_def split: option.splits sum.splits prod.splits)
  next
    case False
    with got zero show ?thesis
      by (auto simp: client_turn_def spec_client_turn_def Let_def response_payload_len_def split: option.splits)
  qed
qed

lemma client_run_spec:
  assumes "invar st" and "reader_inv r"
  shows "client_run next_batch bo pend n (r, st)
    = spec_client_run bo pend n (leftover r @ incoming st) (outcome st)"
  using assms
proof (induction n arbitrary: pend r st)
  case 0
  then show ?case by simp
next
  case (Suc n)
  from client_turn_spec [OF Suc.prems, of bo pend] show ?case
    by (auto simp: Suc.IH fun_upd_def split: option.splits client_turn.splits prod.splits)
qed

end

text \<open>Responses as a server sends them for requests that are pending.\<close>

definition response_bytes :: "byte_order \<Rightarrow> EasyBDResponseHeader \<times> byte list \<Rightarrow> byte list" where
  "response_bytes bo m = bytes_of_response bo (fst m) @ snd m"

definition response_ok :: "(u64 \<rightharpoonup> 'u pending) \<Rightarrow> EasyBDResponseHeader \<times> byte list \<Rightarrow> bool" where
  "response_ok pend m \<longleftrightarrow> (case pend (rs_cid (fst m)) of
     None \<Rightarrow> False | Some p \<Rightarrow> length (snd m) = response_payload_len (pd_is_read p) (fst m))"

lemma spec_client_turn_response:
  assumes "response_ok pend (resp, body)"
  shows "spec_client_turn bo pend (response_bytes bo (resp, body) @ rest) fin
    = Some (Response resp body, rest)"
proof -
  have "spec_read sizeof_EasyBDResponseHeader (response_bytes bo (resp, body) @ rest) fin
      = Some (Inr (bytes_of_response bo resp, body @ rest))"
    by (simp add: response_bytes_def spec_read_append)
  with assms show ?thesis
    by (auto simp: spec_client_turn_def response_ok_def spec_read_append split: option.splits)
qed

lemma spec_client_run_responses:
  assumes "list_all (response_ok pend) ms" and "distinct (map (rs_cid \<circ> fst) ms)"
  shows "spec_client_run bo pend (length ms) (concat (map (response_bytes bo) ms) @ rest) fin = (ms, Going)"
  using assms
proof (induction ms arbitrary: pend)
  case Nil
  then show ?case by simp
next
  case (Cons m ms)
  obtain resp body where m: "m = (resp, body)" by (cases m)
  have "rs_cid (fst x) \<noteq> rs_cid resp" if "x \<in> set ms" for x
    using Cons.prems(2) m that by (auto simp: image_iff)
  then have "list_all (response_ok (pend(rs_cid resp := None))) ms"
    using Cons.prems(1) by (simp add: list_all_iff response_ok_def)
  from Cons.IH [OF this] have "spec_client_run bo (pend(rs_cid resp := None)) (length ms)
      (concat (map (response_bytes bo) ms) @ rest) fin = (ms, Going)"
    using Cons.prems(2) by (simp del: fun_upd_apply)
  with Cons.prems(1) m show ?case by (simp add: spec_client_turn_response del: fun_upd_apply)
qed

subsection \<open>Every request completes once\<close>

text \<open>
  The accounting: cids are handed out in order, so the pending ones are distinct and below
  the next; every accepted request is either pending or has had its callback; the counter
  counts the callbacks; and the request whose body is being read is pending and fully sent.
\<close>

definition client_inv :: "'u client \<Rightarrow> bool" where
  "client_inv c \<longleftrightarrow> distinct (map fst (cl_pending c))
     \<and> (\<forall>cid \<in> fst ` set (cl_pending c). 0 < unat cid \<and> unat cid \<le> length (cl_issued c))
     \<and> cl_next_cid c = of_nat (length (cl_issued c)) + 1
     \<and> mset (cl_issued c) = mset (map fst (cl_callbacks c)) + mset (map (pd_user \<circ> snd) (cl_pending c))
     \<and> cl_total_dispatched c = length (cl_callbacks c)
     \<and> (\<forall>cid p res. cl_reader c = At_body cid p res \<longrightarrow>
          map_of (cl_pending c) cid = Some p \<and> cid \<notin> cl_sending c)"

lemma client_inv_init: "client_inv (client_init sync mem)"
  by (simp add: client_inv_def client_init_def)

lemma set_delete_subset: "set (AList.delete k ps) \<subseteq> set ps"
  by (induction ps) auto

lemma mset_pending_delete:
  assumes "distinct (map fst ps)" and "map_of ps cid = Some p"
  shows "mset (map (pd_user \<circ> snd) ps) = add_mset (pd_user p) (mset (map (pd_user \<circ> snd) (AList.delete cid ps)))"
  using assms
proof (induction ps)
  case (Cons q ps)
  then show ?case by (cases q) (auto simp: delete_id)
qed simp

lemma client_inv_complete:
  assumes "client_inv c" and "map_of (cl_pending c) cid = Some p"
    and "\<And>cid' p' res'. cl_reader c' = At_body cid' p' res' \<Longrightarrow>
      cl_reader c = cl_reader c' \<and> cid' \<noteq> cid \<and> cl_sending c' \<subseteq> cl_sending c"
    and "cl_pending c' = AList.delete cid (cl_pending c)" and "cl_next_cid c' = cl_next_cid c"
    and "cl_issued c' = cl_issued c" and "cl_callbacks c' = cl_callbacks c"
    and "cl_total_dispatched c' = cl_total_dispatched c"
  shows "client_inv (client_dispatch p res c')"
  using assms mset_pending_delete [of "cl_pending c" cid p]
  unfolding client_inv_def client_dispatch_def
  by (auto simp: distinct_delete delete_conv' dest: subsetD [OF set_delete_subset])

lemma update_new: "k \<notin> fst ` set ps \<Longrightarrow> AList.update k v ps = ps @ [(k, v)]"
  by (induction ps) auto

lemma unat_next_cid:
  assumes "n + 1 < 2 ^ 64"
  shows "unat (of_nat n + 1 :: u64) = n + 1"
proof -
  have "unat (of_nat (n + 1) :: u64) = n + 1"
    using assms by (simp only: unat_of_nat) (simp add: take_bit_nat_eq_self)
  then show ?thesis by (simp add: add.commute)
qed

lemma client_inv_issue:
  assumes "client_inv c" and "length (cl_issued c) + 1 < 2 ^ 64"
  shows "client_inv (client_issue p c)"
proof -
  have next_cid: "unat (cl_next_cid c) = length (cl_issued c) + 1"
    using assms(1) unat_next_cid [OF assms(2)] by (simp add: client_inv_def)
  then have new: "cl_next_cid c \<notin> fst ` set (cl_pending c)"
    using assms(1) by (auto simp: client_inv_def)
  have pend: "cl_pending (client_issue p c) = cl_pending c @ [(cl_next_cid c, p)]"
    by (simp add: client_issue_def update_new [OF new])
  have body: "map_of (cl_pending (client_issue p c)) cid = Some q \<and> cid \<notin> cl_sending (client_issue p c)"
    if "cl_reader c = At_body cid q res" for cid q res
  proof -
    have q: "map_of (cl_pending c) cid = Some q" "cid \<notin> cl_sending c"
      using assms(1) that unfolding client_inv_def by blast+
    then have "cid \<noteq> cl_next_cid c" using new by (metis map_of_eq_None_iff option.distinct(1))
    with q show ?thesis by (simp add: client_issue_def update_conv')
  qed
  show ?thesis
    unfolding client_inv_def pend
    using assms(1) new next_cid body pend by (auto simp: client_inv_def client_issue_def)
qed

lemma fold_dispatch:
  "fold (\<lambda>p. client_dispatch p res) ps c =
     c\<lparr>cl_total_dispatched := cl_total_dispatched c + length ps,
       cl_callbacks := cl_callbacks c @ map (\<lambda>p. (pd_user p, res)) ps\<rparr>"
  by (induction ps arbitrary: c) (simp_all add: client_dispatch_def)

lemma client_end_sel:
  "client_end c = c\<lparr>cl_reader := At_end, cl_pending := [],
     cl_total_dispatched := cl_total_dispatched c + length (cl_pending c),
     cl_callbacks := cl_callbacks c
       @ map (\<lambda>p. (pd_user p, word_of_int (- ECONNRESET))) (map snd (cl_pending c))\<rparr>"
  by (simp add: client_end_def client_fail_all_def fold_dispatch)

lemma client_inv_end: "client_inv c \<Longrightarrow> client_inv (client_end c)"
  by (simp add: client_inv_def client_end_sel comp_def image_mset.compositionality)

lemma client_inv_header:
  assumes "client_inv c" and "cl_reader c = At_header" and "rs_cid resp \<notin> cl_sending c"
  shows "client_inv (client_header resp c)"
proof (cases "map_of (cl_pending c) (rs_cid resp)")
  case None
  with client_inv_end [OF assms(1)] show ?thesis by (simp add: client_header_def)
next
  case (Some p)
  show ?thesis
  proof (cases "pd_is_read p \<and> 0 < sint (rs_res resp)")
    case True
    have "client_header resp c = c\<lparr>cl_reader := At_body (rs_cid resp) p (rs_res resp)\<rparr>"
      using True Some by (simp add: client_header_def)
    then show ?thesis using assms Some unfolding client_inv_def by simp
  next
    case False
    then have h: "client_header resp c = client_complete (rs_cid resp) p (rs_res resp) c"
      using Some by (auto simp: client_header_def)
    show ?thesis
      unfolding h client_complete_def by (rule client_inv_complete [OF assms(1) Some]) auto
  qed
qed

lemma client_inv_body:
  assumes "client_inv c" and "cl_reader c = At_body cid p res"
  shows "client_inv (client_body data c)"
proof -
  have p: "map_of (cl_pending c) cid = Some p" using assms unfolding client_inv_def by blast
  have b: "client_body data c = client_complete cid p res (client_copy (pd_buf p) data c)"
    using assms(2) by (simp add: client_body_def)
  show ?thesis
    unfolding b client_complete_def
    by (rule client_inv_complete [OF assms(1) p]) (auto simp: client_copy_def)
qed

lemma client_inv_send_failed:
  assumes "client_inv c" and "cid \<in> cl_sending c"
  shows "client_inv (client_send_failed cid c)"
proof (cases "map_of (cl_pending c) cid")
  case None
  have "client_send_failed cid c = c\<lparr>cl_sending := cl_sending c - {cid}\<rparr>"
    using None by (simp add: client_send_failed_def)
  then show ?thesis using assms(1) unfolding client_inv_def by simp
next
  case (Some p)
  have f: "client_send_failed cid c = client_dispatch p (word_of_int (- ECONNRESET))
      (c\<lparr>cl_sending := cl_sending c - {cid}, cl_pending := AList.delete cid (cl_pending c)\<rparr>)"
    using Some by (simp add: client_send_failed_def Let_def)
  have "cid' \<noteq> cid" if "cl_reader c = At_body cid' p' res'" for cid' p' res'
    using assms that unfolding client_inv_def by blast
  then show ?thesis
    unfolding f by (intro client_inv_complete [OF assms(1) Some]) auto
qed

lemma client_inv_sent: "client_inv c \<Longrightarrow> client_inv (client_sent cid c)"
  unfolding client_inv_def client_sent_def by simp

lemma client_step_inv:
  assumes "client_step c c'" and "client_inv c" and "length (cl_issued c') < 2 ^ 64"
  shows "client_inv c'"
  using assms
proof (induction rule: client_step.induct)
  case (issue c p)
  then show ?case by (intro client_inv_issue) (simp_all add: client_issue_def)
next
  case (sent cid c)
  then show ?case by (intro client_inv_sent)
qed (auto intro: client_inv_send_failed client_inv_header client_inv_body client_inv_end)

lemma client_step_issued: "client_step c c' \<Longrightarrow> length (cl_issued c) \<le> length (cl_issued c')"
  by (induction rule: client_step.induct)
    (auto simp: client_issue_def client_sent_def client_send_failed_def client_header_def client_body_def
      client_complete_def client_copy_def client_dispatch_def client_end_sel Let_def
      split: option.split reader_at.split)

lemma client_reachable_inv:
  assumes "client_step\<^sup>*\<^sup>* (client_init sync mem) c" and "length (cl_issued c) < 2 ^ 64"
  shows "client_inv c"
  using assms
proof (induction rule: rtranclp_induct)
  case base
  then show ?case by (simp add: client_inv_init)
next
  case (step c c')
  then have "length (cl_issued c) < 2 ^ 64" using client_step_issued [of c c'] by simp
  with step client_step_inv show ?case by blast
qed

text \<open>Once the reader has ended, a request that was sent is never touched again.\<close>

definition stranded :: "u64 \<Rightarrow> 'u pending \<Rightarrow> 'u client \<Rightarrow> bool" where
  "stranded cid p c \<longleftrightarrow> cl_reader c = At_end \<and> map_of (cl_pending c) cid = Some p \<and> cid \<notin> cl_sending c"

lemma stranded_step:
  assumes "client_step c c'" and "client_inv c" and "length (cl_issued c') < 2 ^ 64" and "stranded cid p c"
  shows "stranded cid p c'"
  using assms
proof (induction rule: client_step.induct)
  case (issue c q)
  have "cl_next_cid c \<noteq> cid"
  proof
    assume "cl_next_cid c = cid"
    then have "unat (cl_next_cid c) \<le> length (cl_issued c)"
      using issue.prems(1,3) unfolding client_inv_def stranded_def by (auto dest: map_of_SomeD)
    moreover have "cl_next_cid c = of_nat (length (cl_issued c)) + 1"
      using issue.prems(1) by (simp add: client_inv_def)
    ultimately show False
      using unat_next_cid [of "length (cl_issued c)"] issue.prems(2) by (simp add: client_issue_def)
  qed
  with issue.prems(3) show ?case by (simp add: stranded_def client_issue_def update_conv')
next
  case (send_failed cid' c)
  then have "cid' \<noteq> cid" by (auto simp: stranded_def)
  with send_failed.prems(3) show ?case
    by (auto simp: stranded_def client_send_failed_def client_dispatch_def Let_def split: option.split)
qed (auto simp: stranded_def client_sent_def)

lemma stranded_steps:
  assumes "client_step\<^sup>*\<^sup>* c c'" and "client_inv c" and "length (cl_issued c') < 2 ^ 64" and "stranded cid p c"
  shows "stranded cid p c'"
proof -
  have "length (cl_issued c') < 2 ^ 64 \<longrightarrow> stranded cid p c' \<and> client_inv c'"
    using assms(1)
  proof (induction rule: rtranclp_induct)
    case base
    with assms show ?case by simp
  next
    case (step d d')
    with client_step_issued [of d d'] stranded_step [of d d'] client_step_inv [of d d'] show ?case by auto
  qed
  with assms(3) show ?thesis by blast
qed

subsection \<open>Properties\<close>

text \<open>
  C6. Every request the client accepts is, at every moment and under every interleaving of
  issuing, sending, failing and answering, either pending or has had its callback exactly
  once; pending requests have distinct cids, and the counter behind
  \<open>easybd_client_wait\<close> equals the number of callbacks made (for fewer than
  \<open>2 ^ 64\<close> requests per connection, after which cids repeat).
\<close>

theorem requests_complete_once:
  assumes "client_step\<^sup>*\<^sup>* (client_init sync mem) c" and "length (cl_issued c) < 2 ^ 64"
  shows "mset (cl_issued c) = mset (map fst (cl_callbacks c)) + mset (map (pd_user \<circ> snd) (cl_pending c))
    \<and> distinct (map fst (cl_pending c)) \<and> cl_total_dispatched c = length (cl_callbacks c)"
  using client_reachable_inv [OF assms] unfolding client_inv_def by blast

theorem requests_complete_once_witness:
  "\<exists>c. client_step\<^sup>*\<^sup>* (client_init False (\<lambda>_. [])) c \<and> cl_issued c = [''u'']
     \<and> mset [''u''] = mset (map fst (cl_callbacks c)) + mset (map (pd_user \<circ> snd) (cl_pending c))"
proof -
  let ?c = "client_issue \<lparr>pd_is_read = True, pd_buf = 0, pd_user = ''u''\<rparr> (client_init False (\<lambda>_. []))"
  have r: "client_step\<^sup>*\<^sup>* (client_init False (\<lambda>_. [])) ?c" by (intro r_into_rtranclp issue)
  have i: "cl_issued ?c = [''u'']" by (simp add: client_issue_def client_init_def)
  with requests_complete_once [OF r] r show ?thesis by auto
qed

text \<open>
  When the response reader ends, because the stream ended or a response had an unknown
  cid, every request pending at that moment gets its callback, once, with
  \<open>-ECONNRESET\<close>, and nothing is pending afterwards.
\<close>

lemma reader_end_fails_all:
  "cl_pending (client_end c) = []
   \<and> cl_callbacks (client_end c) = cl_callbacks c
       @ map (\<lambda>e. (pd_user (snd e), word_of_int (- ECONNRESET))) (cl_pending c)
   \<and> cl_total_dispatched (client_end c) = cl_total_dispatched c + length (cl_pending c)
   \<and> (map_of (cl_pending c) (rs_cid resp) = None \<longrightarrow> client_header resp c = client_end c)"
  by (simp add: client_end_sel client_header_def)

text \<open>
  C30. A request issued after the response reader has ended and sent successfully stays
  pending for ever: no later step calls its callback.
\<close>

theorem late_request_never_completes:
  assumes "client_step\<^sup>*\<^sup>* (client_init sync mem) c" and "cl_reader c = At_end"
    and "map_of (cl_pending c) cid = Some p" and "cid \<notin> cl_sending c"
    and "client_step\<^sup>*\<^sup>* c c'" and "length (cl_issued c') < 2 ^ 64"
  shows "map_of (cl_pending c') cid = Some p"
proof -
  have "length (cl_issued c) \<le> length (cl_issued c')"
    using assms(5) by (induction rule: rtranclp_induct) (auto dest: client_step_issued)
  then have "client_inv c" using client_reachable_inv [OF assms(1)] assms(6) by simp
  from stranded_steps [OF assms(5) this assms(6), of cid p] assms(2-4) show ?thesis
    by (simp add: stranded_def)
qed

theorem late_request_never_completes_witness:
  "\<exists>c. client_step\<^sup>*\<^sup>* (client_init False (\<lambda>_. [])) c \<and> cl_reader c = At_end
     \<and> map_of (cl_pending c) 1 = Some \<lparr>pd_is_read = True, pd_buf = 0, pd_user = ''u''\<rparr>"
proof -
  let ?p = "\<lparr>pd_is_read = True, pd_buf = 0, pd_user = ''u''\<rparr>"
  let ?start = "client_init False (\<lambda>_. []) :: string client"
  let ?c = "client_sent 1 (client_issue ?p (client_end ?start))"
  have "client_step ?start (client_end ?start)" by (rule stream_end) (simp add: client_init_def)
  moreover have "client_step (client_end ?start) (client_issue ?p (client_end ?start))" by (rule issue)
  moreover have "client_step (client_issue ?p (client_end ?start)) ?c"
    by (rule sent) (simp add: client_issue_def client_end_sel client_init_def)
  ultimately have r: "client_step\<^sup>*\<^sup>* ?start ?c"
    by (meson converse_rtranclp_into_rtranclp rtranclp.rtrancl_refl)
  have s: "cl_reader ?c = At_end" "map_of (cl_pending ?c) 1 = Some ?p" "1 \<notin> cl_sending ?c"
    "length (cl_issued ?c) < 2 ^ 64"
    by (simp_all add: client_sent_def client_issue_def client_end_sel client_init_def)
  from late_request_never_completes [OF r s(1-3) rtranclp.rtrancl_refl s(4)] r s show ?thesis by blast
qed





end
