(* ===== verification/Queue_Api.thy ===== *)
theory Queue_Api
  imports Libc_Ops
begin

text \<open>
  The backend-independent entry points of \<open>easyio/src/queue.cpp\<close> and the C interface
  of \<open>client/capi.cpp\<close> over them: choosing a backend, the socket options, and the
  translation of exceptions into negative errnos. Whether the build has liburing is the
  parameter \<open>liburing\<close>.
\<close>

unbundle bit_operations_syntax

subsection \<open>Definitions\<close>

datatype Backend = IoUring | Libc

definition backend_name :: "Backend \<Rightarrow> string" where
  "backend_name b = (case b of IoUring \<Rightarrow> ''io_uring'' | Libc \<Rightarrow> ''libc'')"

definition io_uring_available :: "bool \<Rightarrow> bool" where
  "io_uring_available liburing = liburing"

text \<open>
  \<open>Queue::create\<close>: which queue is made; \<open>init\<close> is what
  \<open>io_uring_queue_init\<close> answers.
\<close>

definition queue_create :: "bool \<Rightarrow> sys_result \<Rightarrow> Backend \<Rightarrow> exn + Backend" where
  "queue_create liburing init b =
     (case b of
        IoUring \<Rightarrow>
          if liburing
          then (case init of Sys_ok _ \<Rightarrow> Inr IoUring | Sys_errno e \<Rightarrow> Inl (System_error e))
          else Inl (Invalid_argument
            ''easyio: io_uring backend requested but this build was configured with --without-liburing'')
      | Libc \<Rightarrow> Inr Libc)"

definition O_NONBLOCK :: u32 where "O_NONBLOCK = 2048"

text \<open>
  \<open>set_nonblocking\<close>: \<open>getfl\<close> and \<open>setfl\<close> are the two \<open>fcntl\<close> calls; the
  result is an exception or the flags that were set.
\<close>

definition set_nonblocking :: "sys_result \<Rightarrow> (u32 \<Rightarrow> sys_result) \<Rightarrow> exn + u32" where
  "set_nonblocking getfl setfl =
     (case getfl of
        Sys_errno e \<Rightarrow> Inl (System_error e)
      | Sys_ok flags \<Rightarrow>
          (let fl = of_nat flags OR O_NONBLOCK
           in case setfl fl of Sys_errno e \<Rightarrow> Inl (System_error e) | Sys_ok _ \<Rightarrow> Inr fl))"

definition set_tcp_nodelay :: "sys_result \<Rightarrow> exn + unit" where
  "set_tcp_nodelay r = (case r of Sys_errno e \<Rightarrow> Inl (System_error e) | Sys_ok _ \<Rightarrow> Inr ())"

subsubsection \<open>The C interface\<close>

text \<open>\<open>to_easyio_backend\<close>, on the integer a C caller passes.\<close>

definition to_easyio_backend :: "int \<Rightarrow> exn + Backend" where
  "to_easyio_backend b =
     (if b = 0 then Inr IoUring else if b = 1 then Inr Libc
      else Inl (Invalid_argument ''easybd: unknown backend''))"

definition easybd_io_uring_available :: "bool \<Rightarrow> int" where
  "easybd_io_uring_available liburing = (if io_uring_available liburing then 1 else 0)"

text \<open>The \<open>catch\<close> clauses: an escaped exception becomes a negative errno.\<close>

definition errno_of_exn :: "exn \<Rightarrow> int" where
  "errno_of_exn e = (case e of System_error n \<Rightarrow> - n | Bad_alloc \<Rightarrow> - ENOMEM | _ \<Rightarrow> - EINVAL)"

text \<open>
  \<open>easybd_client_create\<close>: \<open>make\<close> is the \<open>Client\<close> constructor, \<open>None\<close> if it
  does not return. The result is the status and what \<open>*out\<close> is set to, if anything.
\<close>

definition easybd_client_create ::
  "(Backend \<Rightarrow> (exn + 'c) option) \<Rightarrow> int \<Rightarrow> (int \<times> 'c option) option" where
  "easybd_client_create make backend =
     (case to_easyio_backend backend of
        Inl e \<Rightarrow> Some (errno_of_exn e, None)
      | Inr b \<Rightarrow>
          (case make b of
             None \<Rightarrow> None
           | Some (Inl e) \<Rightarrow> Some (errno_of_exn e, None)
           | Some (Inr c) \<Rightarrow> Some (0, Some c)))"

text \<open>The other calls: the member function's value or the translated exception.\<close>

definition easybd_client_call :: "exn + int \<Rightarrow> int" where
  "easybd_client_call r = (case r of Inl e \<Rightarrow> errno_of_exn e | Inr n \<Rightarrow> n)"

subsubsection \<open>Connecting\<close>

text \<open>
  \<open>resolve_ipv4\<close>: \<open>inet_pton\<close> reads IPv4 literals, \<open>getaddrinfo\<close> answers an
  address or an error text.
\<close>

definition resolve_ipv4 :: "(string \<Rightarrow> u32 option) \<Rightarrow> (string \<Rightarrow> string + u32) \<Rightarrow> string \<Rightarrow> exn + u32" where
  "resolve_ipv4 inet_pton getaddrinfo host =
     (case inet_pton host of
        Some addr \<Rightarrow> Inr addr
      | None \<Rightarrow>
          (case getaddrinfo host of
             Inl err \<Rightarrow> Inl (Invalid_argument
               (''easybd: could not resolve host '' @ [CHR 0x27] @ host @ [CHR 0x27] @ '': '' @ err))
           | Inr addr \<Rightarrow> Inr addr))"

text \<open>
  What the rounds of \<open>while (!connected) step (-1)\<close> bring: \<open>step\<close> throws, nothing
  yet, or \<open>connect_task\<close> is done, with the exception it caught. The result is the
  exception that escapes the loop or \<open>connect_err\<close>; \<open>None\<close> if the loop goes on.
\<close>

datatype pump = Step_throws exn | Step_idle | Connect_done "exn option"

fun connect_pump :: "pump list \<Rightarrow> (exn + exn option) option" where
  "connect_pump [] = None"
| "connect_pump (Step_throws e # ps) = Some (Inl e)"
| "connect_pump (Step_idle # ps) = connect_pump ps"
| "connect_pump (Connect_done err # ps) = Some (Inr err)"

record connect_env =
  ce_liburing :: bool
  ce_queue_init :: sys_result
  ce_socket :: sys_result
  ce_getfl :: sys_result
  ce_setfl :: "u32 \<Rightarrow> sys_result"
  ce_nodelay :: sys_result
  ce_inet_pton :: "string \<Rightarrow> u32 option"
  ce_getaddrinfo :: "string \<Rightarrow> string + u32"
  ce_pump :: "pump list"

text \<open>The constructor of \<open>Client\<close>: its outcome and the descriptors it leaves open.\<close>

definition client_constructor :: "connect_env \<Rightarrow> string \<Rightarrow> Backend \<Rightarrow> ((exn + nat) \<times> nat list) option" where
  "client_constructor env host b =
     (case queue_create (ce_liburing env) (ce_queue_init env) b of
        Inl e \<Rightarrow> Some (Inl e, [])
      | Inr _ \<Rightarrow>
          (case ce_socket env of
             Sys_errno e \<Rightarrow> Some (Inl (System_error e), [])
           | Sys_ok fd \<Rightarrow>
               (case set_nonblocking (ce_getfl env) (ce_setfl env) of
                  Inl e \<Rightarrow> Some (Inl e, [fd])
                | Inr _ \<Rightarrow>
                    (case set_tcp_nodelay (ce_nodelay env) of
                       Inl e \<Rightarrow> Some (Inl e, [fd])
                     | Inr _ \<Rightarrow>
                         (case resolve_ipv4 (ce_inet_pton env) (ce_getaddrinfo env) host of
                            Inl e \<Rightarrow> Some (Inl e, [])
                          | Inr _ \<Rightarrow>
                              (case connect_pump (ce_pump env) of
                                 None \<Rightarrow> None
                               | Some (Inl e) \<Rightarrow> Some (Inl e, [fd])
                               | Some (Inr (Some e)) \<Rightarrow> Some (Inl e, [])
                               | Some (Inr None) \<Rightarrow> Some (Inr fd, [fd])))))))"

text \<open>System calls and the queue report positive errnos.\<close>

definition exn_ok :: "exn \<Rightarrow> bool" where
  "exn_ok x \<longleftrightarrow> (\<forall>e. x = System_error e \<longrightarrow> 0 < e)"

fun pump_ok :: "pump \<Rightarrow> bool" where
  "pump_ok (Step_throws e) \<longleftrightarrow> exn_ok e"
| "pump_ok Step_idle \<longleftrightarrow> True"
| "pump_ok (Connect_done x) \<longleftrightarrow> (\<forall>e. x = Some e \<longrightarrow> exn_ok e)"

definition env_ok :: "connect_env \<Rightarrow> bool" where
  "env_ok env \<longleftrightarrow> sys_ok (ce_queue_init env) \<and> sys_ok (ce_socket env) \<and> sys_ok (ce_getfl env)
     \<and> (\<forall>f. sys_ok (ce_setfl env f)) \<and> sys_ok (ce_nodelay env) \<and> list_all pump_ok (ce_pump env)"

lemma errno_of_exn_neg: "exn_ok e \<Longrightarrow> errno_of_exn e < 0"
  by (cases e) (auto simp: exn_ok_def errno_of_exn_def ENOMEM_def EINVAL_def)

lemma connect_pump_ok:
  "list_all pump_ok ps \<Longrightarrow> connect_pump ps = Some r \<Longrightarrow> r = Inl e \<or> r = Inr (Some e) \<Longrightarrow> exn_ok e"
  by (induction ps rule: connect_pump.induct) auto

lemma exn_ok_system: "0 < e \<Longrightarrow> exn_ok (System_error e)"
  by (simp add: exn_ok_def)

lemma queue_create_ok: "sys_ok init \<Longrightarrow> queue_create liburing init b = Inl e \<Longrightarrow> exn_ok e"
  by (auto simp: queue_create_def exn_ok_def split: Backend.splits if_splits sys_result.splits)

lemma set_nonblocking_ok:
  assumes "sys_ok g" and "\<And>x. sys_ok (f x)" and "set_nonblocking g f = Inl e"
  shows "exn_ok e"
proof -
  have "\<And>x n. f x = Sys_errno n \<Longrightarrow> 0 < n" using assms(2) by (metis sys_ok.simps(2))
  with assms(1,3) show ?thesis
    by (auto simp: set_nonblocking_def exn_ok_def Let_def split: sys_result.splits)
qed

lemma set_tcp_nodelay_ok: "sys_ok r \<Longrightarrow> set_tcp_nodelay r = Inl e \<Longrightarrow> exn_ok e"
  by (auto simp: set_tcp_nodelay_def exn_ok_def split: sys_result.splits)

lemma resolve_ipv4_ok: "resolve_ipv4 p g host = Inl e \<Longrightarrow> exn_ok e"
  by (auto simp: resolve_ipv4_def exn_ok_def split: option.splits sum.splits)

lemma client_constructor_ok:
  assumes "env_ok env" and "client_constructor env host b = Some (Inl e, fds)"
  shows "exn_ok e"
  using assms
  by (auto simp: client_constructor_def env_ok_def
      intro: exn_ok_system
      dest: queue_create_ok set_nonblocking_ok set_tcp_nodelay_ok resolve_ipv4_ok
        connect_pump_ok [where e = e]
      split: sum.splits sys_result.splits option.splits)

subsection \<open>Properties\<close>

text \<open>
  Creating a client from C never reports success without a client nor a client without
  success: when the call returns, the status is 0 exactly when \<open>*out\<close> is set, to the
  connected descriptor's client, and otherwise a negative errno with \<open>*out\<close> untouched;
  an unknown backend, and io_uring in a build without it, give \<open>-EINVAL\<close>.
\<close>

lemma capi_create_status:
  assumes "env_ok env"
  shows "(case easybd_client_create (\<lambda>b. map_option fst (client_constructor env host b)) backend of
       None \<Rightarrow> connect_pump (ce_pump env) = None
     | Some (status, Some fd) \<Rightarrow> status = 0 \<and> ce_socket env = Sys_ok fd
         \<and> connect_pump (ce_pump env) = Some (Inr None)
     | Some (status, None) \<Rightarrow> status < 0)
    \<and> (backend \<notin> {0, 1} \<or> backend = 0 \<and> \<not> ce_liburing env \<longrightarrow>
        easybd_client_create (\<lambda>b. map_option fst (client_constructor env host b)) backend = Some (- EINVAL, None))"
proof -
  let ?make = "\<lambda>b. map_option fst (client_constructor env host b)"
  have inval: "errno_of_exn (Invalid_argument s) = - EINVAL" "- EINVAL < 0" for s
    by (simp_all add: errno_of_exn_def EINVAL_def)
  have neg: "errno_of_exn e < 0" if "?make b = Some (Inl e)" for b e
    using that client_constructor_ok [OF assms] errno_of_exn_neg by auto
  have pos: "ce_socket env = Sys_ok fd \<and> connect_pump (ce_pump env) = Some (Inr None)"
    if "?make b = Some (Inr fd)" for b fd
    using that by (auto simp: client_constructor_def split: sum.splits sys_result.splits option.splits)
  have none: "connect_pump (ce_pump env) = None" if "?make b = None" for b
    using that by (auto simp: client_constructor_def split: sum.splits sys_result.splits option.splits)
  have "easybd_client_create ?make backend = Some (- EINVAL, None)" if "backend = 0" "\<not> ce_liburing env"
    using that
    by (simp add: easybd_client_create_def to_easyio_backend_def client_constructor_def queue_create_def inval)
  moreover have "easybd_client_create ?make backend = Some (- EINVAL, None)" if "backend \<notin> {0, 1}"
    using that by (simp add: easybd_client_create_def to_easyio_backend_def inval)
  moreover have "case easybd_client_create ?make backend of
       None \<Rightarrow> connect_pump (ce_pump env) = None
     | Some (status, Some fd) \<Rightarrow> status = 0 \<and> ce_socket env = Sys_ok fd
         \<and> connect_pump (ce_pump env) = Some (Inr None)
     | Some (status, None) \<Rightarrow> status < 0"
    unfolding easybd_client_create_def
    using neg pos none inval
    by (cases "to_easyio_backend backend")
      (auto simp: to_easyio_backend_def split: option.split sum.split if_splits)
  ultimately show ?thesis by blast
qed

text \<open>
  When the constructor of \<open>Client\<close> throws, its socket stays open exactly if it was
  made and setting its options failed or the queue itself failed while connecting; a host
  that does not resolve and a refused connection leave nothing open.
\<close>

lemma client_constructor_leak:
  assumes "client_constructor env host b = Some (Inl e, fds)"
  shows "fds \<noteq> [] \<longleftrightarrow> (\<exists>fd q. ce_socket env = Sys_ok fd
      \<and> queue_create (ce_liburing env) (ce_queue_init env) b = Inr q
      \<and> (set_nonblocking (ce_getfl env) (ce_setfl env) = Inl e \<or> set_tcp_nodelay (ce_nodelay env) = Inl e
         \<or> connect_pump (ce_pump env) = Some (Inl e)
           \<and> (\<exists>addr. resolve_ipv4 (ce_inet_pton env) (ce_getaddrinfo env) host = Inr addr)))"
  using assms
  by (auto simp: client_constructor_def split: sum.splits sys_result.splits option.splits)

end
