(* ===== verification/Client_Send.thy ===== *)
theory Client_Send
  imports Client Serial_Send Queue_Api
begin

text \<open>
  The client with its senders, \<open>client/client.cpp\<close>: \<open>pread\<close> and \<open>pwrite\<close> spawn
  \<open>send_request\<close>, which waits for \<open>_send_mtx\<close>, sends the message and handles a
  failure. The bookkeeping is that of \<open>Client\<close>, the mutex and the socket are the shared
  pattern of \<open>Serial_Send\<close>, with the cid as the sender's name. The destructor cancels
  what is registered on the socket.
\<close>

subsection \<open>Definitions\<close>

text \<open>\<open>cc_accepted\<close> records the accepted requests with their entries, in order.\<close>

record 'u cconn =
  cc_client :: "'u client"
  cc_send :: "u64 serial"
  cc_accepted :: "((EasyBDRequestHeader \<times> byte list) \<times> 'u pending) list"

definition cc_init :: "bool \<Rightarrow> (nat \<Rightarrow> byte list) \<Rightarrow> 'u cconn" where
  "cc_init sync mem = \<lparr>cc_client = client_init sync mem, cc_send = serial_init, cc_accepted = []\<rparr>"

text \<open>\<open>send_request\<close> up to its first suspension: the request is built, the mutex asked for.\<close>

definition send_request ::
  "byte_order \<Rightarrow> 'u pending \<Rightarrow> EasyBDRequestHeader \<times> byte list \<Rightarrow> 'u cconn \<Rightarrow> 'u cconn" where
  "send_request bo p m c =
     c\<lparr>cc_send := sl_enter (rq_cid (fst m)) (message_bytes bo m) (cc_send c),
       cc_accepted := cc_accepted c @ [(m, p)]\<rparr>"

definition cc_pread :: "byte_order \<Rightarrow> nat \<Rightarrow> u64 \<Rightarrow> u64 \<Rightarrow> 'u \<Rightarrow> 'u cconn \<Rightarrow> int \<times> 'u cconn" where
  "cc_pread bo buf sz off u c =
     (case client_pread buf sz off u (cc_client c) of
        (rc, None, cl) \<Rightarrow> (rc, c\<lparr>cc_client := cl\<rparr>)
      | (rc, Some m, cl) \<Rightarrow>
          (rc, send_request bo \<lparr>pd_is_read = True, pd_buf = buf, pd_user = u\<rparr> m (c\<lparr>cc_client := cl\<rparr>)))"

definition cc_pwrite :: "byte_order \<Rightarrow> byte list \<Rightarrow> u64 \<Rightarrow> 'u \<Rightarrow> 'u cconn \<Rightarrow> int \<times> 'u cconn" where
  "cc_pwrite bo data off u c =
     (case client_pwrite data off u (cc_client c) of
        (rc, None, cl) \<Rightarrow> (rc, c\<lparr>cc_client := cl\<rparr>)
      | (rc, Some m, cl) \<Rightarrow>
          (rc, send_request bo \<lparr>pd_is_read = False, pd_buf = 0, pd_user = u\<rparr> m (c\<lparr>cc_client := cl\<rparr>)))"

text \<open>
  The socket takes bytes; \<open>send_request\<close> ends; \<open>send_all\<close> throws, and the
  \<open>catch\<close> clause runs before the guard is destroyed.
\<close>

definition cc_take :: "u64 \<Rightarrow> byte list \<Rightarrow> nat \<Rightarrow> nat \<Rightarrow> 'u cconn \<Rightarrow> 'u cconn" where
  "cc_take k msg j n c =
     c\<lparr>cc_send := sl_send k msg j n (cc_send c),
       cc_client := (if j + n = length msg then client_sent k (cc_client c) else cc_client c)\<rparr>"

definition cc_sent :: "u64 \<Rightarrow> byte list \<Rightarrow> 'u cconn \<Rightarrow> 'u cconn" where
  "cc_sent k msg c = c\<lparr>cc_send := sl_sent k msg (cc_send c)\<rparr>"

definition cc_fail :: "u64 \<Rightarrow> 'u cconn \<Rightarrow> 'u cconn" where
  "cc_fail k c = c\<lparr>cc_client := client_send_failed k (cc_client c), cc_send := sl_fail k (cc_send c)\<rparr>"

inductive cc_step :: "byte_order \<Rightarrow> 'u cconn \<Rightarrow> 'u cconn \<Rightarrow> bool" for bo :: byte_order where
  pread: "cc_step bo c (snd (cc_pread bo buf sz off u c))"
| pwrite: "cc_step bo c (snd (cc_pwrite bo data off u c))"
| take: "sl_senders (cc_send c) k = Some (Sending msg j) \<Longrightarrow> 0 < n \<Longrightarrow> j + n \<le> length msg \<Longrightarrow>
    cc_step bo c (cc_take k msg j n c)"
| sent: "sl_senders (cc_send c) k = Some (Sending msg (length msg)) \<Longrightarrow> cc_step bo c (cc_sent k msg c)"
| fail: "sl_senders (cc_send c) k = Some (Sending msg j) \<Longrightarrow> j < length msg \<Longrightarrow> cc_step bo c (cc_fail k c)"
| header: "cl_reader (cc_client c) = At_header \<Longrightarrow> rs_cid resp \<notin> cl_sending (cc_client c) \<Longrightarrow>
    cc_step bo c (c\<lparr>cc_client := client_header resp (cc_client c)\<rparr>)"
| body: "cl_reader (cc_client c) = At_body cid p res \<Longrightarrow> length data = nat (sint res) \<Longrightarrow>
    cc_step bo c (c\<lparr>cc_client := client_body data (cc_client c)\<rparr>)"
| stream_end: "cl_reader (cc_client c) \<noteq> At_end \<Longrightarrow>
    cc_step bo c (c\<lparr>cc_client := client_end (cc_client c)\<rparr>)"

text \<open>
  \<open>~Client\<close>, as far as it resumes coroutines. On the libc backend \<open>cancel_fd\<close>
  cancels the reader's registration, then the one write that is registered, that of the
  sender \<open>k\<close> that holds the mutex. The guard of that sender resumes the next one waiting
  for the mutex, which is registered anew unless the socket takes its message at once
  (further steps \<open>take\<close> and \<open>sent\<close>). On io_uring \<open>cancel_fd\<close> only queues a
  submission, and the queue's destructor drops the completions: nothing is resumed.
\<close>

definition cancel_reader :: "'u cconn \<Rightarrow> 'u cconn" where
  "cancel_reader c =
     (if cl_reader (cc_client c) = At_end then c else c\<lparr>cc_client := client_end (cc_client c)\<rparr>)"

definition client_destructor :: "Backend \<Rightarrow> u64 option \<Rightarrow> 'u cconn \<Rightarrow> 'u cconn" where
  "client_destructor backend registered c =
     (case backend of
        IoUring \<Rightarrow> c
      | Libc \<Rightarrow>
          (case registered of None \<Rightarrow> cancel_reader c | Some k \<Rightarrow> cc_fail k (cancel_reader c)))"

subsection \<open>Accepting a request\<close>

text \<open>A message as the client builds it, with its entry in \<open>_pending\<close>.\<close>

definition request_ok :: "(EasyBDRequestHeader \<times> byte list) \<times> 'u pending \<Rightarrow> bool" where
  "request_ok e \<longleftrightarrow> message_ok (\<lambda>_. True) (fst e) \<and> rq_size (fst (fst e)) \<le> EASYBD_MAX_PAYLOAD_SIZE
     \<and> pd_is_read (snd e) = (\<not> is_write_op (rq_op (fst (fst e))))"

lemma client_pread_cases:
  obtains rc where "client_pread buf sz off u c = (rc, None, c)"
  | m where "client_pread buf sz off u c
        = (0, Some m, client_issue \<lparr>pd_is_read = True, pd_buf = buf, pd_user = u\<rparr> c)"
      and "request_ok (m, \<lparr>pd_is_read = True, pd_buf = buf, pd_user = u\<rparr>)" and "rq_cid (fst m) = cl_next_cid c"
  by (cases "EASYBD_MAX_PAYLOAD_SIZE < sz")
    (auto simp: client_pread_def request_ok_def message_ok_def request_payload_len_def is_write_op_def
      EASYBD_OP_READ_def EASYBD_OP_WRITE_def EASYBD_OP_WRITE_SYNC_def)

lemma client_pwrite_cases:
  obtains rc where "client_pwrite data off u c = (rc, None, c)"
  | m where "client_pwrite data off u c
        = (0, Some m, client_issue \<lparr>pd_is_read = False, pd_buf = 0, pd_user = u\<rparr> c)"
      and "request_ok (m, \<lparr>pd_is_read = False, pd_buf = 0, pd_user = u\<rparr>)" and "rq_cid (fst m) = cl_next_cid c"
proof (cases "unat EASYBD_MAX_PAYLOAD_SIZE < length data")
  case True
  then show thesis using that(1) by (simp add: client_pwrite_def)
next
  case False
  then have "unat (of_nat (length data) :: u64) = length data" "(of_nat (length data) :: u64) \<le> EASYBD_MAX_PAYLOAD_SIZE"
    by (simp_all add: max_payload_nat word_le_nat_alt unat_of_nat take_bit_nat_eq_self)
  with False show thesis
    using that(2) by (simp add: client_pwrite_def request_ok_def message_ok_def request_payload_len_def is_write_op_def)
qed

lemma cc_pread_cases:
  obtains "snd (cc_pread bo buf sz off u c) = c"
  | m p where "snd (cc_pread bo buf sz off u c) = send_request bo p m (c\<lparr>cc_client := client_issue p (cc_client c)\<rparr>)"
      and "request_ok (m, p)" and "rq_cid (fst m) = cl_next_cid (cc_client c)"
  by (cases rule: client_pread_cases [of buf sz off u "cc_client c"]) (auto simp: cc_pread_def)

lemma cc_pwrite_cases:
  obtains "snd (cc_pwrite bo data off u c) = c"
  | m p where "snd (cc_pwrite bo data off u c) = send_request bo p m (c\<lparr>cc_client := client_issue p (cc_client c)\<rparr>)"
      and "request_ok (m, p)" and "rq_cid (fst m) = cl_next_cid (cc_client c)"
  by (cases rule: client_pwrite_cases [of data off u "cc_client c"]) (auto simp: cc_pwrite_def)

text \<open>The cases of a step, with both ways of accepting a request taken together.\<close>

lemma cc_step_cases:
  assumes "cc_step bo c c'"
  obtains (same) "c' = c"
  | (accept) m p where "c' = send_request bo p m (c\<lparr>cc_client := client_issue p (cc_client c)\<rparr>)"
      and "request_ok (m, p)" and "rq_cid (fst m) = cl_next_cid (cc_client c)"
  | (take) k msg j n where "c' = cc_take k msg j n c" and "sl_senders (cc_send c) k = Some (Sending msg j)"
      and "0 < n" and "j + n \<le> length msg"
  | (sent) k msg where "c' = cc_sent k msg c" and "sl_senders (cc_send c) k = Some (Sending msg (length msg))"
  | (fail) k msg j where "c' = cc_fail k c" and "sl_senders (cc_send c) k = Some (Sending msg j)" and "j < length msg"
  | (reader) cl where "c' = c\<lparr>cc_client := cl\<rparr>" and "client_step (cc_client c) cl"
      and "cl_issued cl = cl_issued (cc_client c)" and "cl_sending cl = cl_sending (cc_client c)"
  using assms
proof cases
  case (header resp)
  then show thesis
    by (intro reader [OF header(1) client_step.header])
      (auto simp: client_header_def client_complete_def client_dispatch_def client_end_sel split: option.split)
next
  case (body cid p res data)
  then show thesis
    by (intro reader [OF body(1) client_step.body])
      (auto simp: client_body_def client_complete_def client_dispatch_def client_copy_def)
next
  case stream_end
  then show thesis by (intro reader [OF stream_end(1) client_step.stream_end]) (auto simp: client_end_sel)
qed (use assms same accept take sent fail in \<open>metis cc_pread_cases cc_pwrite_cases\<close>)+

subsection \<open>The invariant\<close>

text \<open>
  The senders are named by the cids of the accepted requests, cids count from 1, and a
  request is in \<open>cl_sending\<close> exactly until its last byte is taken.
\<close>

definition accepted_message ::
  "byte_order \<Rightarrow> (EasyBDRequestHeader \<times> byte list) \<times> 'u pending \<Rightarrow> u64 \<times> byte list" where
  "accepted_message bo e = (rq_cid (fst (fst e)), message_bytes bo (fst e))"

definition unsent :: "sphase option \<Rightarrow> bool" where
  "unsent p \<longleftrightarrow> (case p of None \<Rightarrow> False | Some (Queued msg) \<Rightarrow> msg \<noteq> [] | Some (Sending msg j) \<Rightarrow> j < length msg)"

definition cc_inv :: "byte_order \<Rightarrow> 'u cconn \<Rightarrow> bool" where
  "cc_inv bo c \<longleftrightarrow> client_inv (cc_client c) \<and> serial_inv (cc_send c)
     \<and> sl_entered (cc_send c) = map (accepted_message bo) (cc_accepted c)
     \<and> cl_issued (cc_client c) = map (pd_user \<circ> snd) (cc_accepted c)
     \<and> list_all request_ok (cc_accepted c)
     \<and> map (rq_cid \<circ> fst \<circ> fst) (cc_accepted c) = map (\<lambda>i. of_nat i + 1) [0..<length (cc_accepted c)]
     \<and> (\<forall>k. k \<in> cl_sending (cc_client c) \<longleftrightarrow> unsent (sl_senders (cc_send c) k))
     \<and> (\<forall>k. sl_senders (cc_send c) k \<noteq> None \<longrightarrow> 0 < unat k \<and> unat k \<le> length (cc_accepted c))"

lemmas cc_invD = cc_inv_def [THEN iffD1]

lemma cc_inv_init: "cc_inv bo (cc_init sync mem)"
  using client_inv_init [of sync mem] serial_inv_init
  by (simp add: cc_inv_def cc_init_def client_init_def serial_init_def unsent_def)

lemma message_bytes_nonempty: "message_bytes bo m \<noteq> []"
  by (auto simp: message_bytes_def sizeof_EasyBDRequestHeader_def simp flip: length_0_conv)

lemma cc_inv_accept:
  assumes "cc_inv bo c" and "request_ok (m, p)" and "rq_cid (fst m) = cl_next_cid (cc_client c)"
    and "length (cc_accepted c) + 1 < 2 ^ 64"
  shows "cc_inv bo (send_request bo p m (c\<lparr>cc_client := client_issue p (cc_client c)\<rparr>))"
proof -
  note inv = cc_invD [OF assms(1)]
  let ?n = "length (cc_accepted c)" and ?k = "cl_next_cid (cc_client c)"
  have issued: "length (cl_issued (cc_client c)) = ?n" using inv by simp
  then have k: "?k = of_nat ?n + 1" using inv by (simp add: client_inv_def)
  have uk: "unat ?k = ?n + 1" unfolding k by (rule unat_next_cid [OF assms(4)])
  then have new: "sl_senders (cc_send c) ?k = None" using inv by (metis not_less_eq_eq Suc_eq_plus1 order.refl)
  have "client_inv (client_issue p (cc_client c))"
    using client_inv_issue [of "cc_client c" p] inv assms(4) issued by simp
  moreover have "serial_inv (sl_enter ?k (message_bytes bo m) (cc_send c))"
    using serial_inv_enter [OF _ new] inv by blast
  moreover have "k \<in> insert ?k (cl_sending (cc_client c)) \<longleftrightarrow>
      unsent (sl_senders (sl_enter ?k (message_bytes bo m) (cc_send c)) k)" for k
    using inv message_bytes_nonempty [of bo m] by (simp add: unsent_def)
  moreover have "0 < unat k \<and> unat k \<le> ?n + 1"
    if "sl_senders (sl_enter ?k (message_bytes bo m) (cc_send c)) k \<noteq> None" for k
    using that inv uk by (cases "k = ?k") force+
  ultimately show ?thesis
    using inv assms(2,3) k
    unfolding cc_inv_def send_request_def
    by (simp add: accepted_message_def client_issue_def)
qed

lemma cc_inv_take:
  assumes "cc_inv bo c" and "sl_senders (cc_send c) k = Some (Sending msg j)" and "j + n \<le> length msg" and "0 < n"
  shows "cc_inv bo (cc_take k msg j n c)"
proof -
  note inv = cc_invD [OF assms(1)]
  let ?s = "sl_send k msg j n (cc_send c)"
  have "serial_inv ?s" using serial_inv_send [OF _ assms(2,3)] inv by blast
  moreover have "client_inv (client_sent k (cc_client c))"
    using inv by (blast intro: client_inv_sent)
  moreover have "sl_senders ?s = (sl_senders (cc_send c))(k \<mapsto> Sending msg (j + n))" by (simp add: sl_send_def)
  moreover have "k \<in> cl_sending (cc_client c)"
    using inv assms(2-4) by (simp add: unsent_def)
  moreover have "0 < unat k \<and> unat k \<le> length (cc_accepted c)" using inv assms(2) by simp
  ultimately show ?thesis
    using inv assms(3) unfolding cc_inv_def cc_take_def
    by (auto simp: client_sent_def unsent_def)
qed

lemma unsent_release:
  "unsent (resume_sender nxt (sn(k := None)) x) \<longleftrightarrow> x \<noteq> k \<and> unsent (sn x)"
  by (auto simp: unsent_def resume_sender_def split: option.split sphase.split)

lemma unsent_sl_release:
  "unsent (sl_senders (sl_release k s) x) \<longleftrightarrow> x \<noteq> k \<and> unsent (sl_senders s x)"
  by (simp add: sl_release_def unsent_release split: prod.split)

lemma cc_inv_sent:
  assumes "cc_inv bo c" and "sl_senders (cc_send c) k = Some (Sending msg (length msg))"
  shows "cc_inv bo (cc_sent k msg c)"
proof -
  note inv = cc_invD [OF assms(1)]
  have "serial_inv (sl_sent k msg (cc_send c))" using serial_inv_sent [OF _ assms(2)] inv by blast
  moreover have "unsent (sl_senders (sl_sent k msg (cc_send c)) x) = unsent (sl_senders (cc_send c) x)" for x
    using assms(2) by (cases "x = k") (simp_all add: sl_sent_def unsent_sl_release, simp add: unsent_def)
  ultimately show ?thesis
    using inv unfolding cc_inv_def cc_sent_def by simp
qed

lemma client_send_failed_sel [simp]:
  "cl_issued (client_send_failed k c) = cl_issued c" "cl_sending (client_send_failed k c) = cl_sending c - {k}"
  by (simp_all add: client_send_failed_def client_dispatch_def Let_def split: option.split)

lemma cc_inv_fail:
  assumes "cc_inv bo c" and "sl_senders (cc_send c) k = Some (Sending msg j)" and "j < length msg"
  shows "cc_inv bo (cc_fail k c)"
proof -
  note inv = cc_invD [OF assms(1)]
  have k: "k \<in> cl_sending (cc_client c)" using inv assms(2,3) by (simp add: unsent_def)
  have "serial_inv (sl_fail k (cc_send c))" using serial_inv_fail [OF _ assms(2,3)] inv by blast
  moreover have "client_inv (client_send_failed k (cc_client c))"
    using inv client_inv_send_failed [OF _ k] by blast
  moreover have "unsent (sl_senders (sl_fail k (cc_send c)) x) \<longleftrightarrow> x \<noteq> k \<and> unsent (sl_senders (cc_send c) x)" for x
    by (simp add: sl_fail_def unsent_sl_release)
  ultimately show ?thesis
    using inv unfolding cc_inv_def cc_fail_def by auto
qed

lemma cc_inv_reader:
  assumes "cc_inv bo c" and "client_step (cc_client c) cl" and "cl_issued cl = cl_issued (cc_client c)"
    and "cl_sending cl = cl_sending (cc_client c)" and "length (cc_accepted c) < 2 ^ 64"
  shows "cc_inv bo (c\<lparr>cc_client := cl\<rparr>)"
proof -
  note inv = cc_invD [OF assms(1)]
  then have "length (cl_issued cl) < 2 ^ 64" using assms(3,5) by simp
  then have "client_inv cl" using client_step_inv [OF assms(2)] inv by blast
  with inv assms(3,4) show ?thesis unfolding cc_inv_def by simp
qed

lemma cc_step_accepted: "cc_step bo c c' \<Longrightarrow> \<exists>es. cc_accepted c' = cc_accepted c @ es"
  by (erule cc_step_cases) (auto simp: send_request_def cc_take_def cc_sent_def cc_fail_def)

lemma cc_step_inv:
  assumes "cc_step bo c c'" and "cc_inv bo c" and "length (cc_accepted c') < 2 ^ 64"
  shows "cc_inv bo c'"
  using assms(1)
proof (cases rule: cc_step_cases)
  case same
  then show ?thesis using assms(2) by simp
next
  case (accept m p)
  then show ?thesis
    using cc_inv_accept [OF assms(2) accept(2,3)] assms(3) by (simp add: send_request_def)
next
  case (take k msg j n)
  then show ?thesis using cc_inv_take [OF assms(2)] by blast
next
  case (sent k msg)
  then show ?thesis using cc_inv_sent [OF assms(2)] by blast
next
  case (fail k msg j)
  then show ?thesis using cc_inv_fail [OF assms(2)] by blast
next
  case (reader cl)
  then show ?thesis using cc_inv_reader [OF assms(2)] assms(3) by simp
qed

lemma cc_reachable_inv:
  assumes "(cc_step bo)\<^sup>*\<^sup>* (cc_init sync mem) c" and "length (cc_accepted c) < 2 ^ 64"
  shows "cc_inv bo c"
  using assms
proof (induction rule: rtranclp_induct)
  case base
  then show ?case by (simp add: cc_inv_init)
next
  case (step c c')
  then have "length (cc_accepted c) < 2 ^ 64" using cc_step_accepted [of bo c c'] by fastforce
  with step cc_step_inv show ?case by blast
qed

subsection \<open>Properties\<close>

text \<open>Two reads accepted, the first holding the mutex, nothing sent yet.\<close>

definition two_reads :: "string cconn" where
  "two_reads = snd (cc_pread Little_endian 4 512 0 ''a'' (snd (cc_pread Little_endian 8 512 512 ''b''
     (cc_init False (\<lambda>_. [])))))"

lemma two_reads_reachable: "(cc_step Little_endian)\<^sup>*\<^sup>* (cc_init False (\<lambda>_. [])) two_reads"
  unfolding two_reads_def
  by (meson cc_step.pread converse_rtranclp_into_rtranclp rtranclp.rtrancl_refl)

definition sample_read :: "u64 \<Rightarrow> u64 \<Rightarrow> EasyBDRequestHeader \<times> byte list" where
  "sample_read cid off = (\<lparr>rq_cid = cid, rq_offset = off, rq_size = 512, rq_op = EASYBD_OP_READ\<rparr>, [])"

lemma two_reads_sel:
  "sl_senders (cc_send two_reads) =
     [1 \<mapsto> Sending (message_bytes Little_endian (sample_read 1 512)) 0,
      2 \<mapsto> Queued (message_bytes Little_endian (sample_read 2 0))]"
  "cl_reader (cc_client two_reads) = At_header" 
  "cc_accepted two_reads = [(sample_read 1 512, \<lparr>pd_is_read = True, pd_buf = 8, pd_user = ''b''\<rparr>),
     (sample_read 2 0, \<lparr>pd_is_read = True, pd_buf = 4, pd_user = ''a''\<rparr>)]"
  "sl_wire (cc_send two_reads) = []" "\<not> sl_failed (cc_send two_reads)"
  by (simp_all add: two_reads_def cc_pread_def client_pread_def client_issue_def cc_init_def client_init_def
      send_request_def sl_enter_def serial_init_def mutex_init_def lock_guard_def lock_await_ready_def
      lock_await_suspend_def EASYBD_MAX_PAYLOAD_SIZE_def sample_read_def)

text \<open>
  C12. Requests go on the wire whole and in the order in which \<open>pread\<close> and
  \<open>pwrite\<close> accepted them, however many are in flight and however the socket takes the
  bytes: at every moment the bytes sent are the messages of the first accepted requests
  followed by a prefix of the next one; anything else comes only after a send has failed.
\<close>

theorem requests_sent_in_order:
  assumes "(cc_step bo)\<^sup>*\<^sup>* (cc_init sync mem) c" and "length (cc_accepted c) < 2 ^ 64"
  shows "\<exists>n part rest. n \<le> length (cc_accepted c)
    \<and> sl_wire (cc_send c) = concat (map (message_bytes bo \<circ> fst) (take n (cc_accepted c))) @ part @ rest
    \<and> (part = [] \<or> n < length (cc_accepted c) \<and> prefix part (message_bytes bo (fst (cc_accepted c ! n))))
    \<and> (\<not> sl_failed (cc_send c) \<longrightarrow> rest = [])"
proof -
  note inv = cc_invD [OF cc_reachable_inv [OF assms]]
  let ?ms = "map (accepted_message bo) (cc_accepted c)" and ?log = "sl_log (cc_send c)"
  have e: "serial_inv (cc_send c)" "sl_entered (cc_send c) = ?ms" using inv by blast+
  from serial_wire [OF e(1)] obtain part rest
    where w: "sl_wire (cc_send c) = concat (map snd ?log) @ part @ rest" and p: "prefix ?log ?ms"
      and q: "part = [] \<or> (\<exists>k msg later. ?ms = ?log @ (k, msg) # later \<and> prefix part msg)"
      and r: "\<not> sl_failed (cc_send c) \<longrightarrow> rest = []"
    unfolding e(2) by blast
  from p obtain zs where zs: "?ms = ?log @ zs" by (auto simp: prefix_def)
  then have "length ?ms = length ?log + length zs" "take (length ?log) ?ms = ?log" by simp_all
  then have log: "length ?log \<le> length (cc_accepted c)"
    "?log = map (accepted_message bo) (take (length ?log) (cc_accepted c))"
    by (simp_all add: take_map)
  have "map snd ?log = map (message_bytes bo \<circ> fst) (take (length ?log) (cc_accepted c))"
    by (subst log(2)) (simp add: accepted_message_def)
  moreover have "length ?log < length (cc_accepted c) \<and> prefix part (message_bytes bo (fst (cc_accepted c ! length ?log)))"
    if "part \<noteq> []"
  proof -
    from q that obtain k msg later where s: "?ms = ?log @ (k, msg) # later" "prefix part msg" by blast
    have "length ?ms = length ?log + Suc (length later)" "?ms ! length ?log = (k, msg)"
      by (simp_all only: s(1) length_append nth_append_length list.size add_Suc_right add_0_right)
    with s(2) show ?thesis by (simp add: accepted_message_def)
  qed
  ultimately show ?thesis
    using w r log(1) by (intro exI [of _ "length ?log"] exI [of _ part] exI [of _ rest]) auto
qed

theorem requests_sent_in_order_witness:
  "\<exists>c. (cc_step Little_endian)\<^sup>*\<^sup>* (cc_init False (\<lambda>_. [])) (c :: string cconn)
     \<and> prefix (sl_wire (cc_send c)) (message_bytes Little_endian (sample_read 1 512)
         @ message_bytes Little_endian (sample_read 2 0))"
proof -
  let ?m = "message_bytes Little_endian (sample_read 1 512)"
  let ?c = "cc_take 1 ?m 0 9 two_reads"
  have len: "length ?m = 25" by (simp add: message_bytes_def sample_read_def sizeof_EasyBDRequestHeader_def)
  have "cc_step Little_endian two_reads ?c" by (rule cc_step.take) (simp_all add: two_reads_sel len)
  then have r: "(cc_step Little_endian)\<^sup>*\<^sup>* (cc_init False (\<lambda>_. [])) ?c"
    by (rule rtranclp.rtrancl_into_rtrancl [OF two_reads_reachable])
  have acc: "cc_accepted ?c = cc_accepted two_reads" "\<not> sl_failed (cc_send ?c)"
    by (simp_all add: cc_take_def two_reads_sel)
  have len2: "length (cc_accepted two_reads) = 2" by (simp add: two_reads_sel)
  have "(2 :: nat) < 2 ^ 64" by simp
  then obtain n part where n: "n \<le> 2"
    "sl_wire (cc_send ?c) = concat (map (message_bytes Little_endian \<circ> fst) (take n (cc_accepted two_reads))) @ part"
    "part = [] \<or> n < 2 \<and> prefix part (message_bytes Little_endian (fst (cc_accepted two_reads ! n)))"
    using requests_sent_in_order [OF r] acc(2) unfolding acc(1) len2 by (metis append_Nil2)
  from n(1) consider "n = 0" | "n = 1" | "n = 2" by linarith
  then have "prefix (sl_wire (cc_send ?c)) (?m @ message_bytes Little_endian (sample_read 2 0))"
    using n(2,3) by cases (auto simp: two_reads_sel(3))
  with r show ?thesis by blast
qed



end
