(* ===== verification/System.thy ===== *)
theory System
  imports Connection Client_Send
begin

text \<open>
  A client and the server's side of its connection together: what the client's senders put
  in the socket is what \<open>handle_connection\<close> reads, what the handlers send is what
  \<open>reader_loop\<close> reads, and between the two the handlers operate on the backing file. The
  readers parse by the specifications that the code over every receive stream was shown to
  implement (\<open>spec_turn\<close> and \<open>spec_read\<close>). The file is a value of any type; which
  results an operation on it can have is the parameter \<open>exec\<close>.
\<close>

subsection \<open>What a handler answers\<close>

definition request_cid :: "request \<Rightarrow> u64" where
  "request_cid q = (case q of Write_req cid _ _ _ \<Rightarrow> cid | Read_req cid _ _ \<Rightarrow> cid | Error_req cid _ \<Rightarrow> cid)"

definition is_write_req :: "request \<Rightarrow> bool" where
  "is_write_req q = (case q of Write_req _ _ _ _ \<Rightarrow> True | _ \<Rightarrow> False)"

text \<open>The response to a request whose file operation returned \<open>r\<close>: result and data.\<close>

fun reply_of :: "request \<Rightarrow> io_result \<Rightarrow> (EasyBDResponseHeader \<times> byte list) option" where
  "reply_of (Error_req cid e) r = Some (\<lparr>rs_cid = cid, rs_res = word_of_int (- e)\<rparr>, [])"
| "reply_of (Write_req cid off payload durable) (Io_ok n buf) = Some (\<lparr>rs_cid = cid, rs_res = of_nat n\<rparr>, [])"
| "reply_of (Read_req cid off sz) (Io_ok n buf) = Some (\<lparr>rs_cid = cid, rs_res = of_nat n\<rparr>, take n buf)"
| "reply_of q (Io_throw (System_error e)) = Some (\<lparr>rs_cid = request_cid q, rs_res = word_of_int (- e)\<rparr>, [])"
| "reply_of q (Io_throw x) = None"

text \<open>Errnos are positive and small; a read returns at most its buffer, below \<open>2 ^ 63\<close>.\<close>

fun result_ok :: "request \<Rightarrow> io_result \<Rightarrow> bool" where
  "result_ok (Error_req cid e) r \<longleftrightarrow> 0 \<le> e \<and> e < 2 ^ 63"
| "result_ok q (Io_ok n buf) \<longleftrightarrow> is_write_req q \<or> n \<le> length buf \<and> n < 2 ^ 63"
| "result_ok q (Io_throw (System_error e)) \<longleftrightarrow> 0 \<le> e \<and> e < 2 ^ 63"
| "result_ok q (Io_throw x) \<longleftrightarrow> True"

lemma handler_message_reply:
  "handler_message bo q r = map_option (response_bytes bo) (reply_of q r)"
  by (cases "(q, r)" rule: reply_of.cases)
    (simp_all add: handle_write_def handle_read_def send_error_def response_header_def response_bytes_def
      request_cid_def)

lemma sint_word_of_int_i64: "- (2 ^ 63) \<le> x \<Longrightarrow> x < 2 ^ 63 \<Longrightarrow> sint (word_of_int x :: i64) = x"
  by (simp add: sint_sbintrunc' signed_take_bit_int_eq_self)

lemma sint_of_errno: "0 \<le> e \<Longrightarrow> e < 2 ^ 63 \<Longrightarrow> \<not> 0 < sint (word_of_int (- e) :: i64)"
  using sint_word_of_int_i64 [of "- e"] by simp

lemma sint_of_count: "n < 2 ^ 63 \<Longrightarrow> sint (of_nat n :: i64) = int n"
  using sint_word_of_int_i64 [of "int n"] by simp

lemma reply_ok:
  assumes "result_ok q r" and "reply_of q r = Some m"
    and "pend (request_cid q) = Some p" and "pd_is_read p = (\<not> is_write_req q)"
  shows "response_ok pend m" and "rs_cid (fst m) = request_cid q"
  using assms sint_of_errno sint_of_count
  by (cases "(q, r)" rule: reply_of.cases;
      auto simp: response_ok_def response_payload_len_def request_cid_def is_write_req_def)+

lemma replies_ok:
  assumes "list_all (\<lambda>(q, r). result_ok q r \<and> reply_of q r \<noteq> None
      \<and> (\<exists>p. pend (request_cid q) = Some p \<and> pd_is_read p = (\<not> is_write_req q))) ms"
  shows "list_all (response_ok pend) (map (\<lambda>(q, r). the (reply_of q r)) ms)"
    and "map (rs_cid \<circ> fst) (map (\<lambda>(q, r). the (reply_of q r)) ms) = map (request_cid \<circ> fst) ms"
  using assms reply_ok by (induction ms) (fastforce+)

subsection \<open>State and steps\<close>

text \<open>
  The trace records when the \<open>i\<close>th request was issued, when the file operation of its
  handler took effect and with which result, and when its response was delivered to the
  callback.
\<close>

datatype ev = Issued nat request | Executed nat request io_result | Completed nat i64

record ('u, 'f) sys =
  sy_client :: "'u cconn"
  sy_server :: conn
  sy_read :: nat
  sy_got :: nat
  sy_file :: 'f
  sy_trace :: "ev list"

text \<open>
  \<open>sy_read\<close> and \<open>sy_got\<close> count the bytes that the server's and the client's reader
  have consumed of what the other side sent.
\<close>

definition sys_init :: "bool \<Rightarrow> (nat \<Rightarrow> byte list) \<Rightarrow> 'f \<Rightarrow> ('u, 'f) sys" where
  "sys_init sync mem f =
     \<lparr>sy_client = cc_init sync mem, sy_server = conn_init, sy_read = 0, sy_got = 0, sy_file = f, sy_trace = []\<rparr>"

abbreviation req_wire :: "('u, 'f) sys \<Rightarrow> byte list" where
  "req_wire s \<equiv> sl_wire (cc_send (sy_client s))"

abbreviation resp_wire :: "('u, 'f) sys \<Rightarrow> byte list" where
  "resp_wire s \<equiv> sl_wire (cn_send (sy_server s))"

text \<open>A call of \<open>pread\<close> or \<open>pwrite\<close>; an accepted request is recorded.\<close>

definition sys_call :: "'u cconn \<Rightarrow> ('u, 'f) sys \<Rightarrow> ('u, 'f) sys" where
  "sys_call c s =
     s\<lparr>sy_client := c,
       sy_trace := sy_trace s @ map (\<lambda>i. Issued i (message_request (fst (cc_accepted c ! i))))
         [length (cc_accepted (sy_client s))..<length (cc_accepted c)]\<rparr>"

definition sys_spawn :: "request \<Rightarrow> byte list \<Rightarrow> ('u, 'f) sys \<Rightarrow> ('u, 'f) sys" where
  "sys_spawn q rest s =
     s\<lparr>sy_server := conn_spawn q (sy_server s), sy_read := length (req_wire s) - length rest\<rparr>"

definition sys_execute :: "nat \<Rightarrow> request \<Rightarrow> io_result \<Rightarrow> 'f \<Rightarrow> ('u, 'f) sys \<Rightarrow> ('u, 'f) sys" where
  "sys_execute h q r f s = s\<lparr>sy_file := f, sy_trace := sy_trace s @ [Executed h q r]\<rparr>"

text \<open>The client's reader has a header, or a body; \<open>rest\<close> is what it has not consumed.\<close>

definition completes :: "EasyBDResponseHeader \<Rightarrow> 'u client \<Rightarrow> bool" where
  "completes resp cl \<longleftrightarrow>
     (case map_of (cl_pending cl) (rs_cid resp) of
        None \<Rightarrow> False | Some p \<Rightarrow> \<not> (pd_is_read p \<and> 0 < sint (rs_res resp)))"

definition sys_header :: "EasyBDResponseHeader \<Rightarrow> byte list \<Rightarrow> ('u, 'f) sys \<Rightarrow> ('u, 'f) sys" where
  "sys_header resp rest s =
     s\<lparr>sy_client := (sy_client s)\<lparr>cc_client := client_header resp (cc_client (sy_client s))\<rparr>,
       sy_got := length (resp_wire s) - length rest,
       sy_trace := sy_trace s
         @ (if completes resp (cc_client (sy_client s)) then [Completed (unat (rs_cid resp) - 1) (rs_res resp)] else [])\<rparr>"

definition sys_body :: "u64 \<Rightarrow> i64 \<Rightarrow> byte list \<Rightarrow> byte list \<Rightarrow> ('u, 'f) sys \<Rightarrow> ('u, 'f) sys" where
  "sys_body cid res data rest s =
     s\<lparr>sy_client := (sy_client s)\<lparr>cc_client := client_body data (cc_client (sy_client s))\<rparr>,
       sy_got := length (resp_wire s) - length rest,
       sy_trace := sy_trace s @ [Completed (unat cid - 1) res]\<rparr>"

text \<open>
  Every interleaving. The two readers may end at any moment (end of file, an error, a parse
  error, no memory for a payload). A handler operates on the file once, between being spawned
  and responding; the result is one the kernel can give (\<open>result_ok\<close>). A handler whose
  read buffer cannot be allocated ends without an operation.
\<close>

inductive sys_step ::
  "byte_order \<Rightarrow> (request \<Rightarrow> 'f \<Rightarrow> io_result \<Rightarrow> 'f \<Rightarrow> bool) \<Rightarrow> ('u, 'f) sys \<Rightarrow> ('u, 'f) sys \<Rightarrow> bool"
  for bo :: byte_order and exec :: "request \<Rightarrow> 'f \<Rightarrow> io_result \<Rightarrow> 'f \<Rightarrow> bool" where
  pread: "sys_step bo exec s (sys_call (snd (cc_pread bo buf sz off u (sy_client s))) s)"
| pwrite: "sys_step bo exec s (sys_call (snd (cc_pwrite bo data off u (sy_client s))) s)"
| client_take: "sl_senders (cc_send (sy_client s)) k = Some (Sending msg j) \<Longrightarrow> 0 < n \<Longrightarrow> j + n \<le> length msg \<Longrightarrow>
    sys_step bo exec s (s\<lparr>sy_client := cc_take k msg j n (sy_client s)\<rparr>)"
| client_sent: "sl_senders (cc_send (sy_client s)) k = Some (Sending msg (length msg)) \<Longrightarrow>
    sys_step bo exec s (s\<lparr>sy_client := cc_sent k msg (sy_client s)\<rparr>)"
| client_fail: "sl_senders (cc_send (sy_client s)) k = Some (Sending msg j) \<Longrightarrow> j < length msg \<Longrightarrow>
    sys_step bo exec s (s\<lparr>sy_client := cc_fail k (sy_client s)\<rparr>)"
| spawn: "cn_phase (sy_server s) = Reading \<Longrightarrow>
    spec_turn bo alloc (drop (sy_read s) (req_wire s)) None = Some (Spawn q, rest) \<Longrightarrow>
    sys_step bo exec s (sys_spawn q rest s)"
| server_stop: "cn_phase (sy_server s) = Reading \<Longrightarrow>
    sys_step bo exec s (s\<lparr>sy_server := conn_reader_end (sy_server s)\<rparr>)"
| execute: "cn_handlers (sy_server s) h = Some (Io q) \<Longrightarrow> \<forall>q' r'. Executed h q' r' \<notin> set (sy_trace s) \<Longrightarrow>
    (\<forall>cid e. q \<noteq> Error_req cid e) \<Longrightarrow> exec q (sy_file s) r f \<Longrightarrow> result_ok q r \<Longrightarrow>
    sys_step bo exec s (sys_execute h q r f s)"
| respond: "cn_handlers (sy_server s) h = Some (Io q) \<Longrightarrow> Executed h q r \<in> set (sy_trace s) \<Longrightarrow>
    handler_message bo q r = Some msg \<Longrightarrow>
    sys_step bo exec s (s\<lparr>sy_server := conn_respond h msg (sy_server s)\<rparr>)"
| respond_error: "cn_handlers (sy_server s) h = Some (Io (Error_req cid e)) \<Longrightarrow>
    sys_step bo exec s (s\<lparr>sy_server := conn_respond h (send_error bo cid e) (sy_server s)\<rparr>)"
| handler_throws: "cn_handlers (sy_server s) h = Some (Io q) \<Longrightarrow> Executed h q r \<in> set (sy_trace s) \<Longrightarrow>
    handler_message bo q r = None \<Longrightarrow>
    sys_step bo exec s (s\<lparr>sy_server := conn_drop h (sy_server s)\<rparr>)"
| no_buffer: "cn_handlers (sy_server s) h = Some (Io (Read_req cid off sz)) \<Longrightarrow>
    \<forall>q' r'. Executed h q' r' \<notin> set (sy_trace s) \<Longrightarrow>
    sys_step bo exec s (s\<lparr>sy_server := conn_drop h (sy_server s)\<rparr>)"
| server_send: "sl_senders (cn_send (sy_server s)) h = Some (Sending msg k) \<Longrightarrow> 0 < n \<Longrightarrow> k + n \<le> length msg \<Longrightarrow>
    sys_step bo exec s (s\<lparr>sy_server := (sy_server s)\<lparr>cn_send := sl_send h msg k n (cn_send (sy_server s))\<rparr>\<rparr>)"
| server_sent: "sl_senders (cn_send (sy_server s)) h = Some (Sending msg (length msg)) \<Longrightarrow>
    sys_step bo exec s (s\<lparr>sy_server := conn_sent h msg (sy_server s)\<rparr>)"
| server_fail: "sl_senders (cn_send (sy_server s)) h = Some (Sending msg k) \<Longrightarrow> k < length msg \<Longrightarrow>
    sys_step bo exec s (s\<lparr>sy_server := conn_fail h (sy_server s)\<rparr>)"
| finish: "cn_handlers (sy_server s) h = Some Finishing \<Longrightarrow>
    sys_step bo exec s (s\<lparr>sy_server := conn_finish h (sy_server s)\<rparr>)"
| header: "cl_reader (cc_client (sy_client s)) = At_header \<Longrightarrow>
    spec_read sizeof_EasyBDResponseHeader (drop (sy_got s) (resp_wire s)) None = Some (Inr (hdr, rest)) \<Longrightarrow>
    sys_step bo exec s (sys_header (response_of_bytes bo hdr) rest s)"
| body: "cl_reader (cc_client (sy_client s)) = At_body cid p res \<Longrightarrow>
    spec_read (nat (sint res)) (drop (sy_got s) (resp_wire s)) None = Some (Inr (data, rest)) \<Longrightarrow>
    sys_step bo exec s (sys_body cid res data rest s)"
| client_stop: "cl_reader (cc_client (sy_client s)) \<noteq> At_end \<Longrightarrow>
    sys_step bo exec s (s\<lparr>sy_client := (sy_client s)\<lparr>cc_client := client_end (cc_client (sy_client s))\<rparr>\<rparr>)"

subsection \<open>Reading a prefix of a sequence of messages\<close>

lemma drop_prefix_concat:
  assumes "prefix w (concat xs)" and "length (concat (take n xs)) \<le> length w"
  obtains ext where "drop (length (concat (take n xs))) w @ ext = concat (drop n xs)"
proof -
  from assms(1) obtain z where z: "concat xs = w @ z" by (auto simp: prefix_def)
  have "concat (take n xs) @ concat (drop n xs) = w @ z"
    by (metis append_take_drop_id concat_append z)
  then have "concat (drop n xs) = drop (length (concat (take n xs))) (w @ z)"
    by (metis append_eq_conv_conj)
  with assms(2) that [of z] show thesis by simp
qed

lemma concat_take_Suc: "n < length xs \<Longrightarrow> concat (take (Suc n) xs) = concat (take n xs) @ xs ! n"
  by (simp add: take_Suc_conv_app_nth)

lemma concat_drop_nth: "n < length xs \<Longrightarrow> concat (drop n xs) = xs ! n @ concat (drop (Suc n) xs)"
  by (simp add: Cons_nth_drop_Suc [symmetric])

text \<open>A turn of the server's reader does not depend on bytes it has not read.\<close>

lemma spec_turn_more:
  "spec_turn bo alloc bs None = Some (Spawn q, rest) \<Longrightarrow>
   spec_turn bo (\<lambda>_. True) (bs @ ext) None = Some (Spawn q, rest @ ext)"
  by (auto simp: spec_turn_def spec_read_def Let_def split: if_splits)

lemma spec_turn_empty: "spec_turn bo alloc [] None = None"
  by (simp add: spec_turn_def spec_read_def sizeof_EasyBDRequestHeader_def)

lemma request_parsed:
  assumes "prefix w (concat (map (message_bytes bo) ms))" and "list_all (message_ok (\<lambda>_. True)) ms"
    and "rd = length (concat (map (message_bytes bo) (take n ms)))" and "rd \<le> length w" and "n \<le> length ms"
    and "spec_turn bo alloc (drop rd w) None = Some (Spawn q, rest)"
  shows "n < length ms" and "q = message_request (ms ! n)"
    and "length w - length rest = length (concat (map (message_bytes bo) (take (Suc n) ms)))"
    and "length w - length rest \<le> length w"
proof -
  let ?b = "map (message_bytes bo) ms"
  obtain ext where ext: "drop rd w @ ext = concat (drop n ?b)"
    using drop_prefix_concat [of w ?b n] assms(1,3,4) by (auto simp: take_map)
  show n: "n < length ms"
  proof (rule ccontr)
    assume "\<not> n < length ms"
    with ext have "drop rd w = []" by simp
    with assms(6) show False by (simp add: spec_turn_empty)
  qed
  have split: "drop rd w @ ext = message_bytes bo (ms ! n) @ concat (drop (Suc n) ?b)"
    using ext n by (simp add: concat_drop_nth)
  have "message_ok (\<lambda>_. True) (ms ! n)" using assms(2) n by (simp add: list_all_length)
  from spec_turn_message [OF this] spec_turn_more [OF assms(6), of ext]
  have q: "q = message_request (ms ! n)" "rest @ ext = concat (drop (Suc n) ?b)"
    unfolding split by (metis (mono_tags, lifting) option.inject prod.inject turn.inject(1))+
  then show "q = message_request (ms ! n)" by simp
  have "length (drop rd w) = length (message_bytes bo (ms ! n)) + length rest"
    using arg_cong [OF split, of length] arg_cong [OF q(2), of length] by simp
  moreover have "length (concat (map (message_bytes bo) (take (Suc n) ms))) = rd + length (message_bytes bo (ms ! n))"
    using n assms(3) by (simp add: take_Suc_conv_app_nth)
  ultimately show "length w - length rest = length (concat (map (message_bytes bo) (take (Suc n) ms)))"
    "length w - length rest \<le> length w" using assms(4) by simp_all
qed

text \<open>The same for the client's reader: a header, then a body.\<close>

lemma header_parsed:
  assumes "prefix w (concat bs)" and "got = length (concat (take k bs))" and "got \<le> length w"
    and "spec_read sizeof_EasyBDResponseHeader (drop got w) None = Some (Inr (hdr, rest))"
    and "\<And>b. b \<in> set bs \<Longrightarrow> \<exists>resp body. b = response_bytes bo (resp, body)"
  obtains resp body where "k < length bs" and "bs ! k = response_bytes bo (resp, body)"
    and "hdr = bytes_of_response bo resp" and "length w - length rest = got + sizeof_EasyBDResponseHeader"
    and "got + sizeof_EasyBDResponseHeader \<le> length w"
proof -
  obtain ext where ext: "drop got w @ ext = concat (drop k bs)"
    using drop_prefix_concat [of w bs k] assms(1-3) by auto
  have h: "sizeof_EasyBDResponseHeader \<le> length (drop got w)" "hdr = take sizeof_EasyBDResponseHeader (drop got w)"
    "rest = drop sizeof_EasyBDResponseHeader (drop got w)"
    using assms(4) by (auto simp: spec_read_def split: if_splits)
  have k: "k < length bs"
    using h(1) ext by (cases "k < length bs") (auto simp: sizeof_EasyBDResponseHeader_def)
  then obtain resp body where b: "bs ! k = response_bytes bo (resp, body)" using assms(5) nth_mem by blast
  have "hdr = take sizeof_EasyBDResponseHeader (drop got w @ ext)" using h(1,2) by simp
  then have "hdr = bytes_of_response bo resp"
    unfolding ext concat_drop_nth [OF k] b by (simp add: response_bytes_def)
  moreover have "length w - length rest = got + sizeof_EasyBDResponseHeader"
    "got + sizeof_EasyBDResponseHeader \<le> length w"
    using h(1,3) assms(3) by auto
  ultimately show thesis using that k b by blast
qed

lemma body_parsed:
  assumes "prefix w (concat bs)" and "k < length bs" and "bs ! k = response_bytes bo (resp, body)"
    and "got = length (concat (take k bs)) + sizeof_EasyBDResponseHeader" and "got \<le> length w"
    and "spec_read (length body) (drop got w) None = Some (Inr (data, rest))"
  shows "data = body" and "length w - length rest = length (concat (take (Suc k) bs))"
    and "length w - length rest \<le> length w"
proof -
  obtain ext where ext: "drop (length (concat (take k bs))) w @ ext = concat (drop k bs)"
    using drop_prefix_concat [of w bs k] assms(1,4,5) by auto
  have d: "drop got w @ ext = body @ concat (drop (Suc k) bs)"
    using arg_cong [OF ext, of "drop sizeof_EasyBDResponseHeader"] assms(4,5)
    by (simp add: concat_drop_nth [OF assms(2)] assms(3) response_bytes_def add.commute)
  have r: "length body \<le> length (drop got w)" "data = take (length body) (drop got w)" "rest = drop (length body) (drop got w)"
    using assms(6) by (auto simp: spec_read_def split: if_splits)
  have "data = take (length body) (drop got w @ ext)" using r(1,2) by simp
  then show "data = body" unfolding d by simp
  have "length (concat (take (Suc k) bs)) = got + length body"
    using assms(2-4) by (simp add: concat_take_Suc response_bytes_def)
  with r(1,3) assms(5) show "length w - length rest = length (concat (take (Suc k) bs))"
    "length w - length rest \<le> length w" by auto
qed

subsection \<open>Traces\<close>

fun ev_key :: "ev \<Rightarrow> nat \<times> nat" where
  "ev_key (Issued i q) = (0, i)"
| "ev_key (Executed i q r) = (1, i)"
| "ev_key (Completed i res) = (2, i)"

definition issues :: "ev list \<Rightarrow> (nat \<times> request) list" where
  "issues tr = concat (map (\<lambda>e. case e of Issued i q \<Rightarrow> [(i, q)] | _ \<Rightarrow> []) tr)"

definition executions :: "ev list \<Rightarrow> (request \<times> io_result) list" where
  "executions tr = concat (map (\<lambda>e. case e of Executed i q r \<Rightarrow> [(q, r)] | _ \<Rightarrow> []) tr)"

definition completions :: "ev list \<Rightarrow> (nat \<times> i64) list" where
  "completions tr = concat (map (\<lambda>e. case e of Completed i res \<Rightarrow> [(i, res)] | _ \<Rightarrow> []) tr)"

lemma trace_nil [simp]: "issues [] = []" "executions [] = []" "completions [] = []"
  by (simp_all add: issues_def executions_def completions_def)

lemma trace_append [simp]:
  "issues (xs @ ys) = issues xs @ issues ys" "executions (xs @ ys) = executions xs @ executions ys"
  "completions (xs @ ys) = completions xs @ completions ys"
  by (simp_all add: issues_def executions_def completions_def)

lemma trace_one [simp]:
  "issues [Issued i q] = [(i, q)]" "issues [Executed i q r] = []" "issues [Completed i res] = []"
  "executions [Issued i q] = []" "executions [Executed i q r] = [(q, r)]" "executions [Completed i res] = []"
  "completions [Issued i q] = []" "completions [Executed i q r] = []" "completions [Completed i res] = [(i, res)]"
  by (simp_all add: issues_def executions_def completions_def)

lemma issued_iff: "Issued i q \<in> set tr \<longleftrightarrow> (i, q) \<in> set (issues tr)"
  by (force simp: issues_def split: ev.splits)

lemma completed_iff: "Completed i res \<in> set tr \<longleftrightarrow> (i, res) \<in> set (completions tr)"
  by (force simp: completions_def split: ev.splits)

lemma ev_key_iff:
  "ev_key (Issued i q) \<in> ev_key ` set tr \<longleftrightarrow> i \<in> fst ` set (issues tr)"
  "ev_key (Executed i q r) \<in> ev_key ` set tr \<longleftrightarrow> (\<exists>q r. Executed i q r \<in> set tr)"
  "ev_key (Completed i res) \<in> ev_key ` set tr \<longleftrightarrow> i \<in> fst ` set (completions tr)"
proof (induction tr)
  case (Cons e tr)
  have c: "issues (e # tr) = issues [e] @ issues tr" "completions (e # tr) = completions [e] @ completions tr"
    using trace_append(1,3) [of "[e]" tr] by simp_all
  {
    case 1
    show ?case using Cons(1) unfolding c by (cases e) auto
  next
    case 2
    show ?case using Cons(2) by (cases e) auto
  next
    case 3
    show ?case using Cons(3) unfolding c by (cases e) auto
  }
qed simp_all

text \<open>
  What a trace must be like: nothing happens twice, an operation on the file is that of a
  request issued before, and a callback reports the result of the request's operation, which
  took effect before.
\<close>

fun ev_ok :: "ev list \<Rightarrow> ev \<Rightarrow> bool" where
  "ev_ok before (Issued i q) = True"
| "ev_ok before (Executed i q r) = (Issued i q \<in> set before)"
| "ev_ok before (Completed i res) =
     (\<exists>q r m. Executed i q r \<in> set before \<and> reply_of q r = Some m \<and> rs_res (fst m) = res)"

definition linear_trace :: "ev list \<Rightarrow> bool" where
  "linear_trace tr \<longleftrightarrow> distinct (map ev_key tr) \<and> (\<forall>i < length tr. ev_ok (take i tr) (tr ! i))"

lemma linear_trace_nil: "linear_trace []"
  by (simp add: linear_trace_def)

lemma linear_trace_snoc:
  "linear_trace (tr @ [e]) \<longleftrightarrow> linear_trace tr \<and> ev_key e \<notin> ev_key ` set tr \<and> ev_ok tr e"
  by (auto simp: linear_trace_def nth_append less_Suc_eq)

text \<open>The file after a sequence of operations with their results.\<close>

fun file_run :: "(request \<Rightarrow> 'f \<Rightarrow> io_result \<Rightarrow> 'f \<Rightarrow> bool) \<Rightarrow> 'f \<Rightarrow> (request \<times> io_result) list \<Rightarrow> 'f \<Rightarrow> bool" where
  "file_run exec f [] g \<longleftrightarrow> g = f"
| "file_run exec f ((q, r) # ops) g \<longleftrightarrow> (\<exists>f'. exec q f r f' \<and> file_run exec f' ops g)"

lemma file_run_snoc:
  "file_run exec f (ops @ [(q, r)]) g \<longleftrightarrow> (\<exists>f'. file_run exec f ops f' \<and> exec q f' r g)"
  by (induction exec f ops g rule: file_run.induct) auto

subsection \<open>The invariant\<close>

abbreviation acc :: "('u, 'f) sys \<Rightarrow> ((EasyBDRequestHeader \<times> byte list) \<times> 'u pending) list" where
  "acc s \<equiv> cc_accepted (sy_client s)"

abbreviation reqs :: "('u, 'f) sys \<Rightarrow> request list" where
  "reqs s \<equiv> cn_requests (sy_server s)"

abbreviation ent :: "('u, 'f) sys \<Rightarrow> (nat \<times> byte list) list" where
  "ent s \<equiv> sl_entered (cn_send (sy_server s))"

abbreviation cl :: "('u, 'f) sys \<Rightarrow> 'u client" where
  "cl s \<equiv> cc_client (sy_client s)"

text \<open>The server has spawned the handlers of the first requests accepted.\<close>

definition req_inv :: "byte_order \<Rightarrow> ('u, 'f) sys \<Rightarrow> bool" where
  "req_inv bo s \<longleftrightarrow> length (reqs s) \<le> length (acc s)
     \<and> reqs s = map message_request (take (length (reqs s)) (map fst (acc s)))
     \<and> sy_read s = length (concat (map (message_bytes bo) (take (length (reqs s)) (map fst (acc s)))))
     \<and> sy_read s \<le> length (req_wire s)"

definition trace_inv :: "('u, 'f) sys \<Rightarrow> bool" where
  "trace_inv s \<longleftrightarrow> linear_trace (sy_trace s)
     \<and> issues (sy_trace s) = enumerate 0 (map (message_request \<circ> fst) (acc s))
     \<and> (\<forall>h q r. Executed h q r \<in> set (sy_trace s) \<longrightarrow> h < length (reqs s) \<and> q = reqs s ! h \<and> result_ok q r)"

text \<open>What is sent, or waits to be, is the response to an operation that took effect.\<close>

definition resp_inv :: "byte_order \<Rightarrow> ('u, 'f) sys \<Rightarrow> bool" where
  "resp_inv bo s \<longleftrightarrow> (\<forall>(h, msg) \<in> set (ent s).
     \<exists>q r. Executed h q r \<in> set (sy_trace s) \<and> handler_message bo q r = Some msg)"

text \<open>The client has read the first responses, and perhaps the header of the next.\<close>

definition body_next :: "byte_order \<Rightarrow> u64 \<Rightarrow> 'u pending \<Rightarrow> i64 \<Rightarrow> ('u, 'f) sys \<Rightarrow> bool" where
  "body_next bo cid p res s \<longleftrightarrow> (\<exists>h resp body. length (completions (sy_trace s)) < length (ent s)
     \<and> ent s ! length (completions (sy_trace s)) = (h, response_bytes bo (resp, body))
     \<and> sy_got s = length (concat (map snd (take (length (completions (sy_trace s))) (ent s)))) + sizeof_EasyBDResponseHeader
     \<and> h < length (acc s) \<and> cid = of_nat h + 1 \<and> p = snd (acc s ! h)
     \<and> rs_res resp = res \<and> length body = nat (sint res))"

definition got_inv :: "byte_order \<Rightarrow> ('u, 'f) sys \<Rightarrow> bool" where
  "got_inv bo s \<longleftrightarrow> length (completions (sy_trace s)) \<le> length (ent s)
     \<and> map fst (completions (sy_trace s)) = map fst (take (length (completions (sy_trace s))) (ent s))
     \<and> sy_got s \<le> length (resp_wire s)
     \<and> (case cl_reader (cl s) of
          At_header \<Rightarrow> sy_got s = length (concat (map snd (take (length (completions (sy_trace s))) (ent s))))
        | At_body cid p res \<Rightarrow> body_next bo cid p res s
        | At_end \<Rightarrow> True)"

definition pend_inv :: "('u, 'f) sys \<Rightarrow> bool" where
  "pend_inv s \<longleftrightarrow>
     (cl_reader (cl s) \<noteq> At_end \<longrightarrow>
        (\<forall>i < length (acc s). map_of (cl_pending (cl s)) (of_nat i + 1)
           = (if i \<in> fst ` set (completions (sy_trace s)) then None else Some (snd (acc s ! i)))))
     \<and> (\<exists>lost. cl_callbacks (cl s)
          = map (\<lambda>(h, res). (pd_user (snd (acc s ! h)), res)) (completions (sy_trace s))
            @ map (\<lambda>u. (u, word_of_int (- ECONNRESET))) lost
          \<and> (cl_reader (cl s) \<noteq> At_end \<longrightarrow> lost = []))"

text \<open>The data of a completed read is in its buffer, unless another read uses the same buffer.\<close>

definition own_buffer :: "nat \<Rightarrow> ((EasyBDRequestHeader \<times> byte list) \<times> 'u pending) list \<Rightarrow> bool" where
  "own_buffer h es \<longleftrightarrow> pd_is_read (snd (es ! h))
     \<and> (\<forall>i < length es. i \<noteq> h \<and> pd_is_read (snd (es ! i)) \<longrightarrow> pd_buf (snd (es ! i)) \<noteq> pd_buf (snd (es ! h)))"

definition mem_inv :: "('u, 'f) sys \<Rightarrow> bool" where
  "mem_inv s \<longleftrightarrow> (\<forall>h res. (h, res) \<in> set (completions (sy_trace s)) \<and> own_buffer h (acc s) \<longrightarrow>
     (\<exists>q r m. Executed h q r \<in> set (sy_trace s) \<and> reply_of q r = Some m \<and> rs_res (fst m) = res
        \<and> take (length (snd m)) (cl_mem (cl s) (pd_buf (snd (acc s ! h)))) = snd m))"

definition sys_inv ::
  "byte_order \<Rightarrow> (request \<Rightarrow> 'f \<Rightarrow> io_result \<Rightarrow> 'f \<Rightarrow> bool) \<Rightarrow> 'f \<Rightarrow> ('u, 'f) sys \<Rightarrow> bool" where
  "sys_inv bo exec f s \<longleftrightarrow> cc_inv bo (sy_client s) \<and> conn_inv bo (sy_server s) \<and> req_inv bo s \<and> trace_inv s
     \<and> resp_inv bo s \<and> got_inv bo s \<and> pend_inv s \<and> mem_inv s
     \<and> file_run exec f (executions (sy_trace s)) (sy_file s)"

text \<open>Nothing has failed to be sent, and cids have not wrapped around.\<close>

definition good :: "('u, 'f) sys \<Rightarrow> bool" where
  "good s \<longleftrightarrow> length (acc s) < 2 ^ 64 \<and> \<not> sl_failed (cc_send (sy_client s)) \<and> \<not> sl_failed (cn_send (sy_server s))"

lemma sys_inv_init: "sys_inv bo exec f (sys_init sync mem f)"
  using cc_inv_init [of bo sync mem] conn_inv_init [of bo]
  by (auto simp: sys_inv_def sys_init_def req_inv_def trace_inv_def resp_inv_def got_inv_def pend_inv_def mem_inv_def
      linear_trace_nil conn_init_def cc_init_def client_init_def serial_init_def enumerate_eq_zip)

subsection \<open>Consequences of the invariant\<close>

lemma sys_invD:
  assumes "sys_inv bo exec f s"
  shows "cc_inv bo (sy_client s)" "conn_inv bo (sy_server s)" "req_inv bo s" "trace_inv s" "resp_inv bo s"
    "got_inv bo s" "pend_inv s" "mem_inv s" "file_run exec f (executions (sy_trace s)) (sy_file s)"
  using assms unfolding sys_inv_def by blast+

lemma acc_cid:
  assumes "cc_inv bo c" and "i < length (cc_accepted c)"
  shows "rq_cid (fst (fst (cc_accepted c ! i))) = of_nat i + 1"
proof -
  have "map (rq_cid \<circ> fst \<circ> fst) (cc_accepted c) ! i = map (\<lambda>i. of_nat i + 1) [0..<length (cc_accepted c)] ! i"
    using cc_invD [OF assms(1)] by metis
  with assms(2) show ?thesis by simp
qed

lemma cid_index: "i < n \<Longrightarrow> n < 2 ^ 64 \<Longrightarrow> unat (of_nat i + 1 :: u64) = i + 1"
  by (rule unat_next_cid) simp

lemma cid_inj:
  "i < n \<Longrightarrow> j < n \<Longrightarrow> n < 2 ^ 64 \<Longrightarrow> (of_nat i + 1 :: u64) = of_nat j + 1 \<longleftrightarrow> i = j"
  using cid_index by (metis add_right_cancel)

text \<open>A request as the server sees it, from a message the client accepted.\<close>

lemma request_ok_request:
  assumes "request_ok (m, p)"
  shows "request_cid (message_request m) = rq_cid (fst m)"
    and "pd_is_read p = (\<not> is_write_req (message_request m))" and "message_request m \<noteq> Error_req cid e"
  using assms
  by (auto simp: request_ok_def message_request_def request_cid_def is_write_req_def Let_def not_less)

lemma req_nth:
  assumes "req_inv bo s" and "h < length (reqs s)"
  shows "h < length (acc s)" and "reqs s ! h = message_request (fst (acc s ! h))"
proof -
  show h: "h < length (acc s)" using assms by (simp add: req_inv_def)
  have "reqs s ! h = map message_request (take (length (reqs s)) (map fst (acc s))) ! h"
    using assms(1) unfolding req_inv_def by metis
  with assms(2) h show "reqs s ! h = message_request (fst (acc s ! h))" by simp
qed

lemma executed_request:
  assumes "sys_inv bo exec f s" and "Executed h q r \<in> set (sy_trace s)"
  shows "h < length (reqs s)" and "h < length (acc s)" and "q = message_request (fst (acc s ! h))"
    and "request_cid q = of_nat h + 1" and "pd_is_read (snd (acc s ! h)) = (\<not> is_write_req q)" and "result_ok q r"
proof -
  note inv = sys_invD [OF assms(1)]
  have h: "h < length (reqs s)" "q = reqs s ! h" "result_ok q r" using inv(4) assms(2) unfolding trace_inv_def by blast+
  then show "h < length (reqs s)" "h < length (acc s)" "result_ok q r"
    using req_nth [OF inv(3)] by blast+
  show q: "q = message_request (fst (acc s ! h))" using h req_nth(2) [OF inv(3)] by simp
  have "request_ok (acc s ! h)" using cc_invD [OF inv(1)] \<open>h < length (acc s)\<close> by (simp add: list_all_length)
  then have ok: "request_ok (fst (acc s ! h), snd (acc s ! h))" by simp
  from request_ok_request(1,2) [OF ok] acc_cid [OF inv(1)] \<open>h < length (acc s)\<close> q
  show "request_cid q = of_nat h + 1" "pd_is_read (snd (acc s ! h)) = (\<not> is_write_req q)" by simp_all
qed

lemma response_entered:
  assumes "sys_inv bo exec f s" and "(h, msg) \<in> set (ent s)"
  obtains q r resp body where "Executed h q r \<in> set (sy_trace s)" and "reply_of q r = Some (resp, body)"
    and "msg = response_bytes bo (resp, body)" and "rs_cid resp = of_nat h + 1"
    and "length body = response_payload_len (pd_is_read (snd (acc s ! h))) resp"
    and "h < length (reqs s)" and "h < length (acc s)"
proof -
  from sys_invD(5) [OF assms(1)] assms(2) obtain q r
    where e: "Executed h q r \<in> set (sy_trace s)" "handler_message bo q r = Some msg" by (auto simp: resp_inv_def)
  note x = executed_request [OF assms(1) e(1)]
  from e(2) obtain m where m: "reply_of q r = Some m" "msg = response_bytes bo m"
    by (auto simp: handler_message_reply)
  have "response_ok [request_cid q \<mapsto> snd (acc s ! h)] m" "rs_cid (fst m) = request_cid q"
    using reply_ok [OF x(6) m(1), of "[request_cid q \<mapsto> snd (acc s ! h)]" "snd (acc s ! h)"] x(5) by simp_all
  then have "rs_cid (fst m) = of_nat h + 1" "length (snd m) = response_payload_len (pd_is_read (snd (acc s ! h))) (fst m)"
    using x(4) by (simp_all add: response_ok_def)
  with that [OF e(1)] m x(1,2) show thesis by (cases m) simp
qed

lemma completed_index:
  assumes "sys_inv bo exec f s" and "h \<in> fst ` set (completions (sy_trace s))"
  shows "h \<in> fst ` set (ent s)" and "h < length (acc s)"
proof -
  have "h \<in> set (map fst (completions (sy_trace s)))" using assms(2) by simp
  then have "h \<in> set (map fst (take (length (completions (sy_trace s))) (ent s)))"
    using sys_invD(6) [OF assms(1)] unfolding got_inv_def by metis
  then show e: "h \<in> fst ` set (ent s)" by (auto dest: in_set_takeD)
  then obtain msg where "(h, msg) \<in> set (ent s)" by auto
  from response_entered [OF assms(1) this] show "h < length (acc s)" by blast
qed

text \<open>The next response answers a request that has not completed.\<close>

lemma next_response_new:
  assumes "sys_inv bo exec f s" and "length (completions (sy_trace s)) < length (ent s)"
    and "ent s ! length (completions (sy_trace s)) = (h, msg)"
  shows "h \<notin> fst ` set (completions (sy_trace s))"
proof
  let ?k = "length (completions (sy_trace s))"
  assume "h \<in> fst ` set (completions (sy_trace s))"
  then have "h \<in> set (map fst (completions (sy_trace s)))" by simp
  moreover have "map fst (completions (sy_trace s)) = take ?k (map fst (ent s))"
    using sys_invD(6) [OF assms(1)] unfolding got_inv_def take_map by blast
  ultimately have "h \<in> set (take ?k (map fst (ent s)))" by (simp only:)
  then obtain i where "i < ?k" "map fst (ent s) ! i = h" using assms(2) by (auto simp: in_set_conv_nth)
  moreover have "map fst (ent s) ! ?k = h" using assms(2,3) by simp
  moreover have "distinct (map fst (ent s))"
    using sys_invD(2) [OF assms(1)] by (simp add: conn_inv_def place_inv_def)
  ultimately show False using assms(2) nth_eq_iff_index_eq [of "map fst (ent s)" i ?k] by simp
qed

text \<open>The message of a request that the server has read is entirely in the socket.\<close>

lemma read_request_sent:
  assumes "sys_inv bo exec f s" and "good s" and "h < length (reqs s)"
  shows "(of_nat h + 1 :: u64) \<notin> cl_sending (cl s)"
proof
  assume a: "(of_nat h + 1 :: u64) \<in> cl_sending (cl s)"
  note inv = sys_invD [OF assms(1)]
  note cc = cc_invD [OF inv(1)]
  let ?s = "cc_send (sy_client s)" and ?k = "of_nat h + 1 :: u64"
  have h: "h < length (acc s)" using assms(3) inv(3) by (simp add: req_inv_def)
  have ent: "sl_entered ?s = map (accepted_message bo) (acc s)" using cc by blast
  have "map fst (sl_entered ?s) = map (\<lambda>i. of_nat i + 1) [0..<length (acc s)]"
    using cc by (simp add: ent accepted_message_def comp_def)
  moreover have "inj_on (\<lambda>i. of_nat i + 1 :: u64) {0..<length (acc s)}"
    using cid_inj assms(2) by (auto simp: good_def inj_on_def)
  ultimately have d: "distinct (map fst (sl_entered ?s))" by (simp add: distinct_map)
  have split: "sl_entered ?s = map (accepted_message bo) (take h (acc s))
      @ (?k, message_bytes bo (fst (acc s ! h))) # map (accepted_message bo) (drop (Suc h) (acc s))"
    using h acc_cid [OF inv(1) h] unfolding ent
    by (metis (no_types, lifting) accepted_message_def append_take_drop_id Cons_nth_drop_Suc list.map(2) map_append)
  from a cc obtain p where p: "sl_senders ?s ?k = Some p" "\<And>m j. p = Sending m j \<Longrightarrow> j < length m"
    by (auto simp: unsent_def split: option.splits sphase.splits)
  have "length (req_wire s) < length (concat (map (message_bytes bo) (take (Suc h) (map fst (acc s)))))"
    using serial_unsent_short [OF _ _ d split message_bytes_nonempty p] cc assms(2) h
    by (simp add: good_def accepted_message_def comp_def take_Suc_conv_app_nth take_map)
  also have "\<dots> \<le> length (concat (map (message_bytes bo) (take (length (reqs s)) (map fst (acc s)))))"
  proof -
    have "take (length (reqs s)) (map fst (acc s)) = take (Suc h) (map fst (acc s))
        @ take (length (reqs s) - Suc h) (drop (Suc h) (map fst (acc s)))"
      using assms(3) by (metis Suc_leI le_add_diff_inverse take_add)
    then show ?thesis by simp
  qed
  also have "\<dots> \<le> length (req_wire s)" using inv(3) by (simp add: req_inv_def)
  finally show False by simp
qed

subsection \<open>Every step keeps it\<close>

text \<open>Steps that concern one side only.\<close>

lemma sys_inv_server_frame:
  assumes "sys_inv bo exec f s" and "conn_inv bo c" and "cn_requests c = reqs s"
    and "sl_entered (cn_send c) = ent s" and "length (resp_wire s) \<le> length (sl_wire (cn_send c))"
  shows "sys_inv bo exec f (s\<lparr>sy_server := c\<rparr>)"
proof -
  note inv = sys_invD [OF assms(1)]
  have "got_inv bo (s\<lparr>sy_server := c\<rparr>)"
    using inv(6) assms(4,5) by (auto simp: got_inv_def body_next_def split: reader_at.splits)
  then show ?thesis
    using inv assms(2-4) unfolding sys_inv_def
    by (simp add: req_inv_def trace_inv_def resp_inv_def pend_inv_def mem_inv_def)
qed

lemma sys_inv_client_frame:
  assumes "sys_inv bo exec f s" and "cc_inv bo c" and "cc_accepted c = acc s"
    and "length (req_wire s) \<le> length (sl_wire (cc_send c))"
    and "cl_reader (cc_client c) = cl_reader (cl s)" and "cl_pending (cc_client c) = cl_pending (cl s)"
    and "cl_callbacks (cc_client c) = cl_callbacks (cl s)" and "cl_mem (cc_client c) = cl_mem (cl s)"
  shows "sys_inv bo exec f (s\<lparr>sy_client := c\<rparr>)"
proof -
  note inv = sys_invD [OF assms(1)]
  have "got_inv bo (s\<lparr>sy_client := c\<rparr>)"
    using inv(6) assms(3,5) by (auto simp: got_inv_def body_next_def split: reader_at.splits)
  moreover have "req_inv bo (s\<lparr>sy_client := c\<rparr>)" using inv(3) assms(3,4) by (simp add: req_inv_def)
  ultimately show ?thesis
    using inv assms(2,3,5-8) unfolding sys_inv_def
    by (simp add: trace_inv_def resp_inv_def pend_inv_def mem_inv_def)
qed

text \<open>The reader of requests.\<close>

lemma sys_inv_spawn:
  assumes "sys_inv bo exec f s" and "good s" and "cn_phase (sy_server s) = Reading"
    and "spec_turn bo alloc (drop (sy_read s) (req_wire s)) None = Some (Spawn q, rest)"
  shows "sys_inv bo exec f (sys_spawn q rest s)"
proof -
  note inv = sys_invD [OF assms(1)]
  note cc = cc_invD [OF inv(1)]
  let ?ms = "map fst (acc s)" and ?n = "length (reqs s)" and ?s = "sys_spawn q rest s"
  have n: "?n \<le> length ?ms" "reqs s = map message_request (take ?n ?ms)"
    "sy_read s = length (concat (map (message_bytes bo) (take ?n ?ms)))" "sy_read s \<le> length (req_wire s)"
    using inv(3) by (simp_all add: req_inv_def)
  have "prefix (req_wire s) (concat (map snd (map (accepted_message bo) (acc s))))"
    using serial_prefix [of "cc_send (sy_client s)"] cc assms(2) by (simp add: good_def)
  then have w: "prefix (req_wire s) (concat (map (message_bytes bo) ?ms))"
    by (simp add: accepted_message_def comp_def)
  have ok: "list_all (message_ok (\<lambda>_. True)) ?ms" using cc by (auto simp: list_all_iff request_ok_def)
  note p = request_parsed [OF w ok n(3,4,1) assms(4)]
  have r: "reqs ?s = reqs s @ [q]" by (simp add: sys_spawn_def conn_spawn_def)
  have "reqs ?s = map message_request (take (Suc ?n) ?ms)"
    unfolding r using n(2) p(1,2) by (simp add: take_Suc_conv_app_nth)
  then have "req_inv bo ?s"
    using p(1,3,4) r by (simp add: req_inv_def sys_spawn_def)
  moreover have "conn_inv bo (sy_server ?s)"
    using conn_step_inv [OF conn_step.spawn [OF assms(3)] inv(2)] by (simp add: sys_spawn_def)
  moreover have same: "ent ?s = ent s" "resp_wire ?s = resp_wire s" "sy_client ?s = sy_client s" "sy_trace ?s = sy_trace s"
    "sy_got ?s = sy_got s" "sy_file ?s = sy_file s"
    by (simp_all add: sys_spawn_def conn_spawn_def)
  moreover have "trace_inv ?s"
    using inv(4) unfolding trace_inv_def same r by (auto simp: nth_append less_SucI)
  moreover have "got_inv bo ?s" using inv(6) unfolding got_inv_def body_next_def same .
  moreover have "resp_inv bo ?s" "pend_inv ?s" "mem_inv ?s"
    using inv(5,7,8) unfolding resp_inv_def pend_inv_def mem_inv_def same by blast+
  ultimately show ?thesis
    using inv(1,9) unfolding sys_inv_def same by blast
qed

text \<open>A handler operates on the file, and responds.\<close>

lemma sys_inv_execute:
  assumes "sys_inv bo exec f s" and "cn_handlers (sy_server s) h = Some (Io q)"
    and "\<forall>q' r'. Executed h q' r' \<notin> set (sy_trace s)" and "exec q (sy_file s) r g" and "result_ok q r"
  shows "sys_inv bo exec f (sys_execute h q r g s)"
proof -
  note inv = sys_invD [OF assms(1)]
  let ?s = "sys_execute h q r g s"
  have h: "h < length (reqs s)" "q = reqs s ! h"
    using inv(2) assms(2) by (auto simp: conn_inv_def place_inv_def)
  have "h < length (acc s)" "q = message_request (fst (acc s ! h))"
    using req_nth [OF inv(3) h(1)] h(2) by simp_all
  then have "Issued h q \<in> set (sy_trace s)"
    using inv(4) by (simp add: issued_iff trace_inv_def in_set_enumerate_eq)
  moreover have "ev_key (Executed h q r) \<notin> ev_key ` set (sy_trace s)"
    using assms(3) unfolding ev_key_iff by blast
  ultimately have "linear_trace (sy_trace ?s)"
    using inv(4) by (simp add: sys_execute_def linear_trace_snoc trace_inv_def)
  then have "trace_inv ?s"
    using inv(4) h assms(5) by (auto simp: trace_inv_def sys_execute_def)
  moreover have "file_run exec f (executions (sy_trace ?s)) (sy_file ?s)"
    using inv(9) assms(4) by (auto simp: sys_execute_def file_run_snoc)
  moreover have "resp_inv bo ?s" using inv(5) by (fastforce simp: resp_inv_def sys_execute_def)
  moreover have "mem_inv ?s" using inv(8) unfolding mem_inv_def by (simp add: sys_execute_def) metis
  moreover have "got_inv bo ?s"
    using inv(6) by (auto simp: got_inv_def body_next_def sys_execute_def split: reader_at.splits)
  moreover have "pend_inv ?s" using inv(7) by (simp add: pend_inv_def sys_execute_def)
  moreover have "req_inv bo ?s" using inv(3) by (simp add: req_inv_def sys_execute_def)
  ultimately show ?thesis
    using inv(1,2) by (simp add: sys_inv_def sys_execute_def)
qed

lemma sys_inv_respond:
  assumes "sys_inv bo exec f s" and "cn_handlers (sy_server s) h = Some (Io q)"
    and "Executed h q r \<in> set (sy_trace s)" and "handler_message bo q r = Some msg"
  shows "sys_inv bo exec f (s\<lparr>sy_server := conn_respond h msg (sy_server s)\<rparr>)"
proof -
  note inv = sys_invD [OF assms(1)]
  let ?s = "s\<lparr>sy_server := conn_respond h msg (sy_server s)\<rparr>" and ?k = "length (completions (sy_trace s))"
  have e: "ent ?s = ent s @ [(h, msg)]" "resp_wire ?s = resp_wire s" "reqs ?s = reqs s"
    by (simp_all add: conn_respond_def)
  have "?k \<le> length (ent s)" using inv(6) by (simp add: got_inv_def)
  then have "take ?k (ent ?s) = take ?k (ent s)" unfolding e by simp
  moreover have "ent ?s ! ?k = ent s ! ?k" if "?k < length (ent s)" using that unfolding e by (simp add: nth_append)
  ultimately have "got_inv bo ?s"
    using inv(6) e by (auto simp: got_inv_def body_next_def split: reader_at.splits)
  moreover have "resp_inv bo ?s" using inv(5) assms(3,4) e by (auto simp: resp_inv_def)
  moreover have "conn_inv bo (sy_server ?s)"
    using conn_step_inv [OF conn_step.respond [OF assms(2,4)] inv(2)] by simp
  ultimately show ?thesis
    using inv e(3) unfolding sys_inv_def by (simp add: req_inv_def trace_inv_def pend_inv_def mem_inv_def)
qed

text \<open>The client accepts a request.\<close>

lemma own_buffer_append:
  assumes "own_buffer h (es @ [e])" and "h < length es"
  shows "own_buffer h es"
proof -
  have "(es @ [e]) ! i = es ! i" if "i < length es" for i using that by (simp add: nth_append)
  with assms show ?thesis unfolding own_buffer_def by (metis length_append_singleton less_SucI)
qed

text \<open>\<open>s'\<close> is \<open>s\<close> after the request \<open>(m, p)\<close> was accepted.\<close>

definition accepted :: "(EasyBDRequestHeader \<times> byte list) \<times> 'u pending \<Rightarrow> ('u, 'f) sys \<Rightarrow> ('u, 'f) sys \<Rightarrow> bool" where
  "accepted e s s' \<longleftrightarrow> acc s' = acc s @ [e]
     \<and> sy_trace s' = sy_trace s @ [Issued (length (acc s)) (message_request (fst e))]
     \<and> sy_server s' = sy_server s \<and> sy_got s' = sy_got s \<and> sy_read s' = sy_read s \<and> sy_file s' = sy_file s
     \<and> req_wire s' = req_wire s \<and> cl_reader (cl s') = cl_reader (cl s) \<and> cl_callbacks (cl s') = cl_callbacks (cl s)
     \<and> cl_mem (cl s') = cl_mem (cl s)
     \<and> cl_pending (cl s') = AList.update (of_nat (length (acc s)) + 1) (snd e) (cl_pending (cl s))"

lemma accepted_sys_call:
  assumes "cc_inv bo (sy_client s)"
  shows "accepted (m, p) s (sys_call (send_request bo p m ((sy_client s)\<lparr>cc_client := client_issue p (cl s)\<rparr>)) s)"
  using cc_invD [OF assms] by (simp add: accepted_def sys_call_def send_request_def client_issue_def client_inv_def)

lemma accepted_trace:
  assumes "accepted e s s'"
  shows "completions (sy_trace s') = completions (sy_trace s)" "executions (sy_trace s') = executions (sy_trace s)"
    "Executed h q r \<in> set (sy_trace s') \<longleftrightarrow> Executed h q r \<in> set (sy_trace s)"
  using assms by (simp_all add: accepted_def)

lemma trace_inv_accept:
  assumes "accepted e s s'" and "trace_inv s"
  shows "trace_inv s'"
proof -
  have a: "acc s' = acc s @ [e]" "sy_trace s' = sy_trace s @ [Issued (length (acc s)) (message_request (fst e))]"
    "sy_server s' = sy_server s"
    using assms(1) unfolding accepted_def by blast+
  have "length (acc s) \<notin> fst ` set (issues (sy_trace s))"
    using assms(2) by (auto simp: trace_inv_def in_set_enumerate_eq)
  then have "linear_trace (sy_trace s')"
    using assms(2) unfolding a(2) linear_trace_snoc ev_key_iff by (simp add: trace_inv_def)
  then show ?thesis
    using assms(2) by (simp add: trace_inv_def a enumerate_append_eq)
qed

lemma got_inv_accept:
  assumes "accepted e s s'" and "got_inv bo s"
  shows "got_inv bo s'"
proof -
  have a: "acc s' = acc s @ [e]" "sy_server s' = sy_server s" "sy_got s' = sy_got s" "cl_reader (cl s') = cl_reader (cl s)"
    using assms(1) unfolding accepted_def by blast+
  have "body_next bo cid p res s'" if "body_next bo cid p res s" for cid p res
    using that unfolding body_next_def a accepted_trace [OF assms(1)] by (auto simp: nth_append less_SucI)
  with assms(2) show ?thesis
    unfolding got_inv_def a accepted_trace [OF assms(1)] by (auto split: reader_at.splits)
qed

lemma pend_inv_accept:
  assumes "accepted e s s'" and "pend_inv s" and "length (acc s) + 1 < 2 ^ 64"
    and "\<And>h. h \<in> fst ` set (completions (sy_trace s)) \<Longrightarrow> h < length (acc s)"
  shows "pend_inv s'"
proof -
  let ?n = "length (acc s)" and ?C = "completions (sy_trace s)"
  have a: "acc s' = acc s @ [e]" "cl_reader (cl s') = cl_reader (cl s)" "cl_callbacks (cl s') = cl_callbacks (cl s)"
    "cl_pending (cl s') = AList.update (of_nat ?n + 1) (snd e) (cl_pending (cl s))"
    using assms(1) unfolding accepted_def by blast+
  have "map_of (cl_pending (cl s')) (of_nat i + 1)
      = (if i \<in> fst ` set ?C then None else Some (snd ((acc s @ [e]) ! i)))"
    if i: "i < Suc ?n" and r: "cl_reader (cl s) \<noteq> At_end" for i
  proof (cases "i = ?n")
    case True
    then show ?thesis using assms(4) by (auto simp: a(4) update_conv')
  next
    case False
    moreover have "(of_nat i + 1 :: u64) \<noteq> of_nat ?n + 1"
      using cid_inj [of i "Suc ?n" ?n] assms(3) i False by simp
    ultimately show ?thesis
      using assms(2) r i by (simp add: a(4) update_conv' pend_inv_def nth_append)
  qed
  moreover have us: "map (\<lambda>(h, res). (pd_user (snd ((acc s @ [e]) ! h)), res)) ?C
      = map (\<lambda>(h, res). (pd_user (snd (acc s ! h)), res)) ?C"
    using assms(4) by (force simp: nth_append)
  ultimately show ?thesis
    using assms(2) unfolding pend_inv_def accepted_trace [OF assms(1)] a(1-3) us by (simp del: map_eq_conv)
qed

lemma mem_inv_accept:
  assumes "accepted e s s'" and "mem_inv s"
    and "\<And>h. h \<in> fst ` set (completions (sy_trace s)) \<Longrightarrow> h < length (acc s)"
  shows "mem_inv s'"
proof -
  have a: "acc s' = acc s @ [e]" "cl_mem (cl s') = cl_mem (cl s)"
    using assms(1) unfolding accepted_def by blast+
  show ?thesis
    unfolding mem_inv_def accepted_trace [OF assms(1)] a
  proof (intro allI impI, elim conjE)
    fix h res assume h: "(h, res) \<in> set (completions (sy_trace s))" "own_buffer h (acc s @ [e])"
    then have lt: "h < length (acc s)" using assms(3) by force
    with own_buffer_append [OF h(2)] h(1) assms(2) show "\<exists>q r m. Executed h q r \<in> set (sy_trace s)
        \<and> reply_of q r = Some m \<and> rs_res (fst m) = res
        \<and> take (length (snd m)) (cl_mem (cl s) (pd_buf (snd ((acc s @ [e]) ! h)))) = snd m"
      by (simp add: mem_inv_def nth_append)
  qed
qed

lemma sys_inv_accept:
  assumes "sys_inv bo exec f s" and "request_ok (m, p)" and "rq_cid (fst m) = cl_next_cid (cl s)"
    and "length (acc s) + 1 < 2 ^ 64"
  shows "sys_inv bo exec f (sys_call (send_request bo p m ((sy_client s)\<lparr>cc_client := client_issue p (cl s)\<rparr>)) s)"
    (is "sys_inv bo exec f ?s")
proof -
  note inv = sys_invD [OF assms(1)]
  note a = accepted_sys_call [OF inv(1), of m p]
  note idx = completed_index(2) [OF assms(1)]
  have "cc_inv bo (sy_client ?s)"
    using cc_inv_accept [OF inv(1) assms(2-4)] by (simp add: sys_call_def)
  moreover have "req_inv bo ?s" using inv(3) a by (simp add: req_inv_def accepted_def)
  moreover have "resp_inv bo ?s" using inv(5) a unfolding resp_inv_def accepted_trace [OF a] by (simp add: accepted_def)
  moreover have "conn_inv bo (sy_server ?s)" "file_run exec f (executions (sy_trace ?s)) (sy_file ?s)"
    using inv(2,9) a unfolding accepted_trace [OF a] by (simp_all add: accepted_def)
  ultimately show ?thesis
    unfolding sys_inv_def
    using trace_inv_accept [OF a inv(4)] got_inv_accept [OF a inv(6)] pend_inv_accept [OF a inv(7) assms(4) idx]
      mem_inv_accept [OF a inv(8) idx] by blast
qed

text \<open>The client's reader.\<close>

lemma response_bytes_inj [simp]: "response_bytes bo m = response_bytes bo m' \<longleftrightarrow> m = m'"
proof
  assume "response_bytes bo m = response_bytes bo m'"
  then have "bytes_of_response bo (fst m) = bytes_of_response bo (fst m') \<and> snd m = snd m'"
    by (simp add: response_bytes_def)
  then show "m = m'" by (metis prod.expand response_of_bytes_of_response)
qed simp

text \<open>
  \<open>s'\<close> is \<open>s\<close> after the request \<open>h\<close> completed with the response
  \<open>(resp, body)\<close>: its response is read, its callback made, its entry erased, and a body
  is in the read's buffer.
\<close>

definition completed ::
  "nat \<Rightarrow> EasyBDResponseHeader \<Rightarrow> byte list \<Rightarrow> ('u, 'f) sys \<Rightarrow> ('u, 'f) sys \<Rightarrow> bool" where
  "completed h resp body s s' \<longleftrightarrow> acc s' = acc s \<and> sy_trace s' = sy_trace s @ [Completed h (rs_res resp)]
     \<and> sy_server s' = sy_server s \<and> sy_read s' = sy_read s \<and> sy_file s' = sy_file s \<and> req_wire s' = req_wire s
     \<and> cl_reader (cl s') = At_header
     \<and> cl_pending (cl s') = AList.delete (of_nat h + 1) (cl_pending (cl s))
     \<and> cl_callbacks (cl s') = cl_callbacks (cl s) @ [(pd_user (snd (acc s ! h)), rs_res resp)]
     \<and> (\<forall>b. cl_mem (cl s') b \<noteq> cl_mem (cl s) b \<longrightarrow> pd_is_read (snd (acc s ! h)) \<and> b = pd_buf (snd (acc s ! h)))
     \<and> (pd_is_read (snd (acc s ! h)) \<longrightarrow> take (length body) (cl_mem (cl s') (pd_buf (snd (acc s ! h)))) = body)
     \<and> sy_got s' = length (concat (map snd (take (Suc (length (completions (sy_trace s)))) (ent s))))
     \<and> sy_got s' \<le> length (resp_wire s)"

lemma completed_trace:
  assumes "completed h resp body s s'"
  shows "completions (sy_trace s') = completions (sy_trace s) @ [(h, rs_res resp)]"
    "executions (sy_trace s') = executions (sy_trace s)" "issues (sy_trace s') = issues (sy_trace s)"
    "Executed i q r \<in> set (sy_trace s') \<longleftrightarrow> Executed i q r \<in> set (sy_trace s)"
  using assms by (simp_all add: completed_def)

lemma pend_inv_complete:
  assumes "completed h resp body s s'" and "pend_inv s" and "cl_reader (cl s) \<noteq> At_end"
    and "h < length (acc s)" and "length (acc s) < 2 ^ 64"
  shows "pend_inv s'"
proof -
  let ?C = "completions (sy_trace s)"
  have c: "acc s' = acc s" "cl_reader (cl s') = At_header"
    "cl_pending (cl s') = AList.delete (of_nat h + 1) (cl_pending (cl s))"
    "cl_callbacks (cl s') = cl_callbacks (cl s) @ [(pd_user (snd (acc s ! h)), rs_res resp)]"
    using assms(1) unfolding completed_def by blast+
  have "map_of (cl_pending (cl s')) (of_nat i + 1)
      = (if i \<in> insert h (fst ` set ?C) then None else Some (snd (acc s ! i)))" if "i < length (acc s)" for i
    using that assms(2,3) cid_inj [OF that assms(4,5)] by (auto simp: c(3) delete_conv' pend_inv_def)
  moreover have "cl_callbacks (cl s) = map (\<lambda>(h, res). (pd_user (snd (acc s ! h)), res)) ?C"
    using assms(2,3) by (auto simp: pend_inv_def)
  ultimately show ?thesis by (simp add: pend_inv_def completed_trace [OF assms(1)] c)
qed

lemma mem_inv_complete:
  assumes "completed h resp body s s'" and "mem_inv s" and "h \<notin> fst ` set (completions (sy_trace s))"
    and "h < length (acc s)" and "Executed h q r \<in> set (sy_trace s)" and "reply_of q r = Some (resp, body)"
  shows "mem_inv s'"
  unfolding mem_inv_def completed_trace(4) [OF assms(1)]
proof (intro allI impI, elim conjE)
  have c: "acc s' = acc s"
    "\<And>b. cl_mem (cl s') b \<noteq> cl_mem (cl s) b \<Longrightarrow> pd_is_read (snd (acc s ! h)) \<and> b = pd_buf (snd (acc s ! h))"
    "pd_is_read (snd (acc s ! h)) \<Longrightarrow> take (length body) (cl_mem (cl s') (pd_buf (snd (acc s ! h)))) = body"
    using assms(1) unfolding completed_def by blast+
  fix i res assume a: "(i, res) \<in> set (completions (sy_trace s'))" "own_buffer i (acc s')"
  show "\<exists>q r m. Executed i q r \<in> set (sy_trace s) \<and> reply_of q r = Some m \<and> rs_res (fst m) = res
      \<and> take (length (snd m)) (cl_mem (cl s') (pd_buf (snd (acc s' ! i)))) = snd m"
  proof (cases "i = h")
    case True
    with a(1) assms(3) have "res = rs_res resp" by (force simp: completed_trace [OF assms(1)])
    with True a(2) assms(5,6) c show ?thesis
      by (intro exI [of _ q] exI [of _ r] exI [of _ "(resp, body)"]) (simp add: own_buffer_def)
  next
    case False
    with a(1) have b: "(i, res) \<in> set (completions (sy_trace s))" by (simp add: completed_trace [OF assms(1)])
    have "pd_is_read (snd (acc s ! h)) \<Longrightarrow> pd_buf (snd (acc s ! i)) \<noteq> pd_buf (snd (acc s ! h))"
      using a(2) False assms(4) c(1) by (auto simp: own_buffer_def)
    then have "cl_mem (cl s') (pd_buf (snd (acc s ! i))) = cl_mem (cl s) (pd_buf (snd (acc s ! i)))"
      using c(2) by metis
    with assms(2) b a(2) c(1) show ?thesis by (simp add: mem_inv_def)
  qed
qed

lemma sys_inv_complete:
  assumes "sys_inv bo exec f s" and "cl_reader (cl s) \<noteq> At_end" and "good s"
    and k: "length (completions (sy_trace s)) < length (ent s)"
      "ent s ! length (completions (sy_trace s)) = (h, response_bytes bo (resp, body))"
    and e: "Executed h q r \<in> set (sy_trace s)" "reply_of q r = Some (resp, body)"
    and c: "cc_inv bo (sy_client s')" "completed h resp body s s'"
  shows "sys_inv bo exec f s'"
proof -
  note inv = sys_invD [OF assms(1)]
  note new = next_response_new [OF assms(1) k]
  note x = executed_request [OF assms(1) e(1)]
  note tr = completed_trace [OF c(2)]
  have same: "acc s' = acc s" "sy_trace s' = sy_trace s @ [Completed h (rs_res resp)]" "sy_server s' = sy_server s"
    "sy_read s' = sy_read s" "sy_file s' = sy_file s" "req_wire s' = req_wire s" "cl_reader (cl s') = At_header"
    "sy_got s' = length (concat (map snd (take (Suc (length (completions (sy_trace s)))) (ent s))))"
    "sy_got s' \<le> length (resp_wire s)"
    using c(2) unfolding completed_def by blast+
  have "linear_trace (sy_trace s')"
    using inv(4) new e by (auto simp: same linear_trace_snoc trace_inv_def ev_key_iff simp del: ev_key.simps)
  then have "trace_inv s'" using inv(4) by (simp add: trace_inv_def same)
  moreover have "map fst (completions (sy_trace s')) = map fst (take (Suc (length (completions (sy_trace s)))) (ent s))"
    using inv(6) k by (simp add: tr got_inv_def take_Suc_conv_app_nth)
  then have "got_inv bo s'" using k(1) same by (simp add: got_inv_def tr)
  moreover have "req_inv bo s'" "resp_inv bo s'"
    using inv(3,5) by (simp_all add: req_inv_def resp_inv_def same)
  moreover have "pend_inv s'"
    using pend_inv_complete [OF c(2) inv(7) assms(2) x(2)] assms(3) by (simp add: good_def)
  moreover have "mem_inv s'" by (rule mem_inv_complete [OF c(2) inv(8) new x(2) e])
  ultimately show ?thesis
    using inv(2,9) c(1) by (simp add: sys_inv_def tr same)
qed

text \<open>What the client's reader finds next, in terms of the request it answers.\<close>

lemma next_response:
  assumes "sys_inv bo exec f s" and "good s" and "cl_reader (cl s) \<noteq> At_end"
    and "length (completions (sy_trace s)) < length (ent s)"
    and "snd (ent s ! length (completions (sy_trace s))) = response_bytes bo (resp, body)"
  obtains h q r where "ent s ! length (completions (sy_trace s)) = (h, response_bytes bo (resp, body))"
    and "Executed h q r \<in> set (sy_trace s)" and "reply_of q r = Some (resp, body)"
    and "rs_cid resp = of_nat h + 1" and "unat (rs_cid resp) - 1 = h"
    and "length body = response_payload_len (pd_is_read (snd (acc s ! h))) resp"
    and "h < length (acc s)" and "rs_cid resp \<notin> cl_sending (cl s)"
    and "map_of (cl_pending (cl s)) (rs_cid resp) = Some (snd (acc s ! h))"
proof -
  let ?k = "length (completions (sy_trace s))"
  obtain h where h: "ent s ! ?k = (h, response_bytes bo (resp, body))" using assms(5) by (metis prod.collapse)
  then have "(h, response_bytes bo (resp, body)) \<in> set (ent s)" using assms(4) by (metis nth_mem)
  from response_entered [OF assms(1) this] obtain q r where r: "Executed h q r \<in> set (sy_trace s)"
    "reply_of q r = Some (resp, body)" "rs_cid resp = of_nat h + 1"
    "length body = response_payload_len (pd_is_read (snd (acc s ! h))) resp" "h < length (reqs s)" "h < length (acc s)"
    by (metis prod.inject response_bytes_inj)
  moreover have "unat (rs_cid resp) - 1 = h"
    using cid_index [OF r(6)] assms(2) r(3) by (simp add: good_def)
  moreover have "rs_cid resp \<notin> cl_sending (cl s)"
    using read_request_sent [OF assms(1,2) r(5)] r(3) by simp
  moreover have "map_of (cl_pending (cl s)) (rs_cid resp) = Some (snd (acc s ! h))"
    using sys_invD(7) [OF assms(1)] next_response_new [OF assms(1,4) h] assms(3) r(3,6) by (simp add: pend_inv_def)
  ultimately show thesis using that h by blast
qed

lemma responses_entered:
  assumes "sys_inv bo exec f s" and "b \<in> set (map snd (ent s))"
  shows "\<exists>resp body. b = response_bytes bo (resp, body)"
proof -
  from assms(2) obtain h where "(h, b) \<in> set (ent s)" by force
  from response_entered [OF assms(1) this] show ?thesis by blast
qed

lemma resp_prefix:
  assumes "sys_inv bo exec f s" and "good s"
  shows "prefix (resp_wire s) (concat (map snd (ent s)))"
  using serial_prefix [of "cn_send (sy_server s)"] sys_invD(2) [OF assms(1)] assms(2)
  by (simp add: conn_inv_def good_def)

text \<open>The header of a read's response announces a body.\<close>

lemma sys_inv_body_next:
  assumes "sys_inv bo exec f s" and "cl_reader (cl s) \<noteq> At_end" and "body_next bo cid p res s'"
    and "s' = s\<lparr>sy_client := (sy_client s)\<lparr>cc_client := (cl s)\<lparr>cl_reader := At_body cid p res\<rparr>\<rparr>, sy_got := got\<rparr>"
    and "cc_inv bo (sy_client s')" and "got \<le> length (resp_wire s)"
  shows "sys_inv bo exec f s'"
proof -
  note inv = sys_invD [OF assms(1)]
  have "got_inv bo s'" using inv(6) assms(3,6) by (simp add: got_inv_def assms(4))
  moreover have "pend_inv s'" "mem_inv s'"
    using inv(7,8) assms(2) by (simp_all add: pend_inv_def mem_inv_def assms(4))
  ultimately show ?thesis
    using inv assms(5) by (simp add: sys_inv_def req_inv_def trace_inv_def resp_inv_def assms(4))
qed

lemma sys_inv_header:
  assumes "sys_inv bo exec f s" and "good s" and "cl_reader (cl s) = At_header"
    and "spec_read sizeof_EasyBDResponseHeader (drop (sy_got s) (resp_wire s)) None = Some (Inr (hdr, rest))"
  shows "sys_inv bo exec f (sys_header (response_of_bytes bo hdr) rest s)"
proof -
  note inv = sys_invD [OF assms(1)]
  let ?k = "length (completions (sy_trace s))" and ?bs = "map snd (ent s)"
  have got: "sy_got s = length (concat (take ?k ?bs))" "sy_got s \<le> length (resp_wire s)"
    using inv(6) assms(3) by (simp_all add: got_inv_def take_map)
  from header_parsed [OF resp_prefix [OF assms(1,2)] got assms(4) responses_entered [OF assms(1)]]
  obtain resp body where b: "?k < length (ent s)" "snd (ent s ! ?k) = response_bytes bo (resp, body)"
    "hdr = bytes_of_response bo resp" "length (resp_wire s) - length rest = sy_got s + sizeof_EasyBDResponseHeader"
    "sy_got s + sizeof_EasyBDResponseHeader \<le> length (resp_wire s)"
    by (metis length_map nth_map)
  have re: "cl_reader (cl s) \<noteq> At_end" using assms(3) by simp
  from next_response [OF assms(1,2) re b(1,2)] obtain h q r
    where h: "ent s ! ?k = (h, response_bytes bo (resp, body))" "Executed h q r \<in> set (sy_trace s)"
      "reply_of q r = Some (resp, body)" "rs_cid resp = of_nat h + 1" "unat (rs_cid resp) - 1 = h"
      "length body = response_payload_len (pd_is_read (snd (acc s ! h))) resp" "h < length (acc s)"
      "rs_cid resp \<notin> cl_sending (cl s)" "map_of (cl_pending (cl s)) (rs_cid resp) = Some (snd (acc s ! h))"
    by blast
  let ?s = "sys_header resp rest s"
  have cc: "cc_inv bo (sy_client ?s)"
    using cc_step_inv [OF cc_step.header [OF assms(3) h(8)] inv(1)] assms(2) by (simp add: good_def sys_header_def)
  have "sys_inv bo exec f ?s"
  proof (cases "pd_is_read (snd (acc s ! h)) \<and> 0 < sint (rs_res resp)")
    case True
    then have "body_next bo (rs_cid resp) (snd (acc s ! h)) (rs_res resp) ?s"
      unfolding body_next_def using b(1,4) h got(1)
      by (intro exI [of _ h] exI [of _ resp] exI [of _ body])
        (simp add: sys_header_def completes_def response_payload_len_def take_map)
    then show ?thesis
      using True h(9) b(4,5) cc
      by (intro sys_inv_body_next [OF assms(1) re]) (simp_all add: sys_header_def completes_def client_header_def)
  next
    case False
    then have "completed h resp body s ?s"
      using b(1,4,5) h got(1)
      by (auto simp: completed_def sys_header_def completes_def client_header_def client_complete_def
          client_dispatch_def response_payload_len_def take_Suc_conv_app_nth take_map response_bytes_def)
    then show ?thesis by (rule sys_inv_complete [OF assms(1) re assms(2) b(1) h(1-3) cc])
  qed
  then show ?thesis using b(3) by simp
qed

lemma sys_inv_body:
  assumes "sys_inv bo exec f s" and "good s" and "cl_reader (cl s) = At_body cid p res"
    and "spec_read (nat (sint res)) (drop (sy_got s) (resp_wire s)) None = Some (Inr (data, rest))"
  shows "sys_inv bo exec f (sys_body cid res data rest s)"
proof -
  note inv = sys_invD [OF assms(1)]
  let ?k = "length (completions (sy_trace s))" and ?bs = "map snd (ent s)"
  have "body_next bo cid p res s" "sy_got s \<le> length (resp_wire s)"
    using inv(6) assms(3) by (simp_all add: got_inv_def)
  then obtain h resp body where b: "?k < length (ent s)" "ent s ! ?k = (h, response_bytes bo (resp, body))"
    "sy_got s = length (concat (take ?k ?bs)) + sizeof_EasyBDResponseHeader" "sy_got s \<le> length (resp_wire s)"
    "cid = of_nat h + 1" "p = snd (acc s ! h)" "rs_res resp = res" "length body = nat (sint res)"
    unfolding body_next_def take_map by blast
  have k: "?k < length ?bs" "?bs ! ?k = response_bytes bo (resp, body)" using b(1,2) by simp_all
  note bp = body_parsed [OF resp_prefix [OF assms(1,2)] k b(3,4) assms(4) [folded b(8)]]
  have re: "cl_reader (cl s) \<noteq> At_end" using assms(3) by simp
  have sn: "snd (ent s ! ?k) = response_bytes bo (resp, body)" using b(2) by simp
  from next_response [OF assms(1,2) re b(1) sn] obtain q r
    where h: "Executed h q r \<in> set (sy_trace s)" "reply_of q r = Some (resp, body)" "rs_cid resp = of_nat h + 1"
      "unat (rs_cid resp) - 1 = h" "map_of (cl_pending (cl s)) (rs_cid resp) = Some (snd (acc s ! h))"
      "length body = response_payload_len (pd_is_read (snd (acc s ! h))) resp"
    by (metis (no_types, lifting) b(2) prod.inject)
  let ?s = "sys_body cid res data rest s"
  have len: "length data = nat (sint res)" using bp(1) b(8) by simp
  have cc: "cc_inv bo (sy_client ?s)"
    using cc_step_inv [OF cc_step.body [OF assms(3) len] inv(1)] assms(2) by (simp add: good_def sys_body_def)
  have cl: "client_body data (cl s) = client_complete cid p res (client_copy (pd_buf p) body (cl s))"
    using assms(3) bp(1) by (simp add: client_body_def)
  have "pd_is_read (snd (acc s ! h)) \<or> body = []" using h(6) by (auto simp: response_payload_len_def split: if_splits)
  then have m: "memcpy_at (cl_mem (cl s) (pd_buf p)) 0 body = cl_mem (cl s) (pd_buf p)" if "\<not> pd_is_read (snd (acc s ! h))"
    using that by (simp add: memcpy_at_def)
  have "completed h resp body s ?s"
    using b(5-7) bp(2,3) m h(3,4)
    by (auto simp: completed_def sys_body_def cl client_complete_def client_dispatch_def client_copy_def take_map
        memcpy_at_def split: if_splits)
  then show ?thesis by (rule sys_inv_complete [OF assms(1) re assms(2) b(1,2) h(1,2) cc])
qed

lemma sys_inv_client_stop:
  assumes "sys_inv bo exec f s" and "good s" and "cl_reader (cl s) \<noteq> At_end"
  shows "sys_inv bo exec f (s\<lparr>sy_client := (sy_client s)\<lparr>cc_client := client_end (cl s)\<rparr>\<rparr>)"
    (is "sys_inv bo exec f ?s")
proof -
  note inv = sys_invD [OF assms(1)]
  have "cc_inv bo (sy_client ?s)"
    using cc_step_inv [OF cc_step.stream_end [OF assms(3)] inv(1)] assms(2) by (simp add: good_def)
  moreover have "pend_inv ?s"
  proof -
    have "cl_callbacks (cl s) = map (\<lambda>(h, res). (pd_user (snd (acc s ! h)), res)) (completions (sy_trace s))"
      using inv(7) assms(3) by (auto simp: pend_inv_def)
    then show ?thesis
      by (auto simp: pend_inv_def client_end_sel intro!: exI [of _ "map (pd_user \<circ> snd) (cl_pending (cl s))"])
  qed
  ultimately show ?thesis
    using inv unfolding sys_inv_def
    by (simp add: req_inv_def trace_inv_def resp_inv_def got_inv_def mem_inv_def client_end_sel)
qed

text \<open>Failures are for ever, and requests are never forgotten.\<close>

lemma good_before: "sys_step bo exec s s' \<Longrightarrow> good s' \<Longrightarrow> good s"
proof (induction rule: sys_step.induct)
  case (pread s buf sz off u)
  then show ?case
    by (cases rule: cc_pread_cases [of bo buf sz off u "sy_client s"]) (simp_all add: good_def sys_call_def send_request_def)
next
  case (pwrite s data off u)
  then show ?case
    by (cases rule: cc_pwrite_cases [of bo data off u "sy_client s"]) (simp_all add: good_def sys_call_def send_request_def)
qed (simp_all add: good_def cc_take_def cc_sent_def cc_fail_def sys_spawn_def conn_spawn_def conn_reader_end_def
    sys_execute_def conn_respond_def conn_drop_def conn_sent_def conn_fail_def conn_finish_def sys_header_def sys_body_def
    split: prod.splits)

lemma sys_inv_call:
  assumes "sys_inv bo exec f s" and "good (sys_call c s)"
    and "c = sy_client s \<or> (\<exists>m p. c = send_request bo p m ((sy_client s)\<lparr>cc_client := client_issue p (cl s)\<rparr>)
      \<and> request_ok (m, p) \<and> rq_cid (fst m) = cl_next_cid (cl s))"
  shows "sys_inv bo exec f (sys_call c s)"
  using assms(3)
proof
  assume "c = sy_client s"
  then show ?thesis using assms(1) by (simp add: sys_call_def)
next
  assume "\<exists>m p. c = send_request bo p m ((sy_client s)\<lparr>cc_client := client_issue p (cl s)\<rparr>)
      \<and> request_ok (m, p) \<and> rq_cid (fst m) = cl_next_cid (cl s)"
  then obtain m p where c: "c = send_request bo p m ((sy_client s)\<lparr>cc_client := client_issue p (cl s)\<rparr>)"
    "request_ok (m, p)" "rq_cid (fst m) = cl_next_cid (cl s)" by blast
  then have "length (acc s) + 1 < 2 ^ 64" using assms(2) by (simp add: good_def sys_call_def send_request_def)
  with sys_inv_accept [OF assms(1) c(2,3)] show ?thesis unfolding c(1) by blast
qed

text \<open>Steps of the server that neither spawn nor respond.\<close>

lemma sys_inv_server_step:
  assumes "sys_inv bo exec f s" and "conn_step bo (sy_server s) c"
    and "cn_requests c = reqs s \<and> sl_entered (cn_send c) = ent s \<and> length (resp_wire s) \<le> length (sl_wire (cn_send c))"
  shows "sys_inv bo exec f (s\<lparr>sy_server := c\<rparr>)"
  using sys_inv_server_frame [OF assms(1) conn_step_inv [OF assms(2) sys_invD(2) [OF assms(1)]]] assms(3) by blast

lemmas server_steps = conn_step.reader_end conn_step.drop conn_step.send conn_step.sent conn_step.finish

lemma server_frames:
  "cn_requests (conn_reader_end c) = cn_requests c" "cn_send (conn_reader_end c) = cn_send c"
  "cn_requests (conn_drop h c) = cn_requests c" "cn_send (conn_drop h c) = cn_send c"
  "cn_requests (conn_sent h msg c) = cn_requests c" "cn_send (conn_sent h msg c) = sl_sent h msg (cn_send c)"
  "cn_requests (conn_finish h c) = cn_requests c" "cn_send (conn_finish h c) = cn_send c"
  "length (sl_wire s) \<le> length (sl_wire (sl_send h msg k n s))"
  by (simp_all add: conn_reader_end_def conn_drop_def conn_sent_def conn_finish_def sl_send_def split: prod.split)

lemma conn_step_no_buffer:
  "cn_handlers c h = Some (Io (Read_req cid off sz)) \<Longrightarrow> conn_step bo c (conn_drop h c)"
  using conn_step.drop [of c h "Read_req cid off sz" bo "Io_throw Bad_alloc"] by (simp add: handle_read_def)

lemma no_error_requests:
  assumes "sys_inv bo exec f s" and "cn_handlers (sy_server s) h = Some (Io (Error_req cid e))"
  shows False
proof -
  note inv = sys_invD [OF assms(1)]
  have h: "h < length (reqs s)" "Error_req cid e = reqs s ! h"
    using inv(2) assms(2) by (auto simp: conn_inv_def place_inv_def)
  note n = req_nth [OF inv(3) h(1)]
  have "request_ok (fst (acc s ! h), snd (acc s ! h))" using cc_invD [OF inv(1)] n(1) by (simp add: list_all_length)
  from request_ok_request(3) [OF this, of cid e] h(2) n(2) show False by simp
qed

lemma sys_step_inv:
  assumes "sys_step bo exec s s'" and "sys_inv bo exec f s" and "good s'"
  shows "sys_inv bo exec f s'"
proof -
  note good = good_before [OF assms(1,3)]
  note cc = sys_invD(1) [OF assms(2)]
  note server = sys_inv_server_step [OF assms(2)]
  show ?thesis
    using assms(1)
  proof (cases rule: sys_step.cases)
    case (pread buf sz off u)
    show ?thesis
      unfolding pread
      by (rule sys_inv_call [OF assms(2) assms(3) [unfolded pread]])
        (cases rule: cc_pread_cases [of bo buf sz off u "sy_client s"]; blast)
  next
    case (pwrite data off u)
    show ?thesis
      unfolding pwrite
      by (rule sys_inv_call [OF assms(2) assms(3) [unfolded pwrite]])
        (cases rule: cc_pwrite_cases [of bo data off u "sy_client s"]; blast)
  next
    case (client_take k msg j n)
    show ?thesis
      unfolding client_take(1)
      by (rule sys_inv_client_frame [OF assms(2) cc_inv_take [OF cc client_take(2,4,3)]])
        (simp_all add: cc_take_def sl_send_def client_sent_def)
  next
    case (client_sent k msg)
    show ?thesis
      unfolding client_sent(1)
      by (rule sys_inv_client_frame [OF assms(2) cc_inv_sent [OF cc client_sent(2)]]) (simp_all add: cc_sent_def)
  next
    case (respond h q r msg)
    then show ?thesis using sys_inv_respond [OF assms(2)] by blast
  next
    case (no_buffer h cid off sz)
    then show ?thesis using server [OF conn_step_no_buffer] by (simp add: server_frames)
  qed (use assms(3) in \<open>auto simp: good_def cc_fail_def conn_fail_def server_frames dest: no_error_requests [OF assms(2)]
      intro!: server sys_inv_spawn [OF assms(2) good] sys_inv_execute [OF assms(2)]
        sys_inv_header [OF assms(2) good] sys_inv_body [OF assms(2) good] sys_inv_client_stop [OF assms(2) good]
      intro: server_steps\<close>)
qed

lemma sys_reachable_inv:
  assumes "(sys_step bo exec)\<^sup>*\<^sup>* (sys_init sync mem f) s" and "good s"
  shows "sys_inv bo exec f s"
  using assms
proof (induction rule: rtranclp_induct)
  case base
  then show ?case by (simp add: sys_inv_init)
next
  case (step s s')
  have "good s" by (rule good_before [OF step(2,4)])
  with step(3) have "sys_inv bo exec f s" by simp
  from sys_step_inv [OF step(2) this step(4)] show ?case .
qed

subsection \<open>Properties\<close>

text \<open>
  A complete run: a read of 512 bytes at offset 512 is sent in one piece, parsed, executed
  with two bytes read, answered, and its header and body are read by the client.
\<close>

definition sample_pending :: "string pending" where
  "sample_pending = \<lparr>pd_is_read = True, pd_buf = 8, pd_user = ''b''\<rparr>"

definition sample_cl :: "u64 set \<Rightarrow> string client" where
  "sample_cl sn = \<lparr>cl_next_cid = 2, cl_pending = [(1, sample_pending)], cl_total_dispatched = 0, cl_sync_writes = False,
     cl_reader = At_header, cl_sending = sn, cl_mem = (\<lambda>_. [0, 0, 0]), cl_overflow = False, cl_issued = [''b''],
     cl_callbacks = []\<rparr>"

definition sample_cc :: "string client \<Rightarrow> nat \<Rightarrow> string cconn" where
  "sample_cc c j = \<lparr>cc_client = c,
     cc_send = \<lparr>sl_mutex = \<lparr>mx_locked = True, mx_waiters = []\<rparr>,
       sl_senders = [1 \<mapsto> Sending (message_bytes Little_endian (sample_read 1 512)) j],
       sl_wire = take j (message_bytes Little_endian (sample_read 1 512)), sl_failed = False,
       sl_entered = [(1, message_bytes Little_endian (sample_read 1 512))], sl_log = [], sl_late = []\<rparr>,
     cc_accepted = [(sample_read 1 512, sample_pending)]\<rparr>"

definition sample_reply :: "EasyBDResponseHeader \<times> byte list" where
  "sample_reply = (\<lparr>rs_cid = 1, rs_res = 2\<rparr>, [5, 6])"

definition sample_server :: "hphase \<Rightarrow> nat serial \<Rightarrow> conn" where
  "sample_server p sr = \<lparr>cn_send = sr, cn_wg = \<lparr>wg_remaining = 1, wg_waiter = None\<rparr>, cn_handlers = [0 \<mapsto> p],
     cn_phase = Reading, cn_requests = [Read_req 1 512 512], cn_dropped = []\<rparr>"

definition sample_serial :: "nat \<Rightarrow> nat serial" where
  "sample_serial j = \<lparr>sl_mutex = \<lparr>mx_locked = True, mx_waiters = []\<rparr>,
     sl_senders = [0 \<mapsto> Sending (response_bytes Little_endian sample_reply) j],
     sl_wire = take j (response_bytes Little_endian sample_reply), sl_failed = False,
     sl_entered = [(0, response_bytes Little_endian sample_reply)], sl_log = [], sl_late = []\<rparr>"

definition sample_trace :: "ev list" where
  "sample_trace = [Issued 0 (Read_req 1 512 512), Executed 0 (Read_req 1 512 512) (Io_ok 2 [5, 6, 0])]"

definition sample_sys :: "string cconn \<Rightarrow> conn \<Rightarrow> nat \<Rightarrow> nat \<Rightarrow> ev list \<Rightarrow> (string, unit) sys" where
  "sample_sys c sv rd got tr =
     \<lparr>sy_client = c, sy_server = sv, sy_read = rd, sy_got = got, sy_file = (), sy_trace = tr\<rparr>"

lemmas sample_defs = sample_sys_def sample_cc_def sample_cl_def sample_server_def sample_serial_def sample_trace_def

lemma sample_request:
  "message_request (sample_read 1 512) = Read_req 1 512 512"
  "length (message_bytes Little_endian (sample_read 1 512)) = 25" "message_ok (\<lambda>_. True) (sample_read 1 512)"
  "length (response_bytes Little_endian sample_reply) = 18"
  "handler_message Little_endian (Read_req 1 512 512) (Io_ok 2 [5, 6, 0]) = Some (response_bytes Little_endian sample_reply)"
  by (simp_all add: message_request_def sample_read_def is_write_op_def EASYBD_OP_READ_def EASYBD_OP_WRITE_def
      EASYBD_OP_WRITE_SYNC_def EASYBD_MAX_PAYLOAD_SIZE_def message_bytes_def sizeof_EasyBDRequestHeader_def
      message_ok_def request_payload_len_def response_bytes_def sample_reply_def sizeof_EasyBDResponseHeader_def
      handler_message_reply)

abbreviation sample_step :: "(string, unit) sys \<Rightarrow> (string, unit) sys \<Rightarrow> bool" where
  "sample_step \<equiv> sys_step Little_endian (\<lambda>_ _ _ _. True)"

lemma sample_sending:
  "sample_step\<^sup>*\<^sup>* (sys_init False (\<lambda>_. [0, 0, 0]) ())
     (sample_sys (sample_cc (sample_cl {}) 25) (sample_server (Io (Read_req 1 512 512)) serial_init) 25 0
        [Issued 0 (Read_req 1 512 512)])"
proof -
  let ?i = "[Issued 0 (Read_req 1 512 512)]" and ?q = "Read_req 1 512 512"
  let ?m = "message_bytes Little_endian (sample_read 1 512)"
  have cid: "rq_cid (fst (sample_read 1 512)) = 1" by (simp add: sample_read_def)
  have 1: "sample_step (sys_init False (\<lambda>_. [0, 0, 0]) ()) (sample_sys (sample_cc (sample_cl {1}) 0) conn_init 0 0 ?i)"
    using pread [of Little_endian "\<lambda>_ _ _ _. True" "sys_init False (\<lambda>_. [0, 0, 0]) ()" 8 512 512 "''b''"]
    by (simp add: sys_call_def sys_init_def cc_pread_def client_pread_def client_issue_def cc_init_def client_init_def
        send_request_def sl_enter_def serial_init_def mutex_init_def lock_guard_def lock_await_ready_def
        EASYBD_MAX_PAYLOAD_SIZE_def sample_defs sample_pending_def cid sample_request(1) flip: sample_read_def)
  have 2: "sample_step (sample_sys (sample_cc (sample_cl {1}) 0) conn_init 0 0 ?i)
      (sample_sys (sample_cc (sample_cl {}) 25) conn_init 0 0 ?i)"
    using client_take [of "sample_sys (sample_cc (sample_cl {1}) 0) conn_init 0 0 ?i" 1 ?m 0 25] sample_request(2)
    by (simp add: sample_defs cc_take_def sl_send_def client_sent_def)
  have 3: "sample_step (sample_sys (sample_cc (sample_cl {}) 25) conn_init 0 0 ?i)
      (sample_sys (sample_cc (sample_cl {}) 25) (sample_server (Io ?q) serial_init) 25 0 ?i)"
    using spawn [of "sample_sys (sample_cc (sample_cl {}) 25) conn_init 0 0 ?i" Little_endian "\<lambda>_. True" ?q "[]"]
      spec_turn_message [OF sample_request(3), of Little_endian "[]" None] sample_request(1,2)
    by (simp add: sample_defs sys_spawn_def conn_spawn_def conn_init_def wg_add_def wg_init_def)
  from 1 2 3 show ?thesis by (meson converse_rtranclp_into_rtranclp rtranclp.rtrancl_refl)
qed

lemma sample_completed:
  "\<exists>c. sample_step\<^sup>*\<^sup>* (sys_init False (\<lambda>_. [0, 0, 0]) ())
     (sample_sys (sample_cc c 25) (sample_server Responding (sample_serial 18)) 25 18 (sample_trace @ [Completed 0 2]))"
proof -
  let ?i = "[Issued 0 (Read_req 1 512 512)]" and ?q = "Read_req 1 512 512" and ?cc = "sample_cc (sample_cl {}) 25"
  let ?r = "response_bytes Little_endian sample_reply" and ?rp = "\<lparr>rs_cid = 1, rs_res = 2\<rparr>"
  let ?b = "(sample_cl {})\<lparr>cl_reader := At_body 1 sample_pending 2\<rparr>"
  have r: "?r = bytes_of_response Little_endian ?rp @ [5, 6]" by (simp add: sample_reply_def response_bytes_def)
  have 1: "sample_step (sample_sys ?cc (sample_server (Io ?q) serial_init) 25 0 ?i)
      (sample_sys ?cc (sample_server (Io ?q) serial_init) 25 0 sample_trace)"
    using execute [of "sample_sys ?cc (sample_server (Io ?q) serial_init) 25 0 ?i" 0 ?q "\<lambda>_ _ _ _. True" "Io_ok 2 [5, 6, 0]" "()"
        Little_endian]
    by (simp add: sample_defs sys_execute_def)
  have 2: "sample_step (sample_sys ?cc (sample_server (Io ?q) serial_init) 25 0 sample_trace)
      (sample_sys ?cc (sample_server Responding (sample_serial 0)) 25 0 sample_trace)"
    using respond [of "sample_sys ?cc (sample_server (Io ?q) serial_init) 25 0 sample_trace" 0 ?q "Io_ok 2 [5, 6, 0]"
        Little_endian ?r "\<lambda>_ _ _ _. True"] sample_request(5)
    by (simp add: sample_defs conn_respond_def sl_enter_def serial_init_def mutex_init_def lock_guard_def lock_await_ready_def)
  have 3: "sample_step (sample_sys ?cc (sample_server Responding (sample_serial 0)) 25 0 sample_trace)
      (sample_sys ?cc (sample_server Responding (sample_serial 18)) 25 0 sample_trace)"
    using server_send [of "sample_sys ?cc (sample_server Responding (sample_serial 0)) 25 0 sample_trace" 0 ?r 0 18
        Little_endian "\<lambda>_ _ _ _. True"] sample_request(4)
    by (simp add: sample_defs sl_send_def)
  have h: "spec_read sizeof_EasyBDResponseHeader ?r None = Some (Inr (bytes_of_response Little_endian ?rp, [5, 6]))"
    unfolding r by (rule spec_read_append) simp
  have 4: "sample_step (sample_sys ?cc (sample_server Responding (sample_serial 18)) 25 0 sample_trace)
      (sample_sys (sample_cc ?b 25) (sample_server Responding (sample_serial 18)) 25 16 sample_trace)"
    using header [of "sample_sys ?cc (sample_server Responding (sample_serial 18)) 25 0 sample_trace"
        "bytes_of_response Little_endian ?rp" "[5, 6]" Little_endian "\<lambda>_ _ _ _. True"] h sample_request(4)
    by (simp add: sample_defs sys_header_def completes_def client_header_def sample_pending_def)
  have "drop 16 ?r = [5, 6]" by (simp add: r sizeof_EasyBDResponseHeader_def)
  then have 5: "sample_step (sample_sys (sample_cc ?b 25) (sample_server Responding (sample_serial 18)) 25 16 sample_trace)
      (sample_sys (sample_cc (client_body [5, 6] ?b) 25) (sample_server Responding (sample_serial 18)) 25 18
        (sample_trace @ [Completed 0 2]))"
    using body [of "sample_sys (sample_cc ?b 25) (sample_server Responding (sample_serial 18)) 25 16 sample_trace"
        1 sample_pending 2 "[5, 6]" "[]" Little_endian "\<lambda>_ _ _ _. True"] sample_request(4)
    by (simp add: sample_defs sys_body_def spec_read_def)
  from sample_sending 1 2 3 4 5 show ?thesis by (meson rtranclp.rtrancl_into_rtrancl)
qed

text \<open>
  C2. From the callback to the file and back: as long as no send fails and cids do not
  wrap around, every run of a client and its connection, under every interleaving of calls,
  senders, readers, handlers, file operations and the network, is linearizable. Requests are
  issued once each; every file operation is that of a request issued before, with exactly its
  arguments, and takes effect at most once; the file is what these operations, in the order of
  their effect, make of it; every callback reports the result of its request's own operation,
  which took effect before; and the only other callbacks are \<open>-ECONNRESET\<close>, after the
  client's reader has ended.
\<close>

theorem system_linearizable:
  assumes "(sys_step bo exec)\<^sup>*\<^sup>* (sys_init sync mem f) s" and "length (cc_accepted (sy_client s)) < 2 ^ 64"
    and "\<not> sl_failed (cc_send (sy_client s))" and "\<not> sl_failed (cn_send (sy_server s))"
  shows "linear_trace (sy_trace s)
    \<and> issues (sy_trace s) = enumerate 0 (map (message_request \<circ> fst) (cc_accepted (sy_client s)))
    \<and> file_run exec f (executions (sy_trace s)) (sy_file s)
    \<and> (\<exists>lost. cl_callbacks (cc_client (sy_client s))
          = map (\<lambda>(h, res). (pd_user (snd (cc_accepted (sy_client s) ! h)), res)) (completions (sy_trace s))
            @ map (\<lambda>u. (u, word_of_int (- ECONNRESET))) lost
          \<and> (cl_reader (cc_client (sy_client s)) \<noteq> At_end \<longrightarrow> lost = []))"
proof -
  note inv = sys_invD [OF sys_reachable_inv [OF assms(1)]]
  have "good s" using assms(2-4) by (simp add: good_def)
  with inv(4,7,9) show ?thesis unfolding trace_inv_def pend_inv_def by blast
qed

theorem system_linearizable_witness:
  "\<exists>s. sample_step\<^sup>*\<^sup>* (sys_init False (\<lambda>_. [0, 0, 0]) ()) s
     \<and> sy_trace s = [Issued 0 (Read_req 1 512 512), Executed 0 (Read_req 1 512 512) (Io_ok 2 [5, 6, 0]), Completed 0 2]
     \<and> cl_callbacks (cc_client (sy_client s)) \<noteq> []"
proof -
  from sample_completed obtain c where r: "sample_step\<^sup>*\<^sup>* (sys_init False (\<lambda>_. [0, 0, 0]) ())
     (sample_sys (sample_cc c 25) (sample_server Responding (sample_serial 18)) 25 18 (sample_trace @ [Completed 0 2]))"
     (is "sample_step\<^sup>*\<^sup>* _ ?s") by blast
  have "completions (sy_trace ?s) = [(0, 2)]" by (simp add: sample_defs completions_def)
  with system_linearizable [OF r] r show ?thesis
    by (intro exI [of _ ?s]) (auto simp: sample_defs)
qed

text \<open>
  C11. Read data is the file's data: when a read has completed and no other read was given
  the same buffer, the buffer starts with exactly the bytes that the read's operation on the
  file returned, and the result passed to the callback is their number, or the negated errno.
\<close>

theorem system_read_data:
  assumes "(sys_step bo exec)\<^sup>*\<^sup>* (sys_init sync mem f) s" and "length (cc_accepted (sy_client s)) < 2 ^ 64"
    and "\<not> sl_failed (cc_send (sy_client s))" and "\<not> sl_failed (cn_send (sy_server s))"
    and "Completed h res \<in> set (sy_trace s)" and "own_buffer h (cc_accepted (sy_client s))"
  shows "\<exists>q r m. Executed h q r \<in> set (sy_trace s) \<and> reply_of q r = Some m \<and> rs_res (fst m) = res
    \<and> take (length (snd m)) (cl_mem (cc_client (sy_client s)) (pd_buf (snd (cc_accepted (sy_client s) ! h)))) = snd m"
proof -
  have "good s" using assms(2-4) by (simp add: good_def)
  with sys_invD(8) [OF sys_reachable_inv [OF assms(1)]] assms(5,6) show ?thesis
    by (simp add: mem_inv_def completed_iff)
qed

theorem system_read_data_witness:
  "\<exists>s. sample_step\<^sup>*\<^sup>* (sys_init False (\<lambda>_. [0, 0, 0]) ()) s
     \<and> take 2 (cl_mem (cc_client (sy_client s)) 8) = [5, 6]"
proof -
  from sample_completed obtain c where r: "sample_step\<^sup>*\<^sup>* (sys_init False (\<lambda>_. [0, 0, 0]) ())
     (sample_sys (sample_cc c 25) (sample_server Responding (sample_serial 18)) 25 18 (sample_trace @ [Completed 0 2]))"
     (is "sample_step\<^sup>*\<^sup>* _ ?s") by blast
  have "Completed 0 2 \<in> set (sy_trace ?s)" "own_buffer 0 (cc_accepted (sy_client ?s))"
    by (simp_all add: sample_defs own_buffer_def sample_pending_def)
  from system_read_data [OF r _ _ _ this] have "take (length [5 :: byte, 6]) (cl_mem (cc_client (sy_client ?s)) 8) = [5, 6]"
    by (auto simp: sample_defs sample_pending_def)
  then have "take 2 (cl_mem (cc_client (sy_client ?s)) 8) = [5, 6]"
    by (simp add: numeral_2_eq_2)
  with r show ?thesis by blast
qed

end
