(* ===== verification/Cluster.thy ===== *)
theory Cluster
  imports System
begin

text \<open>
  Many clients: the server accepts any number of connections and serves them from its worker
  threads, with nothing in common but the backing file. Each connection with its client is a
  \<open>sys\<close> of \<open>System\<close>; a step of the whole is a step of one of them on the shared file,
  or a new connection. The global trace tags every event with its connection.
\<close>

subsection \<open>State and steps\<close>

type_synonym conn_id = nat

record ('u, 'f) cluster =
  ct_nodes :: "conn_id \<rightharpoonup> ('u, 'f) sys"
  ct_file :: 'f
  ct_trace :: "(conn_id \<times> ev) list"

definition ct_init :: "'f \<Rightarrow> ('u, 'f) cluster" where
  "ct_init f = \<lparr>ct_nodes = Map.empty, ct_file = f, ct_trace = []\<rparr>"

text \<open>A connection is accepted; its client has its own memory and its own \<open>sync_writes\<close>.\<close>

definition ct_connect :: "conn_id \<Rightarrow> bool \<Rightarrow> (nat \<Rightarrow> byte list) \<Rightarrow> ('u, 'f) cluster \<Rightarrow> ('u, 'f) cluster" where
  "ct_connect i sync mem c = c\<lparr>ct_nodes := (ct_nodes c)(i \<mapsto> sys_init sync mem (ct_file c))\<rparr>"

text \<open>Connection \<open>i\<close>, which sees the shared file, goes to \<open>s'\<close>.\<close>

definition new_events :: "('u, 'f) sys \<Rightarrow> ('u, 'f) sys \<Rightarrow> ev list" where
  "new_events s s' = drop (length (sy_trace s)) (sy_trace s')"

definition ct_move :: "conn_id \<Rightarrow> ('u, 'f) sys \<Rightarrow> ('u, 'f) sys \<Rightarrow> ('u, 'f) cluster \<Rightarrow> ('u, 'f) cluster" where
  "ct_move i s s' c =
     c\<lparr>ct_nodes := (ct_nodes c)(i \<mapsto> s'), ct_file := sy_file s',
       ct_trace := ct_trace c @ map (Pair i) (new_events s s')\<rparr>"

inductive ct_step ::
  "byte_order \<Rightarrow> (request \<Rightarrow> 'f \<Rightarrow> io_result \<Rightarrow> 'f \<Rightarrow> bool) \<Rightarrow> ('u, 'f) cluster \<Rightarrow> ('u, 'f) cluster \<Rightarrow> bool"
  for bo :: byte_order and exec :: "request \<Rightarrow> 'f \<Rightarrow> io_result \<Rightarrow> 'f \<Rightarrow> bool" where
  ct_accept: "ct_nodes c i = None \<Longrightarrow> ct_step bo exec c (ct_connect i sync mem c)"
| ct_node: "ct_nodes c i = Some s \<Longrightarrow> sys_step bo exec (s\<lparr>sy_file := ct_file c\<rparr>) s' \<Longrightarrow>
    ct_step bo exec c (ct_move i s s' c)"

subsection \<open>Events\<close>

lemma new_events_append: "sy_trace s' = sy_trace s @ es \<Longrightarrow> new_events s s' = es"
  by (simp add: new_events_def)

lemma executions_issued: "executions (map (\<lambda>i. Issued i (f i)) is) = []"
  by (induction "is") (simp_all add: executions_def)

lemma executions_Cons:
  "executions (Issued i q # tr) = executions tr" "executions (Completed i res # tr) = executions tr"
  "executions (Executed i q r # tr) = (q, r) # executions tr"
  by (simp_all add: executions_def)

lemma file_run_append:
  "file_run exec f (xs @ ys) g \<longleftrightarrow> (\<exists>h. file_run exec f xs h \<and> file_run exec h ys g)"
  by (induction exec f xs g rule: file_run.induct) auto

text \<open>A step adds events, and changes the file by those among them that are operations on it.\<close>

lemma sys_step_events:
  "sys_step bo exec s s' \<Longrightarrow> sy_trace s' = sy_trace s @ new_events s s'
     \<and> file_run exec (sy_file s) (executions (new_events s s')) (sy_file s')"
  by (induction rule: sys_step.induct)
    (simp_all add: new_events_def sys_call_def sys_spawn_def sys_execute_def sys_header_def sys_body_def
      executions_issued)

lemma sys_steps_events:
  "(sys_step bo exec)\<^sup>*\<^sup>* s s' \<Longrightarrow> sy_trace s' = sy_trace s @ new_events s s'"
proof (induction rule: rtranclp_induct)
  case (step s' s'')
  have "sy_trace s'' = sy_trace s @ (new_events s s' @ new_events s' s'')"
    using step.IH sys_step_events [OF step.hyps(2)] by simp
  then show ?case using new_events_append by metis
qed (simp add: new_events_def)

lemma new_events_trans:
  assumes "sy_trace s' = sy_trace s @ new_events s s'" and "sy_trace s'' = sy_trace s' @ new_events s' s''"
  shows "new_events s s'' = new_events s s' @ new_events s' s''"
  by (rule new_events_append) (use assms in simp)

subsection \<open>A connection on another file\<close>

text \<open>
  A connection knows the file by the results of its operations only: a run of it is possible
  on any file, of any type, on which its operations can have these results.
\<close>

definition on_file :: "'g \<Rightarrow> ('u, 'f) sys \<Rightarrow> ('u, 'g) sys" where
  "on_file g s = \<lparr>sy_client = sy_client s, sy_server = sy_server s, sy_read = sy_read s, sy_got = sy_got s,
     sy_file = g, sy_trace = sy_trace s\<rparr>"

lemma on_file_sel [simp]:
  "sy_client (on_file g s) = sy_client s" "sy_server (on_file g s) = sy_server s" "sy_read (on_file g s) = sy_read s"
  "sy_got (on_file g s) = sy_got s" "sy_file (on_file g s) = g" "sy_trace (on_file g s) = sy_trace s"
  by (simp_all add: on_file_def)

lemma on_file_same: "on_file g s = s\<lparr>sy_file := g\<rparr>"
  by (simp add: on_file_def)

lemma on_file_update:
  "on_file g (s\<lparr>sy_server := c\<rparr>) = (on_file g s)\<lparr>sy_server := c\<rparr>"
  "on_file g (s\<lparr>sy_client := d\<rparr>) = (on_file g s)\<lparr>sy_client := d\<rparr>"
  "on_file g (sys_call d s) = sys_call d (on_file g s)"
  "on_file g (sys_spawn q rest s) = sys_spawn q rest (on_file g s)"
  "on_file g (sys_execute h q r f s) = sys_execute h q r g (on_file g' s)"
  "on_file g (sys_header resp rest s) = sys_header resp rest (on_file g s)"
  "on_file g (sys_body cid res data rest s) = sys_body cid res data rest (on_file g s)"
  by (simp_all add: on_file_def sys_call_def sys_spawn_def sys_execute_def sys_header_def sys_body_def)

lemma new_operations:
  "executions (new_events s (s\<lparr>sy_server := c\<rparr>)) = []" "executions (new_events s (s\<lparr>sy_client := d\<rparr>)) = []"
  "executions (new_events s (sys_call d s)) = []" "executions (new_events s (sys_spawn q rest s)) = []"
  "executions (new_events s (sys_execute h q r f s)) = [(q, r)]"
  "executions (new_events s (sys_header resp rest s)) = []"
  "executions (new_events s (sys_body cid res data rest s)) = []"
  by (simp_all add: new_events_def sys_call_def sys_spawn_def sys_execute_def sys_header_def sys_body_def
      executions_issued)

lemmas on_file_simps = on_file_update(1-4,6,7) new_operations

lemma sys_step_on_file:
  assumes "sys_step bo exec s s'" and "file_run exec' g (executions (new_events s s')) g'"
  shows "sys_step bo exec' (on_file g s) (on_file g' s')"
  using assms
proof (induction rule: sys_step.induct)
  case (pread s buf sz off u)
  then show ?case
    using sys_step.pread [of bo exec' "on_file g s" buf sz off u] by (simp add: on_file_simps)
next
  case (pwrite s data off u)
  then show ?case
    using sys_step.pwrite [of bo exec' "on_file g s" data off u] by (simp add: on_file_simps)
next
  case (respond s h q r msg)
  then show ?case
    using sys_step.respond [of "on_file g s" h q r bo msg exec'] by (simp add: on_file_simps)
next
  case (client_take s k msg j n)
  then show ?case
    using sys_step.client_take [of "on_file g s" k msg j n bo exec'] by (simp add: on_file_simps)
next
  case (client_sent s k msg)
  then show ?case
    using sys_step.client_sent [of "on_file g s" k msg bo exec'] by (simp add: on_file_simps)
next
  case (client_fail s k msg j)
  then show ?case
    using sys_step.client_fail [of "on_file g s" k msg j bo exec'] by (simp add: on_file_simps)
next
  case (server_stop s)
  then show ?case
    using sys_step.server_stop [of "on_file g s" bo exec'] by (simp add: on_file_simps)
next
  case (respond_error s h cid e)
  then show ?case
    using sys_step.respond_error [of "on_file g s" h cid e bo exec'] by (simp add: on_file_simps)
next
  case (handler_throws s h q r)
  then show ?case
    using sys_step.handler_throws [of "on_file g s" h q r bo exec'] by (simp add: on_file_simps)
next
  case (no_buffer s h cid off sz)
  then show ?case
    using sys_step.no_buffer [of "on_file g s" h cid off sz bo exec'] by (simp add: on_file_simps)
next
  case (server_send s h msg k n)
  then show ?case
    using sys_step.server_send [of "on_file g s" h msg k n bo exec'] by (simp add: on_file_simps)
next
  case (server_sent s h msg)
  then show ?case
    using sys_step.server_sent [of "on_file g s" h msg bo exec'] by (simp add: on_file_simps)
next
  case (server_fail s h msg k)
  then show ?case
    using sys_step.server_fail [of "on_file g s" h msg k bo exec'] by (simp add: on_file_simps)
next
  case (finish s h)
  then show ?case
    using sys_step.finish [of "on_file g s" h bo exec'] by (simp add: on_file_simps)
next
  case (client_stop s)
  then show ?case
    using sys_step.client_stop [of "on_file g s" bo exec'] by (simp add: on_file_simps)
next
  case (header s hdr rest)
  then show ?case
    using sys_step.header [of "on_file g s" hdr rest bo exec'] by (simp add: on_file_simps)
next
  case (body s cid p res data rest)
  then show ?case
    using sys_step.body [of "on_file g s" cid p res data rest bo exec'] by (simp add: on_file_simps)
next
  case (spawn s alloc q rest)
  then show ?case
    using sys_step.spawn [of "on_file g s" bo alloc q rest exec'] by (simp add: on_file_simps)
next
  case (execute s h q r f)
  then show ?case
    using sys_step.execute [of "on_file g s" h q exec' r g' bo] by (simp add: on_file_simps on_file_update(5) [where g' = g])
qed

lemma sys_steps_on_file:
  assumes "(sys_step bo exec)\<^sup>*\<^sup>* s s'" and "file_run exec' g (executions (new_events s s')) g'"
  shows "(sys_step bo exec')\<^sup>*\<^sup>* (on_file g s) (on_file g' s')"
  using assms
proof (induction arbitrary: g' rule: rtranclp_induct)
  case base
  then show ?case by (simp add: new_events_def)
next
  case (step s' s'')
  have "new_events s s'' = new_events s s' @ new_events s' s''"
    by (rule new_events_trans [OF sys_steps_events [OF step(1)] conjunct1 [OF sys_step_events [OF step(2)]]])
  with step.prems obtain h where "file_run exec' g (executions (new_events s s')) h"
    "file_run exec' h (executions (new_events s' s'')) g'"
    by (auto simp: file_run_append)
  with step.IH sys_step_on_file [OF step(2)] show ?case by (meson rtranclp.rtrancl_into_rtrancl)
qed

text \<open>Alone, on a file where any result is possible.\<close>

abbreviation any_exec :: "request \<Rightarrow> 'f \<Rightarrow> io_result \<Rightarrow> 'f \<Rightarrow> bool" where
  "any_exec \<equiv> \<lambda>_ _ _ _. True"

lemma file_run_any: "file_run any_exec f ops f"
  by (induction ops) auto

lemma sys_step_any_file:
  "sys_step bo exec s s' \<Longrightarrow> sys_step bo any_exec (s\<lparr>sy_file := g\<rparr>) (s'\<lparr>sy_file := g\<rparr>)"
  unfolding on_file_same [symmetric] by (erule sys_step_on_file) (rule file_run_any)

subsection \<open>The invariant\<close>

definition of_conn :: "conn_id \<Rightarrow> (conn_id \<times> ev) list \<Rightarrow> ev list" where
  "of_conn i tr = map snd (filter (\<lambda>x. fst x = i) tr)"

lemma of_conn_simps [simp]:
  "of_conn i [] = []" "of_conn i (x # xs) = (if fst x = i then [snd x] else []) @ of_conn i xs"
  "of_conn i (xs @ ys) = of_conn i xs @ of_conn i ys"
  "of_conn i (map (Pair j) es) = (if i = j then es else [])"
  by (simp_all add: of_conn_def filter_map o_def)

lemma of_conn_set: "e \<in> set (of_conn i tr) \<longleftrightarrow> (i, e) \<in> set tr"
  by (force simp: of_conn_def)

text \<open>Whatever the file, a connection's state is one it reaches alone.\<close>

definition node_run :: "byte_order \<Rightarrow> ('u, 'f) sys \<Rightarrow> bool" where
  "node_run bo s \<longleftrightarrow>
     (\<exists>sync mem. \<forall>g. (sys_step bo any_exec)\<^sup>*\<^sup>* (sys_init sync mem g) (s\<lparr>sy_file := g\<rparr>))"

definition node_ok :: "byte_order \<Rightarrow> (conn_id \<times> ev) list \<Rightarrow> conn_id \<Rightarrow> ('u, 'f) sys option \<Rightarrow> bool" where
  "node_ok bo tr i n \<longleftrightarrow>
     (case n of None \<Rightarrow> of_conn i tr = [] | Some s \<Rightarrow> sy_trace s = of_conn i tr \<and> node_run bo s)"

definition ct_inv :: "byte_order \<Rightarrow> (request \<Rightarrow> 'f \<Rightarrow> io_result \<Rightarrow> 'f \<Rightarrow> bool) \<Rightarrow> 'f \<Rightarrow> ('u, 'f) cluster \<Rightarrow> bool" where
  "ct_inv bo exec f c \<longleftrightarrow> file_run exec f (executions (map snd (ct_trace c))) (ct_file c)
     \<and> (\<forall>i. node_ok bo (ct_trace c) i (ct_nodes c i))"

lemma node_run_init: "node_run bo (sys_init sync mem f)"
  unfolding node_run_def by (intro exI [of _ sync] exI [of _ mem]) (simp add: sys_init_def)

lemma node_run_step:
  assumes "node_run bo s" and "sys_step bo exec (s\<lparr>sy_file := f\<rparr>) s'"
  shows "node_run bo s'"
proof -
  have "sys_step bo any_exec (s\<lparr>sy_file := g\<rparr>) (s'\<lparr>sy_file := g\<rparr>)" for g
    using sys_step_any_file [OF assms(2), of g] by simp
  with assms(1) show ?thesis unfolding node_run_def by (meson rtranclp.rtrancl_into_rtrancl)
qed

lemma ct_step_inv:
  assumes "ct_step bo exec c c'" and "ct_inv bo exec f c"
  shows "ct_inv bo exec f c'"
  using assms(1)
proof (cases rule: ct_step.cases)
  case (ct_accept i sync mem)
  have nodes: "node_ok bo (ct_trace c) j (ct_nodes c j)" for j using assms(2) by (simp add: ct_inv_def)
  have "sy_trace (sys_init sync mem (ct_file c)) = []" by (simp add: sys_init_def)
  with nodes [of i] ct_accept(2) have "node_ok bo (ct_trace c) i (Some (sys_init sync mem (ct_file c)))"
    by (simp add: node_ok_def node_run_init)
  with nodes assms(2) show ?thesis by (simp add: ct_inv_def ct_accept(1) ct_connect_def)
next
  case (ct_node i s s')
  note ev = sys_step_events [OF ct_node(3)]
  have nodes: "node_ok bo (ct_trace c) j (ct_nodes c j)" for j using assms(2) by (simp add: ct_inv_def)
  have s: "sy_trace s = of_conn i (ct_trace c)" "node_run bo s"
    using nodes [of i] ct_node(2) by (simp_all add: node_ok_def)
  have e: "new_events (s\<lparr>sy_file := ct_file c\<rparr>) s' = new_events s s'" by (simp add: new_events_def)
  have "file_run exec f (executions (map snd (ct_trace c'))) (ct_file c')"
    using assms(2) ev by (auto simp: ct_node(1) ct_move_def ct_inv_def e file_run_append o_def)
  moreover have "node_ok bo (ct_trace c') i (Some s')"
    using ev s(1) node_run_step [OF s(2) ct_node(3)] by (simp add: node_ok_def ct_node(1) ct_move_def e)
  moreover have "node_ok bo (ct_trace c') j (ct_nodes c j)" if "j \<noteq> i" for j
    using nodes [of j] that by (simp add: node_ok_def ct_node(1) ct_move_def split: option.splits)
  ultimately show ?thesis by (simp add: ct_inv_def ct_node(1) ct_move_def)
qed

lemma ct_reachable_inv:
  assumes "(ct_step bo exec)\<^sup>*\<^sup>* (ct_init f) c"
  shows "ct_inv bo exec f c"
  using assms
proof (induction rule: rtranclp_induct)
  case base
  show ?case by (simp add: ct_inv_def ct_init_def node_ok_def)
next
  case (step c c')
  then show ?case by (blast intro: ct_step_inv)
qed

text \<open>What holds of a connection alone holds of it among others.\<close>

lemma node_inv:
  assumes "ct_inv bo exec f c" and "ct_nodes c i = Some s" and "good s"
  shows "sys_inv bo any_exec g (s\<lparr>sy_file := g\<rparr>)" and "sy_trace s = of_conn i (ct_trace c)"
proof -
  have s: "sy_trace s = of_conn i (ct_trace c)" "node_run bo s"
    using assms(1,2) by (simp_all add: ct_inv_def node_ok_def spec [of _ i] split: option.splits)
  then show "sy_trace s = of_conn i (ct_trace c)" by simp
  have "good (s\<lparr>sy_file := g\<rparr>)" using assms(3) by (simp add: good_def)
  moreover from s(2) obtain sync mem where "(sys_step bo any_exec)\<^sup>*\<^sup>* (sys_init sync mem g) (s\<lparr>sy_file := g\<rparr>)"
    unfolding node_run_def by blast
  ultimately show "sys_inv bo any_exec g (s\<lparr>sy_file := g\<rparr>)" by (intro sys_reachable_inv)
qed

subsection \<open>The order of events\<close>

lemma linear_trace_ok: "linear_trace (xs @ e # ys) \<Longrightarrow> ev_ok xs e"
  unfolding linear_trace_def by (auto dest: spec [of _ "length xs"])

text \<open>A request's operation takes effect after the request is issued.\<close>

lemma linear_trace_executed_after:
  assumes "linear_trace (xs @ Issued k q # ys)" and "Executed k q' r \<in> set (xs @ Issued k q # ys)"
  shows "q' = q \<and> Executed k q' r \<in> set ys \<and> Executed k q' r \<notin> set xs"
proof -
  let ?tr = "xs @ Issued k q # ys"
  have once: "z = Issued k q \<longrightarrow> z \<notin> set xs" "Issued k q'' \<in> set ?tr \<longrightarrow> q'' = q" for z q''
    using assms(1) by (force simp: linear_trace_def)+
  obtain as bs where s: "?tr = as @ Executed k q' r # bs" using split_list [OF assms(2)] by blast
  have i: "Issued k q' \<in> set as" using linear_trace_ok assms(1) unfolding s by force
  then have q: "q' = q" using once(2) [of q'] unfolding s by simp
  have n: "Executed k q' r \<notin> set xs"
  proof
    assume "Executed k q' r \<in> set xs"
    then obtain cs ds where xs: "xs = cs @ Executed k q' r # ds" using split_list by fastforce
    from linear_trace_ok [of cs "Executed k q' r" "ds @ Issued k q # ys"] assms(1)
    have "Issued k q' \<in> set cs" by (simp add: xs)
    with once(1) q xs show False by auto
  qed
  with assms(2) q n show ?thesis by auto
qed

text \<open>The same for a connection among others.\<close>

lemma executed_before:
  assumes "ct_inv bo exec f c" and "ct_nodes c i = Some s" and "good s"
    and "ct_trace c = xs @ (i, Completed h res) # ys"
  shows "\<exists>q r m. (i, Executed h q r) \<in> set xs \<and> reply_of q r = Some m \<and> rs_res (fst m) = res"
proof -
  note n = node_inv [OF assms(1-3)]
  have "linear_trace (of_conn i (ct_trace c))"
    using sys_invD(4) [OF n(1)] by (simp add: trace_inv_def n(2))
  then have "ev_ok (of_conn i xs) (Completed h res)"
    by (intro linear_trace_ok [of _ _ "of_conn i ys"]) (simp add: assms(4))
  then show ?thesis by (auto simp: of_conn_set)
qed

lemma executed_after:
  assumes "ct_inv bo exec f c" and "ct_nodes c j = Some t" and "good t"
    and "ct_trace c = xs @ (j, Issued k q) # zs" and "(j, Executed k q' r) \<in> set (ct_trace c)"
  shows "q' = q \<and> (j, Executed k q' r) \<in> set zs \<and> (j, Executed k q' r) \<notin> set xs"
proof -
  note n = node_inv [OF assms(1-3)]
  have "linear_trace (of_conn j (ct_trace c))"
    using sys_invD(4) [OF n(1)] by (simp add: trace_inv_def n(2))
  then have t: "linear_trace (of_conn j xs @ Issued k q # of_conn j zs)" by (simp add: assms(4))
  have "Executed k q' r \<in> set (of_conn j (ct_trace c))" using assms(5) by (simp add: of_conn_set)
  then have e: "Executed k q' r \<in> set (of_conn j xs @ Issued k q # of_conn j zs)" by (simp add: assms(4))
  from linear_trace_executed_after [OF t e] show ?thesis unfolding of_conn_set .
qed

subsection \<open>Running one connection\<close>

lemma ct_move_refl: "ct_nodes c i = Some s \<Longrightarrow> sy_file s = ct_file c \<Longrightarrow> ct_move i s s c = c"
  by (simp add: ct_move_def new_events_def fun_upd_idem)

lemma ct_move_trans:
  assumes "sy_trace s' = sy_trace s @ new_events s s'" and "sy_trace s'' = sy_trace s' @ new_events s' s''"
  shows "ct_move i s' s'' (ct_move i s s' c) = ct_move i s s'' c"
  using new_events_trans [OF assms] by (simp add: ct_move_def)

lemma ct_node_steps:
  assumes "(sys_step bo exec)\<^sup>*\<^sup>* s s'" and "ct_nodes c i = Some s" and "sy_file s = ct_file c"
  shows "(ct_step bo exec)\<^sup>*\<^sup>* c (ct_move i s s' c)"
  using assms(1)
proof (induction rule: rtranclp_induct)
  case base
  then show ?case using assms(2,3) by (simp add: ct_move_refl)
next
  case (step s' s'')
  have "ct_step bo exec (ct_move i s s' c) (ct_move i s' s'' (ct_move i s s' c))"
    by (rule ct_node) (use step.hyps(2) in \<open>simp_all add: ct_move_def\<close>)
  with step.IH show ?case
    using ct_move_trans [OF sys_steps_events [OF step.hyps(1)] conjunct1 [OF sys_step_events [OF step.hyps(2)]], of i c]
    by simp
qed

text \<open>One client runs first, and then another, on the file that the first left.\<close>

lemma two_clients_run:
  assumes "(sys_step bo exec)\<^sup>*\<^sup>* (sys_init sync mem f) s" and "(sys_step bo exec)\<^sup>*\<^sup>* (sys_init sync' mem' (sy_file s)) t"
  obtains c where "(ct_step bo exec)\<^sup>*\<^sup>* (ct_init f) c" and "ct_nodes c 0 = Some s" and "ct_nodes c 1 = Some t"
    and "ct_trace c = map (Pair 0) (sy_trace s) @ map (Pair 1) (sy_trace t)"
proof -
  let ?c1 = "ct_connect 0 sync mem (ct_init f)"
  let ?c2 = "ct_move 0 (sys_init sync mem f) s ?c1"
  let ?c3 = "ct_connect 1 sync' mem' ?c2"
  let ?c4 = "ct_move 1 (sys_init sync' mem' (sy_file s)) t ?c3"
  have 1: "(ct_step bo exec)\<^sup>*\<^sup>* (ct_init f) ?c1"
    by (rule r_into_rtranclp, rule ct_accept) (simp add: ct_init_def)
  have 2: "(ct_step bo exec)\<^sup>*\<^sup>* ?c1 ?c2"
    by (rule ct_node_steps [OF assms(1)]) (simp_all add: ct_connect_def ct_init_def sys_init_def)
  have 3: "(ct_step bo exec)\<^sup>*\<^sup>* ?c2 ?c3"
    by (rule r_into_rtranclp, rule ct_accept) (simp add: ct_move_def ct_connect_def ct_init_def)
  have 4: "(ct_step bo exec)\<^sup>*\<^sup>* ?c3 ?c4"
    by (rule ct_node_steps [OF assms(2)]) (simp_all add: ct_connect_def ct_move_def sys_init_def)
  show thesis
    by (rule that [OF rtranclp_trans [OF rtranclp_trans [OF rtranclp_trans [OF 1 2] 3] 4]])
      (simp_all add: ct_move_def ct_connect_def ct_init_def new_events_def sys_init_def)
qed

subsection \<open>Properties\<close>

text \<open>
  C16. Many clients see one file: under every interleaving of any number of connections, the
  file is what the operations of all of them make of it, in the one order in which they took
  effect; each connection's part of the history is linearizable; and the order respects real
  time across connections: when one client's callback is called before another client issues a
  request, the operation reported by the first took effect before the second's does. (For
  connections on which no send failed and fewer than \<open>2 ^ 64\<close> requests were made.)
\<close>

theorem clients_linearizable:
  assumes "(ct_step bo exec)\<^sup>*\<^sup>* (ct_init f) c"
    and "ct_nodes c i = Some s" and "good s" and "ct_nodes c j = Some t" and "good t"
    and "ct_trace c = xs @ (i, Completed h res) # ys @ (j, Issued k q) # zs"
  shows "file_run exec f (executions (map snd (ct_trace c))) (ct_file c)
    \<and> linear_trace (of_conn i (ct_trace c)) \<and> sy_trace s = of_conn i (ct_trace c)
    \<and> (\<exists>q r m. (i, Executed h q r) \<in> set xs \<and> reply_of q r = Some m \<and> rs_res (fst m) = res)
    \<and> ((j, Executed k q' r') \<in> set (ct_trace c) \<longrightarrow> q' = q \<and> (j, Executed k q' r') \<in> set zs)"
proof -
  note inv = ct_reachable_inv [OF assms(1)]
  note n = node_inv [OF inv assms(2,3)]
  have l: "linear_trace (of_conn i (ct_trace c))"
    using sys_invD(4) [OF n(1)] by (simp add: trace_inv_def n(2))
  have f: "file_run exec f (executions (map snd (ct_trace c))) (ct_file c)"
    using inv by (simp add: ct_inv_def)
  have "ct_trace c = (xs @ (i, Completed h res) # ys) @ (j, Issued k q) # zs" by (simp add: assms(6))
  note a = executed_after [OF inv assms(4,5) this]
  show ?thesis
    by (intro conjI impI l f n(2) executed_before [OF inv assms(2,3,6)] conjunct1 [OF a] conjunct1 [OF conjunct2 [OF a]])
qed

text \<open>Client 0 reads two bytes and has its callback; then client 1 issues a read.\<close>

lemma sample_cluster:
  "\<exists>(c :: (string, unit) cluster) s t. (ct_step Little_endian any_exec)\<^sup>*\<^sup>* (ct_init ()) c
     \<and> ct_nodes c 0 = Some s \<and> good s \<and> ct_nodes c 1 = Some t \<and> good t
     \<and> ct_trace c = map (Pair 0) sample_trace @ [(0, Completed 0 2), (1, Issued 0 (Read_req 1 512 512))]"
proof -
  from sample_completed obtain d where r: "sample_step\<^sup>*\<^sup>* (sys_init False (\<lambda>_. [0, 0, 0]) ())
     (sample_sys (sample_cc d 25) (sample_server Responding (sample_serial 18)) 25 18 (sample_trace @ [Completed 0 2]))"
     (is "sample_step\<^sup>*\<^sup>* ?i ?s") by blast
  let ?t = "sample_sys (sample_cc (sample_cl {}) 25) (sample_server (Io (Read_req 1 512 512)) serial_init) 25 0
        [Issued 0 (Read_req 1 512 512)]"
  have f: "sy_file ?s = ()" by simp
  have good: "good ?s" "good ?t" by (simp_all add: good_def sample_defs serial_init_def)
  have tr: "map (Pair (0 :: conn_id)) (sy_trace ?s) @ map (Pair 1) (sy_trace ?t)
      = map (Pair 0) sample_trace @ [(0, Completed 0 2), (1, Issued 0 (Read_req 1 512 512))]"
    by (simp add: sample_sys_def)
  from two_clients_run [OF r, unfolded f, OF sample_sending] obtain c :: "(string, unit) cluster"
    where "(ct_step Little_endian any_exec)\<^sup>*\<^sup>* (ct_init ()) c" "ct_nodes c 0 = Some ?s" "ct_nodes c 1 = Some ?t"
      "ct_trace c = map (Pair 0) (sy_trace ?s) @ map (Pair 1) (sy_trace ?t)" .
  then show ?thesis by (intro exI [of _ c] exI [of _ ?s] exI [of _ ?t] conjI good) (simp_all only: tr)
qed

theorem clients_linearizable_witness:
  "\<exists>c. (ct_step Little_endian any_exec)\<^sup>*\<^sup>* (ct_init ()) (c :: (string, unit) cluster)
     \<and> linear_trace (of_conn 0 (ct_trace c)) \<and> length (ct_trace c) = 4
     \<and> (\<exists>q r m. (0, Executed 0 q r) \<in> set (ct_trace c) \<and> reply_of q r = Some m \<and> rs_res (fst m) = 2)"
proof -
  from sample_cluster obtain c :: "(string, unit) cluster" and s t
    where c: "(ct_step Little_endian any_exec)\<^sup>*\<^sup>* (ct_init ()) c" "ct_nodes c 0 = Some s" "good s"
      "ct_nodes c 1 = Some t" "good t"
      "ct_trace c = map (Pair 0) sample_trace @ [(0, Completed 0 2), (1, Issued 0 (Read_req 1 512 512))]"
    by blast
  have "ct_trace c = map (Pair 0) sample_trace @ (0, Completed 0 2) # [] @ (1, Issued 0 (Read_req 1 512 512)) # []"
    using c(6) by simp
  note p = clients_linearizable [OF c(1-5) this]
  have "linear_trace (of_conn 0 (ct_trace c))" by (rule conjunct1 [OF conjunct2 [OF p]])
  moreover have "\<exists>q r m. (0, Executed 0 q r) \<in> set (map (Pair (0 :: conn_id)) sample_trace) \<and> reply_of q r = Some m
      \<and> rs_res (fst m) = 2"
    by (rule conjunct1 [OF conjunct2 [OF conjunct2 [OF conjunct2 [OF p]]]])
  moreover have "set (map (Pair (0 :: conn_id)) sample_trace) \<subseteq> set (ct_trace c)" "length (ct_trace c) = 4"
    by (simp_all add: c(6) sample_trace_def)
  ultimately show ?thesis by (intro exI [of _ c] conjI c(1)) blast+
qed

end
