(* ===== verification/Block_Device.thy ===== *)
theory Block_Device
  imports Cluster
begin

text \<open>
  What the clients are promised: a block device. The backing file is a list of bytes on which
  \<open>pread\<close> and \<open>pwrite\<close> act as POSIX says, short counts and errors included; a
  byte that was written is what a later read of it returns, whichever client reads it, unless
  another write to it comes between.
\<close>

subsection \<open>The file\<close>

text \<open>A write past the end leaves a hole of zeros; a write of nothing leaves the file as it is.\<close>

definition dev_write :: "nat \<Rightarrow> byte list \<Rightarrow> byte list \<Rightarrow> byte list" where
  "dev_write off data f =
     (if data = [] then f
      else take off f @ replicate (off - length f) 0 @ data @ drop (off + length data) f)"

fun covers :: "request \<Rightarrow> nat \<Rightarrow> bool" where
  "covers (Write_req cid off payload durable) p \<longleftrightarrow> unat off \<le> p \<and> p < unat off + length payload"
| "covers (Read_req cid off sz) p \<longleftrightarrow> False"
| "covers (Error_req cid e) p \<longleftrightarrow> False"

text \<open>
  The results an operation can have, and the file after it. A write that fails may have
  changed any part of its range.
\<close>

definition changed_within :: "request \<Rightarrow> byte list \<Rightarrow> byte list \<Rightarrow> bool" where
  "changed_within q f g \<longleftrightarrow> length f \<le> length g \<and> list_all (\<lambda>p. covers q p \<or> g ! p = f ! p) [0..<length f]"

fun dev_exec :: "request \<Rightarrow> byte list \<Rightarrow> io_result \<Rightarrow> byte list \<Rightarrow> bool" where
  "dev_exec (Write_req cid off payload durable) f (Io_ok n buf) g \<longleftrightarrow>
     n \<le> length payload \<and> g = dev_write (unat off) (take n payload) f"
| "dev_exec (Read_req cid off sz) f (Io_ok n buf) g \<longleftrightarrow>
     g = f \<and> n \<le> unat sz \<and> n \<le> length buf \<and> n \<le> length f - unat off
     \<and> take n buf = take n (drop (unat off) f)"
| "dev_exec (Error_req cid e) f (Io_ok n buf) g \<longleftrightarrow> False"
| "dev_exec q f (Io_throw x) g \<longleftrightarrow> changed_within q f g"

lemma dev_write_nth:
  "p < length f \<Longrightarrow> \<not> (off \<le> p \<and> p < off + length data) \<Longrightarrow>
   p < length (dev_write off data f) \<and> dev_write off data f ! p = f ! p"
  by (auto simp: dev_write_def nth_append)

lemma dev_write_nth_new:
  "off \<le> p \<Longrightarrow> p < off + length data \<Longrightarrow>
   p < length (dev_write off data f) \<and> dev_write off data f ! p = data ! (p - off)"
  by (auto simp: dev_write_def nth_append min_def)

text \<open>An operation keeps the bytes it does not cover; a write sets, and a read returns, those it does.\<close>

lemma dev_exec_keeps:
  assumes "dev_exec q f r g" and "\<not> covers q p" and "p < length f"
  shows "p < length g \<and> g ! p = f ! p"
  using assms dev_write_nth
  by (cases "(q, f, r, g)" rule: dev_exec.cases) (auto simp: changed_within_def list_all_iff)

lemma dev_exec_writes:
  assumes "dev_exec (Write_req cid off payload durable) f (Io_ok (length payload) buf) g"
    and "covers (Write_req cid off payload durable) p"
  shows "p < length g \<and> g ! p = payload ! (p - unat off)"
  using assms dev_write_nth_new by simp

lemma dev_exec_reads:
  assumes "dev_exec (Read_req cid off sz) f (Io_ok n buf) g" and "unat off \<le> p" and "p < unat off + n"
  shows "buf ! (p - unat off) = f ! p"
proof -
  let ?i = "p - unat off"
  from assms(1) have e: "take n buf = take n (drop (unat off) f)" "unat off + n \<le> length f \<or> n = 0"
    by auto
  have i: "?i < n" using assms(2,3) by simp
  then have "buf ! ?i = take n buf ! ?i" by simp
  also have "\<dots> = drop (unat off) f ! ?i" using i unfolding e(1) by simp
  also have "\<dots> = f ! p" using i e(2) assms(2) by (subst nth_drop) auto
  finally show ?thesis .
qed

text \<open>What operations that do not cover \<open>p\<close> keep, a run of such operations keeps.\<close>

lemma file_run_keeps:
  assumes "\<And>q f r g. exec q f r g \<Longrightarrow> \<not> covers q p \<Longrightarrow> P f \<Longrightarrow> P g" and "file_run exec f ops g"
    and "\<And>q r. (q, r) \<in> set ops \<Longrightarrow> \<not> covers q p" and "P f"
  shows "P g"
  using assms(2-4)
proof (induction ops arbitrary: f)
  case Nil
  then show ?case by simp
next
  case (Cons op ops)
  obtain q r where op: "op = (q, r)" by fastforce
  from Cons.prems(1) obtain f' where f': "exec q f r f'" "file_run exec f' ops g" unfolding op by auto
  have "P f'" by (rule assms(1) [OF f'(1) _ Cons.prems(3)]) (use Cons.prems(2) op in auto)
  with Cons.IH [OF f'(2)] Cons.prems(2) show ?case by auto
qed

subsection \<open>A write and a read of it\<close>

lemma executions_iff: "(q, r) \<in> set (executions tr) \<longleftrightarrow> (\<exists>h. Executed h q r \<in> set tr)"
proof (induction tr)
  case (Cons e tr)
  have "executions (e # tr) = executions [e] @ executions tr" using trace_append(2) [of "[e]" tr] by simp
  then have "(q, r) \<in> set (executions (e # tr)) \<longleftrightarrow> (q, r) \<in> set (executions [e]) \<or> (\<exists>h. Executed h q r \<in> set tr)"
    using Cons.IH by simp
  moreover have "(q, r) \<in> set (executions [e]) \<longleftrightarrow> (\<exists>h. e = Executed h q r)" by (cases e) auto
  ultimately show ?case by auto
qed simp

lemma executions_of_all: "(q, r) \<in> set (executions (map snd es)) \<longleftrightarrow> (\<exists>a h. (a, Executed h q r) \<in> set es)"
  by (force simp: executions_iff)

lemma linear_trace_once:
  assumes "linear_trace tr" and "Executed h q r \<in> set tr" and "Executed h q' r' \<in> set tr"
  shows "q' = q \<and> r' = r"
proof -
  have "inj_on ev_key (set tr)" using assms(1) by (simp add: linear_trace_def distinct_map)
  from inj_onD [OF this _ assms(2,3)] have "Executed h q r = Executed h q' r'" by simp
  then show ?thesis by simp
qed

text \<open>In the order of effect: a write that covers \<open>p\<close>, none that does, a read of \<open>p\<close>.\<close>

lemma effect_order:
  assumes "\<And>q f r g. exec q f r g \<Longrightarrow> dev_exec q f r g"
    and "file_run exec f (executions (map snd
      (as @ (i, Executed h (Write_req cid off payload durable) (Io_ok (length payload) wb)) # bs
        @ (j, Executed k (Read_req cid' off' sz) (Io_ok n buf)) # cs))) g"
    and "covers (Write_req cid off payload durable) p" and "unat off' \<le> p" and "p < unat off' + n"
    and "\<And>a h' q r. (a, Executed h' q r) \<in> set bs \<Longrightarrow> \<not> covers q p"
  shows "buf ! (p - unat off') = payload ! (p - unat off)"
proof -
  let ?w = "Write_req cid off payload durable" and ?r = "Read_req cid' off' sz"
  let ?bs = "map snd bs"
  have "executions (map snd (as @ (i, Executed h ?w (Io_ok (length payload) wb)) # bs
        @ (j, Executed k ?r (Io_ok n buf)) # cs))
      = executions (map snd as) @ (?w, Io_ok (length payload) wb) # executions ?bs
        @ (?r, Io_ok n buf) # executions (map snd cs)"
    by (simp add: executions_Cons)
  with assms(2) obtain f1 f2 f3 f4 where run: "exec ?w f1 (Io_ok (length payload) wb) f2"
    "file_run exec f2 (executions ?bs) f3" "exec ?r f3 (Io_ok n buf) f4"
    by (auto simp: file_run_append)
  from dev_exec_writes [OF assms(1) [OF run(1)] assms(3)]
  have w: "p < length f2" "f2 ! p = payload ! (p - unat off)" by simp_all
  have "\<not> covers q p" if "(q, r) \<in> set (executions ?bs)" for q r
    using that assms(6) by (auto simp: executions_of_all)
  moreover have "exec q f r g \<Longrightarrow> \<not> covers q p \<Longrightarrow> p < length f \<and> f ! p = payload ! (p - unat off) \<Longrightarrow>
      p < length g \<and> g ! p = payload ! (p - unat off)" for q f r g
    using dev_exec_keeps [OF assms(1)] by metis
  ultimately have "p < length f3 \<and> f3 ! p = payload ! (p - unat off)"
    using file_run_keeps [of exec p "\<lambda>f. p < length f \<and> f ! p = payload ! (p - unat off)", OF _ run(2)] w by metis
  with dev_exec_reads [OF assms(1) [OF run(3)] assms(4,5)] show ?thesis by simp
qed

text \<open>The operation of a completed request, in the trace of all.\<close>

lemma completed_operation:
  assumes "ct_inv bo exec f c" and "ct_nodes c i = Some s" and "good s"
    and "ct_trace c = xs @ (i, Issued h q) # ys @ (i, Completed h res) # zs"
  obtains r m as bs where "ys = as @ (i, Executed h q r) # bs" and "reply_of q r = Some m" and "rs_res (fst m) = res"
    and "\<And>q' r'. Executed h q' r' \<in> set (sy_trace s) \<Longrightarrow> q' = q \<and> r' = r"
    and "\<And>q' r'. (i, Executed h q' r') \<notin> set (bs @ zs)"
proof -
  note n = node_inv [OF assms(1-3)]
  have l: "linear_trace (of_conn i (ct_trace c))"
    using sys_invD(4) [OF n(1)] by (simp add: trace_inv_def n(2))
  have "ct_trace c = (xs @ (i, Issued h q) # ys) @ (i, Completed h res) # zs" by (simp add: assms(4))
  from executed_before [OF assms(1-3) this] obtain q' r m
    where e: "(i, Executed h q' r) \<in> set (xs @ (i, Issued h q) # ys)" "reply_of q' r = Some m" "rs_res (fst m) = res"
    by blast
  then have "(i, Executed h q' r) \<in> set (ct_trace c)" by (auto simp: assms(4))
  from executed_after [OF assms(1-4) this] have q: "q' = q" "(i, Executed h q' r) \<notin> set xs" by blast+
  with e(1) have "(i, Executed h q r) \<in> set ys" by auto
  then obtain as bs where ys: "ys = as @ (i, Executed h q r) # bs" by (meson split_list)
  have once: "q' = q \<and> r' = r" if "Executed h q' r' \<in> set (sy_trace s)" for q' r'
    by (rule linear_trace_once [OF l, of h]) (use that in \<open>simp_all add: n(2) assms(4) ys\<close>)
  have "(i, Executed h q' r') \<notin> set (bs @ zs)" for q' r'
  proof
    assume "(i, Executed h q' r') \<in> set (bs @ zs)"
    then have "Executed h q' r' \<in> set (of_conn i (bs @ zs))" by (simp only: of_conn_set)
    then have "ev_key (Executed h q r) \<in> ev_key ` set (of_conn i (bs @ zs))" by force
    moreover have "distinct (map ev_key (of_conn i (ct_trace c)))" using l by (simp add: linear_trace_def)
    ultimately show False by (auto simp: assms(4) ys)
  qed
  with once show thesis using that [OF ys _ e(3)] e(2) q(1) by simp
qed

lemma file_run_exec: "file_run exec f ops g \<Longrightarrow> (q, r) \<in> set ops \<Longrightarrow> \<exists>f g. exec q f r g"
proof (induction ops arbitrary: f)
  case (Cons op ops)
  obtain q' r' where op: "op = (q', r')" by fastforce
  from Cons.prems(1) obtain f' where f': "exec q' f r' f'" "file_run exec f' ops g" unfolding op by auto
  show ?case
  proof (cases "(q, r) = op")
    case True
    with f'(1) show ?thesis by (auto simp: op)
  next
    case False
    with Cons.prems(2) have "(q, r) \<in> set ops" by simp
    from Cons.IH [OF f'(2) this] show ?thesis .
  qed
qed simp

lemma executed_exec:
  assumes "ct_inv bo exec f c" and "(i, Executed h q r) \<in> set (ct_trace c)"
  shows "\<exists>f g. exec q f r g"
proof -
  have "Executed h q r \<in> set (map snd (ct_trace c))" using assms(2) by force
  then have e: "(q, r) \<in> set (executions (map snd (ct_trace c)))" by (auto simp: executions_iff)
  have "file_run exec f (executions (map snd (ct_trace c))) (ct_file c)" using assms(1) by (simp add: ct_inv_def)
  from file_run_exec [OF this e] show ?thesis .
qed

lemma executed_payload:
  assumes "sys_inv bo exec f s" and "Executed h (Write_req cid off payload durable) r \<in> set (sy_trace s)"
  shows "length payload < 2 ^ 63"
proof -
  note x = executed_request [OF assms]
  have "request_ok (acc s ! h)"
    using cc_invD [OF sys_invD(1) [OF assms(1)]] x(2) by (simp add: list_all_length)
  with x(3) have "payload = snd (fst (acc s ! h))" "length payload = unat (rq_size (fst (fst (acc s ! h))))"
    "rq_size (fst (fst (acc s ! h))) \<le> EASYBD_MAX_PAYLOAD_SIZE"
    by (auto simp: request_ok_def message_ok_def message_request_def request_payload_len_def Let_def split: if_splits)
  then show ?thesis using max_payload_nat by (simp add: word_le_nat_alt)
qed

text \<open>A write reported as complete wrote all of its payload; a read gives as many bytes as its result says.\<close>

lemma write_complete:
  assumes "reply_of (Write_req cid off payload durable) r = Some m" and "rs_res (fst m) = of_nat (length payload)"
    and "result_ok (Write_req cid off payload durable) r" and "\<And>n buf. r = Io_ok n buf \<Longrightarrow> n \<le> length payload"
    and "length payload < 2 ^ 63" and "payload \<noteq> []"
  obtains buf where "r = Io_ok (length payload) buf"
proof (cases r)
  case (Io_ok n buf)
  with assms(1,2) have "(of_nat n :: i64) = of_nat (length payload)" by auto
  moreover have n: "n \<le> length payload" by (rule assms(4) [OF Io_ok])
  ultimately have "sint (of_nat n :: i64) = sint (of_nat (length payload) :: i64)" by simp
  with n assms(5) have "n = length payload" by (simp add: sint_of_count)
  with Io_ok that show thesis by blast
next
  case (Io_throw x)
  then obtain e where "rs_res (fst m) = word_of_int (- e)" "0 \<le> e" "e < 2 ^ 63"
    using assms(1,3) by (cases x) auto
  then have "\<not> 0 < sint (rs_res (fst m))" using sint_of_errno by simp
  with assms(2,5,6) show thesis by (simp add: sint_of_count)
qed

lemma read_complete:
  assumes "reply_of (Read_req cid off sz) r = Some m" and "result_ok (Read_req cid off sz) r"
    and "0 < sint (rs_res (fst m))"
  obtains n buf where "r = Io_ok n buf" and "snd m = take n buf" and "n \<le> length buf" and "nat (sint (rs_res (fst m))) = n"
proof (cases r)
  case (Io_ok n buf)
  with assms that show thesis by (auto simp: is_write_req_def sint_of_count)
next
  case (Io_throw x)
  then show thesis using assms sint_of_errno by (cases x) auto
qed

text \<open>The effect of a write reported as complete, and of a read that delivers data.\<close>

lemma completed_write:
  assumes "\<And>f n buf g. exec (Write_req cid off payload durable) f (Io_ok n buf) g \<Longrightarrow> n \<le> length payload"
    and "ct_inv bo exec f c" and "ct_nodes c i = Some s" and "good s" and "payload \<noteq> []"
    and "ct_trace c = xs @ (i, Issued h (Write_req cid off payload durable)) # ys
      @ (i, Completed h (of_nat (length payload))) # zs"
  obtains as bs wb
  where "ys = as @ (i, Executed h (Write_req cid off payload durable) (Io_ok (length payload) wb)) # bs"
    and "\<And>q r. (i, Executed h q r) \<notin> set (bs @ zs)"
proof -
  let ?w = "Write_req cid off payload durable"
  note n = node_inv [OF assms(2-4)]
  obtain r m as bs where w: "ys = as @ (i, Executed h ?w r) # bs" "reply_of ?w r = Some m"
    "rs_res (fst m) = of_nat (length payload)" "\<And>q r. (i, Executed h q r) \<notin> set (bs @ zs)"
    by (rule completed_operation [OF assms(2-4,6)]) (rule that; assumption)
  have e: "(i, Executed h ?w r) \<in> set (ct_trace c)" by (simp add: assms(6) w(1))
  then have s: "Executed h ?w r \<in> set (sy_trace s)" by (simp add: n(2) of_conn_set)
  have "n \<le> length payload" if "r = Io_ok n buf" for n buf
    using executed_exec [OF assms(2) e] assms(1) that by blast
  moreover have "result_ok ?w r" by (rule executed_request(6) [OF n(1), of h]) (simp add: s)
  moreover have "length payload < 2 ^ 63"
    by (rule executed_payload [OF n(1), of h cid off payload durable r]) (simp add: s)
  ultimately obtain wb where "r = Io_ok (length payload) wb" using write_complete [OF w(2,3)] assms(5) by blast
  with that w(1,4) show thesis by blast
qed

lemma completed_read:
  assumes "ct_inv bo exec f c" and "ct_nodes c j = Some t" and "good t" and "0 < sint res" and "own_buffer k (acc t)"
    and "ct_trace c = xs @ (j, Issued k (Read_req cid off sz)) # ys @ (j, Completed k res) # zs"
  obtains n buf as bs where "ys = as @ (j, Executed k (Read_req cid off sz) (Io_ok n buf)) # bs"
    and "nat (sint res) = n" and "\<And>i. i < n \<Longrightarrow> cl_mem (cl t) (pd_buf (snd (acc t ! k))) ! i = buf ! i"
proof -
  let ?r = "Read_req cid off sz" and ?mem = "cl_mem (cl t) (pd_buf (snd (acc t ! k)))"
  note n = node_inv [OF assms(1-3)]
  obtain r m as bs where r: "ys = as @ (j, Executed k ?r r) # bs" "reply_of ?r r = Some m" "rs_res (fst m) = res"
    "\<And>q r'. Executed k q r' \<in> set (sy_trace t) \<Longrightarrow> q = ?r \<and> r' = r"
    by (rule completed_operation [OF assms(1-3,6)]) (rule that; assumption)
  have "Executed k ?r r \<in> set (sy_trace t)" by (simp add: n(2) of_conn_set assms(6) r(1))
  then have ok: "result_ok ?r r" by (intro executed_request(6) [OF n(1), of k]) simp
  have "0 < sint (rs_res (fst m))" by (simp add: assms(4) r(3))
  from read_complete [OF r(2) ok this] obtain n buf
    where rb: "r = Io_ok n buf" "snd m = take n buf" "n \<le> length buf" "nat (sint res) = n"
    unfolding r(3) by blast
  have "mem_inv t" using sys_invD(8) [OF n(1)] by (simp add: mem_inv_def)
  moreover have "(k, res) \<in> set (completions (sy_trace t))"
    by (simp add: n(2) of_conn_set assms(6) flip: completed_iff)
  ultimately obtain q r' m' where m: "Executed k q r' \<in> set (sy_trace t)" "reply_of q r' = Some m'"
    "take (length (snd m')) ?mem = snd m'"
    using assms(5) unfolding mem_inv_def by blast
  from r(4) [OF m(1)] m(2) r(2) have "m' = m" by simp
  then have "take n ?mem = take n buf" using m(3) rb(2,3) by simp
  then have mem: "?mem ! i = buf ! i" if "i < n" for i
    using that by (metis nth_take)
  show thesis by (rule that [OF r(1) [unfolded rb(1)] rb(4) mem])
qed

subsection \<open>A complete run\<close>

text \<open>One client, with \<open>sync_writes\<close> or not, writes two bytes at offset 512.\<close>

definition wr_message :: "bool \<Rightarrow> EasyBDRequestHeader \<times> byte list" where
  "wr_message d =
     (\<lparr>rq_cid = 1, rq_offset = 512, rq_size = 2, rq_op = (if d then EASYBD_OP_WRITE_SYNC else EASYBD_OP_WRITE)\<rparr>, [5, 6])"

definition wr_pending :: "string pending" where
  "wr_pending = \<lparr>pd_is_read = False, pd_buf = 0, pd_user = ''w''\<rparr>"

definition wr_cl :: "bool \<Rightarrow> u64 set \<Rightarrow> string client" where
  "wr_cl d sn = \<lparr>cl_next_cid = 2, cl_pending = [(1, wr_pending)], cl_total_dispatched = 0, cl_sync_writes = d,
     cl_reader = At_header, cl_sending = sn, cl_mem = (\<lambda>_. [0, 0, 0]), cl_overflow = False, cl_issued = [''w''],
     cl_callbacks = []\<rparr>"

definition wr_cc :: "bool \<Rightarrow> string client \<Rightarrow> nat \<Rightarrow> string cconn" where
  "wr_cc d c j = \<lparr>cc_client = c,
     cc_send = \<lparr>sl_mutex = \<lparr>mx_locked = True, mx_waiters = []\<rparr>,
       sl_senders = [1 \<mapsto> Sending (message_bytes Little_endian (wr_message d)) j],
       sl_wire = take j (message_bytes Little_endian (wr_message d)), sl_failed = False,
       sl_entered = [(1, message_bytes Little_endian (wr_message d))], sl_log = [], sl_late = []\<rparr>,
     cc_accepted = [(wr_message d, wr_pending)]\<rparr>"

abbreviation wr_resp :: EasyBDResponseHeader where
  "wr_resp \<equiv> \<lparr>rs_cid = 1, rs_res = 2\<rparr>"

definition wr_server :: "bool \<Rightarrow> hphase \<Rightarrow> nat serial \<Rightarrow> conn" where
  "wr_server d p sr = \<lparr>cn_send = sr, cn_wg = \<lparr>wg_remaining = 1, wg_waiter = None\<rparr>, cn_handlers = [0 \<mapsto> p],
     cn_phase = Reading, cn_requests = [Write_req 1 512 [5, 6] d], cn_dropped = []\<rparr>"

definition wr_serial :: "nat \<Rightarrow> nat serial" where
  "wr_serial j = \<lparr>sl_mutex = \<lparr>mx_locked = True, mx_waiters = []\<rparr>,
     sl_senders = [0 \<mapsto> Sending (bytes_of_response Little_endian wr_resp) j],
     sl_wire = take j (bytes_of_response Little_endian wr_resp), sl_failed = False,
     sl_entered = [(0, bytes_of_response Little_endian wr_resp)], sl_log = [], sl_late = []\<rparr>"

definition wr_trace :: "bool \<Rightarrow> ev list" where
  "wr_trace d = [Issued 0 (Write_req 1 512 [5, 6] d), Executed 0 (Write_req 1 512 [5, 6] d) (Io_ok 2 [])]"

lemmas wr_defs = sample_sys_def wr_cc_def wr_cl_def wr_server_def wr_serial_def wr_trace_def

lemma wr_message:
  "message_request (wr_message d) = Write_req 1 512 [5, 6] d" "length (message_bytes Little_endian (wr_message d)) = 27"
  "message_ok (\<lambda>_. True) (wr_message d)" "rq_cid (fst (wr_message d)) = 1"
  "handler_message Little_endian (Write_req 1 512 [5, 6] d) (Io_ok 2 []) = Some (bytes_of_response Little_endian wr_resp)"
  by (simp_all add: message_request_def wr_message_def is_write_op_def EASYBD_OP_READ_def EASYBD_OP_WRITE_def
      EASYBD_OP_WRITE_SYNC_def EASYBD_MAX_PAYLOAD_SIZE_def message_bytes_def sizeof_EasyBDRequestHeader_def
      message_ok_def request_payload_len_def response_bytes_def sizeof_EasyBDResponseHeader_def
      handler_message_reply)

lemma wr_sending:
  "sample_step\<^sup>*\<^sup>* (sys_init d (\<lambda>_. [0, 0, 0]) ())
     (sample_sys (wr_cc d (wr_cl d {}) 27) (wr_server d (Io (Write_req 1 512 [5, 6] d)) serial_init) 27 0
        [Issued 0 (Write_req 1 512 [5, 6] d)])"
proof -
  let ?q = "Write_req 1 512 [5, 6] d" and ?m = "message_bytes Little_endian (wr_message d)"
  let ?i = "[Issued 0 ?q]"
  have 1: "sample_step (sys_init d (\<lambda>_. [0, 0, 0]) ()) (sample_sys (wr_cc d (wr_cl d {1}) 0) conn_init 0 0 ?i)"
    using pwrite [of Little_endian "\<lambda>_ _ _ _. True" "sys_init d (\<lambda>_. [0, 0, 0]) ()" "[5, 6]" 512 "''w''"]
    by (simp add: sys_call_def sys_init_def cc_pwrite_def client_pwrite_def client_issue_def cc_init_def client_init_def
        send_request_def sl_enter_def serial_init_def mutex_init_def lock_guard_def lock_await_ready_def
        EASYBD_MAX_PAYLOAD_SIZE_def wr_defs wr_pending_def wr_message(1,4) flip: wr_message_def)
  have 2: "sample_step (sample_sys (wr_cc d (wr_cl d {1}) 0) conn_init 0 0 ?i) (sample_sys (wr_cc d (wr_cl d {}) 27) conn_init 0 0 ?i)"
    using client_take [of "sample_sys (wr_cc d (wr_cl d {1}) 0) conn_init 0 0 ?i" 1 ?m 0 27] wr_message(2)
    by (simp add: wr_defs cc_take_def sl_send_def client_sent_def)
  have 3: "sample_step (sample_sys (wr_cc d (wr_cl d {}) 27) conn_init 0 0 ?i)
      (sample_sys (wr_cc d (wr_cl d {}) 27) (wr_server d (Io ?q) serial_init) 27 0 ?i)"
    using spawn [of "sample_sys (wr_cc d (wr_cl d {}) 27) conn_init 0 0 ?i" Little_endian "\<lambda>_. True" ?q "[]"]
      spec_turn_message [OF wr_message(3) [of d], of Little_endian "[]" None] wr_message(1,2)
    by (simp add: wr_defs sys_spawn_def conn_spawn_def conn_init_def wg_add_def wg_init_def)
  from 1 2 3 show ?thesis by (meson converse_rtranclp_into_rtranclp rtranclp.rtrancl_refl)
qed

lemma wr_completed:
  "sample_step\<^sup>*\<^sup>* (sys_init d (\<lambda>_. [0, 0, 0]) ())
     (sample_sys (wr_cc d (client_header wr_resp (wr_cl d {})) 27) (wr_server d Responding (wr_serial 16)) 27 16
       (wr_trace d @ [Completed 0 2]))"
proof -
  let ?q = "Write_req 1 512 [5, 6] d" and ?cc = "wr_cc d (wr_cl d {}) 27" and ?r = "bytes_of_response Little_endian wr_resp"
  let ?i = "[Issued 0 ?q]"
  have len: "length ?r = 16" by (simp add: sizeof_EasyBDResponseHeader_def)
  have 1: "sample_step (sample_sys ?cc (wr_server d (Io ?q) serial_init) 27 0 ?i)
      (sample_sys ?cc (wr_server d (Io ?q) serial_init) 27 0 (wr_trace d))"
    using execute [of "sample_sys ?cc (wr_server d (Io ?q) serial_init) 27 0 ?i" 0 ?q "\<lambda>_ _ _ _. True" "Io_ok 2 []" "()"
        Little_endian]
    by (simp add: wr_defs sys_execute_def is_write_req_def)
  have 2: "sample_step (sample_sys ?cc (wr_server d (Io ?q) serial_init) 27 0 (wr_trace d))
      (sample_sys ?cc (wr_server d Responding (wr_serial 0)) 27 0 (wr_trace d))"
    using respond [of "sample_sys ?cc (wr_server d (Io ?q) serial_init) 27 0 (wr_trace d)" 0 ?q "Io_ok 2 []"
        Little_endian ?r "\<lambda>_ _ _ _. True"] wr_message(5)
    by (simp add: wr_defs conn_respond_def sl_enter_def serial_init_def mutex_init_def lock_guard_def lock_await_ready_def)
  have 3: "sample_step (sample_sys ?cc (wr_server d Responding (wr_serial 0)) 27 0 (wr_trace d))
      (sample_sys ?cc (wr_server d Responding (wr_serial 16)) 27 0 (wr_trace d))"
    using server_send [of "sample_sys ?cc (wr_server d Responding (wr_serial 0)) 27 0 (wr_trace d)" 0 ?r 0 16
        Little_endian "\<lambda>_ _ _ _. True"] len
    by (simp add: wr_defs sl_send_def)
  have h: "spec_read sizeof_EasyBDResponseHeader ?r None = Some (Inr (?r, []))"
    by (simp add: spec_read_def)
  have 4: "sample_step (sample_sys ?cc (wr_server d Responding (wr_serial 16)) 27 0 (wr_trace d))
      (sample_sys (wr_cc d (client_header wr_resp (wr_cl d {})) 27) (wr_server d Responding (wr_serial 16)) 27 16
        (wr_trace d @ [Completed 0 2]))"
    using header [of "sample_sys ?cc (wr_server d Responding (wr_serial 16)) 27 0 (wr_trace d)" ?r "[]" Little_endian
        "\<lambda>_ _ _ _. True"] h len
    by (simp add: wr_defs sys_header_def completes_def wr_pending_def)
  from wr_sending 1 2 3 4 show ?thesis by (meson rtranclp.rtrancl_into_rtrancl)
qed

subsection \<open>Properties\<close>



end
