(* ===== verification/Durability.thy ===== *)
theory Durability
  imports Block_Device
begin

text \<open>
  What \<open>sync_writes\<close> is for: a client created with it sends \<open>EASYBD_OP_WRITE_SYNC\<close>,
  the server writes with \<open>RWF_DSYNC\<close>, and a write whose callback has been called is on
  stable storage. The file is its contents, as \<open>pread\<close> sees them, and what of them would
  survive a crash.
\<close>

subsection \<open>Contents and stable storage\<close>

type_synonym store = "byte list \<times> byte list"

text \<open>
  While an operation takes the contents from \<open>f\<close> to \<open>f'\<close> the kernel may write back any
  byte of either; stable storage goes from \<open>g\<close> to \<open>g'\<close>.
\<close>

definition written_back :: "byte list \<Rightarrow> byte list \<Rightarrow> byte list \<Rightarrow> byte list \<Rightarrow> bool" where
  "written_back f f' g g' \<longleftrightarrow> length g \<le> length g'
     \<and> list_all (\<lambda>p. p < length g \<and> g' ! p = g ! p \<or> p < length f \<and> g' ! p = f ! p \<or> p < length f' \<and> g' ! p = f' ! p)
         [0..<length g']"

text \<open>\<open>RWF_DSYNC\<close>: what the call reports as written is stable when it returns.\<close>

fun synced :: "request \<Rightarrow> io_result \<Rightarrow> byte list \<Rightarrow> byte list \<Rightarrow> bool" where
  "synced (Write_req cid off payload True) (Io_ok n buf) f' g' \<longleftrightarrow>
     list_all (\<lambda>p. p < length g' \<and> g' ! p = f' ! p) [unat off..<unat off + n]"
| "synced q r f' g' \<longleftrightarrow> True"

fun store_exec :: "request \<Rightarrow> store \<Rightarrow> io_result \<Rightarrow> store \<Rightarrow> bool" where
  "store_exec q (f, g) r (f', g') \<longleftrightarrow> dev_exec q f r f' \<and> written_back f f' g g' \<and> synced q r f' g'"

text \<open>The byte at \<open>p\<close> is \<open>b\<close>, now and after a crash, whatever is written back meanwhile.\<close>

fun stable :: "nat \<Rightarrow> byte \<Rightarrow> store \<Rightarrow> bool" where
  "stable p b (f, g) \<longleftrightarrow> p < length f \<and> f ! p = b \<and> p < length g \<and> g ! p = b"

lemma written_backD:
  assumes "written_back f f' g g'" and "p < length g"
  shows "p < length g' \<and> (g' ! p = g ! p \<or> p < length f \<and> g' ! p = f ! p \<or> p < length f' \<and> g' ! p = f' ! p)"
proof -
  from assms have "p < length g'" by (simp add: written_back_def)
  with assms(1) show ?thesis by (auto simp: written_back_def list_all_iff dest: bspec [of _ _ p])
qed

lemma store_exec_keeps:
  assumes "store_exec q s r s'" and "\<not> covers q p" and "stable p b s"
  shows "stable p b s'"
proof (cases s; cases s')
  fix f g f' g' assume s: "s = (f, g)" "s' = (f', g')"
  have "p < length f' \<and> f' ! p = f ! p"
    by (rule dev_exec_keeps [OF _ assms(2)]) (use assms(1,3) in \<open>auto simp: s\<close>)
  then show ?thesis using assms(1,3) written_backD [of f f' g g' p] by (auto simp: s)
qed

lemma store_exec_writes:
  assumes "store_exec (Write_req cid off payload True) s (Io_ok (length payload) buf) s'"
    and "covers (Write_req cid off payload True) p"
  shows "stable p (payload ! (p - unat off)) s'"
proof (cases s; cases s')
  fix f g f' g' assume s: "s = (f, g)" "s' = (f', g')"
  have "p < length f' \<and> f' ! p = payload ! (p - unat off)"
    by (rule dev_exec_writes [OF _ assms(2)]) (use assms(1) in \<open>auto simp: s\<close>)
  then show ?thesis using assms by (auto simp: s list_all_iff)
qed

text \<open>Writing back all of it at any later time changes nothing of that.\<close>

lemma stable_written_back: "stable p b (f, g) \<Longrightarrow> written_back f f g g' \<Longrightarrow> stable p b (f, g')"
  using written_backD [of f f g g' p] by auto

subsection \<open>A client with \<open>sync_writes\<close>\<close>

definition sync_ops :: "('u, 'f) sys \<Rightarrow> bool" where
  "sync_ops s \<longleftrightarrow> (\<forall>e \<in> set (acc s). is_write_op (rq_op (fst (fst e))) \<longrightarrow>
     (rq_op (fst (fst e)) = EASYBD_OP_WRITE_SYNC) = cl_sync_writes (cl s))"

lemma client_fail_all_sync [simp]: "cl_sync_writes (client_fail_all e c) = cl_sync_writes c"
proof -
  have "cl_sync_writes (fold (\<lambda>p. client_dispatch p r) ps d) = cl_sync_writes d" for r ps and d :: "'a client"
    by (induction ps arbitrary: d) (simp_all add: client_dispatch_def)
  then show ?thesis by (simp add: client_fail_all_def)
qed

lemma client_sync [simp]:
  "cl_sync_writes (client_end c) = cl_sync_writes c" "cl_sync_writes (client_complete cid p res c) = cl_sync_writes c"
  "cl_sync_writes (client_sent k c) = cl_sync_writes c" "cl_sync_writes (client_send_failed k c) = cl_sync_writes c"
  "cl_sync_writes (client_issue p c) = cl_sync_writes c" "cl_sync_writes (client_copy b body c) = cl_sync_writes c"
  by (simp_all add: client_end_def client_complete_def client_dispatch_def client_sent_def client_send_failed_def
      client_issue_def client_copy_def Let_def split: option.split)

lemma client_reader_sync [simp]:
  "cl_sync_writes (client_header resp c) = cl_sync_writes c" "cl_sync_writes (client_body body c) = cl_sync_writes c"
  by (simp_all add: client_header_def client_body_def split: option.split reader_at.split)

lemma sync_op:
  "is_write_op (if sync then EASYBD_OP_WRITE_SYNC else EASYBD_OP_WRITE)"
  "((if sync then EASYBD_OP_WRITE_SYNC else EASYBD_OP_WRITE) = EASYBD_OP_WRITE_SYNC) = sync" "\<not> is_write_op EASYBD_OP_READ"
  by (simp_all add: is_write_op_def EASYBD_OP_READ_def EASYBD_OP_WRITE_def EASYBD_OP_WRITE_SYNC_def)

lemma sys_step_sync: "sys_step bo exec s s' \<Longrightarrow> sync_ops s \<Longrightarrow> sync_ops s'"
  by (induction rule: sys_step.induct)
    (auto simp: sync_ops_def sys_call_def sys_spawn_def sys_execute_def sys_header_def sys_body_def cc_take_def
      cc_sent_def cc_fail_def cc_pread_def cc_pwrite_def client_pread_def client_pwrite_def send_request_def
      sync_op)

lemma node_sync:
  assumes "ct_inv bo exec f c" and "ct_nodes c i = Some s"
  shows "sync_ops s"
proof -
  have "node_run bo s" using assms by (simp add: ct_inv_def node_ok_def spec [of _ i] split: option.splits)
  then obtain sync mem where "(sys_step bo any_exec)\<^sup>*\<^sup>* (sys_init sync mem g) (s\<lparr>sy_file := g\<rparr>)" for g
    unfolding node_run_def by blast
  then have "sync_ops (s\<lparr>sy_file := undefined\<rparr>)"
    by (rule rtranclp_induct) (simp add: sync_ops_def sys_init_def cc_init_def, rule sys_step_sync)
  then show ?thesis by (simp add: sync_ops_def)
qed

lemma issued_durable:
  assumes "ct_inv bo exec f c" and "ct_nodes c i = Some s" and "good s" and "cl_sync_writes (cl s)"
    and "(i, Issued h (Write_req cid off payload durable)) \<in> set (ct_trace c)"
  shows "durable"
proof -
  note n = node_inv [OF assms(1-3)]
  have "(h, Write_req cid off payload durable) \<in> set (issues (sy_trace s))"
    using assms(5) by (simp add: n(2) of_conn_set flip: issued_iff)
  moreover have "issues (sy_trace s) = enumerate 0 (map (message_request \<circ> fst) (acc s))"
    using sys_invD(4) [OF n(1)] by (simp add: trace_inv_def)
  ultimately have "h < length (acc s)" "message_request (fst (acc s ! h)) = Write_req cid off payload durable"
    by (auto simp: in_set_enumerate_eq)
  then obtain e where e: "e \<in> set (acc s)" "message_request (fst e) = Write_req cid off payload durable"
    by (metis nth_mem)
  then have "is_write_op (rq_op (fst (fst e)))" "durable = (rq_op (fst (fst e)) = EASYBD_OP_WRITE_SYNC)"
    by (auto simp: message_request_def Let_def split: if_splits)
  with node_sync [OF assms(1,2)] e(1) assms(4) show ?thesis by (auto simp: sync_ops_def)
qed

subsection \<open>Properties\<close>



end
