(* ===== verification/Server_Main.thy ===== *)
theory Server_Main
  imports Queue_Api
begin

text \<open>
  The command line of the server, \<open>server/main.cpp\<close>: the three option parsers, the C
  number conversions they use, and \<open>main\<close> up to \<open>run_server\<close>. What
  \<open>getopt_long\<close> returns, one option with its argument after the other, is the input.
\<close>

subsection \<open>C library conversions\<close>

definition isdigit :: "char \<Rightarrow> bool" where
  "isdigit c \<longleftrightarrow> 48 \<le> (of_char c :: nat) \<and> (of_char c :: nat) \<le> 57"

definition isspace :: "char \<Rightarrow> bool" where
  "isspace c \<longleftrightarrow> (of_char c :: nat) = 32 \<or> 9 \<le> (of_char c :: nat) \<and> (of_char c :: nat) \<le> 13"

definition decimal :: "string \<Rightarrow> nat" where
  "decimal s = foldl (\<lambda>n c. 10 * n + (of_char c - 48)) 0 s"

text \<open>\<open>strtol (s, nullptr, 10)\<close> on a string of digits: clamped to \<open>LONG_MAX\<close>.\<close>

definition strtol_digits :: "string \<Rightarrow> int" where
  "strtol_digits s = int (min (decimal s) (2 ^ 63 - 1))"

text \<open>
  \<open>strtoul (s, nullptr, 10)\<close>: white space, an optional sign, the longest run of digits;
  out of range gives \<open>ULONG_MAX\<close>, a minus sign negates modulo \<open>2 ^ 64\<close>.
\<close>

definition strtoul :: "string \<Rightarrow> u64" where
  "strtoul s =
     (let t = dropWhile isspace s;
          (negative, u) = (case t of
             [] \<Rightarrow> (False, [])
           | c # cs \<Rightarrow> if c = CHR ''-'' then (True, cs) else if c = CHR ''+'' then (False, cs) else (False, t));
          n = decimal (takeWhile isdigit u)
      in if 2 ^ 64 \<le> n then - 1 else if negative then - of_nat n else of_nat n)"

subsection \<open>Option parsers\<close>

definition rfind :: "char \<Rightarrow> string \<Rightarrow> nat option" where
  "rfind c s =
     (if c \<in> set s then Some (length s - 1 - length (takeWhile (\<lambda>x. x \<noteq> c) (rev s))) else None)"

definition parse_bind_addr :: "string \<Rightarrow> exn + string \<times> u16" where
  "parse_bind_addr s =
     (case rfind CHR '':'' s of
        None \<Rightarrow> Inl (Invalid_argument ''easybd-server: --bind must be HOST:PORT'')
      | Some pos \<Rightarrow>
          if pos = 0 \<or> pos + 1 = length s
          then Inl (Invalid_argument ''easybd-server: --bind must be HOST:PORT'')
          else
            (let host = take pos s; port_str = drop (pos + 1) s
             in if \<not> list_all isdigit port_str
                then Inl (Invalid_argument ''easybd-server: --bind port must be numeric'')
                else
                  (let p = strtol_digits port_str
                   in if p \<le> 0 \<or> 65535 < p
                      then Inl (Invalid_argument ''easybd-server: --bind port out of range'')
                      else Inr (host, word_of_int p))))"

definition parse_queue_type :: "bool \<Rightarrow> string \<Rightarrow> exn + Backend" where
  "parse_queue_type liburing s =
     (if s = ''io_uring'' then
        (if \<not> io_uring_available liburing
         then Inl (Invalid_argument
           ''easybd-server: queue-type io_uring requested but this build was configured with --without-liburing'')
         else Inr IoUring)
      else if s = ''libc'' then Inr Libc
      else Inl (Invalid_argument ''easybd-server: --queue-type must be io_uring or libc''))"

definition parse_direct :: "string \<Rightarrow> exn + bool" where
  "parse_direct s =
     (if s = ''1'' then Inr True else if s = ''0'' then Inr False
      else Inl (Invalid_argument ''easybd-server: --direct must be 0 or 1''))"

subsection \<open>main\<close>

record server_config =
  sc_bind_host :: string
  sc_bind_port :: u16
  sc_file_path :: string
  sc_backend :: Backend
  sc_queue_depth :: u32
  sc_threads :: u32
  sc_multishot_recv :: bool
  sc_direct_io :: bool

definition kDefaultQueueDepth :: u32 where "kDefaultQueueDepth = 128"

datatype cli_option =
    Opt_bind string | Opt_file string | Opt_queue_type string | Opt_queue_depth string
  | Opt_threads string | Opt_multishot | Opt_direct string | Opt_help | Opt_version | Opt_unknown

record cli_state =
  cs_config :: server_config
  cs_have_bind :: bool
  cs_have_file :: bool

definition cli_init :: "bool \<Rightarrow> u32 \<Rightarrow> cli_state" where
  "cli_init liburing hardware_concurrency =
     \<lparr>cs_config = \<lparr>sc_bind_host = [], sc_bind_port = 0, sc_file_path = [],
        sc_backend = (if io_uring_available liburing then IoUring else Libc),
        sc_queue_depth = kDefaultQueueDepth, sc_threads = max 1 hardware_concurrency,
        sc_multishot_recv = False, sc_direct_io = True\<rparr>,
      cs_have_bind = False, cs_have_file = False\<rparr>"

text \<open>One round of the option loop: an exception, an exit code, or the new state.\<close>

datatype cli_result = Cli_throw exn | Cli_exit nat | Cli_go cli_state

definition cli_step :: "bool \<Rightarrow> cli_option \<Rightarrow> cli_state \<Rightarrow> cli_result" where
  "cli_step liburing opt s =
     (let c = cs_config s in
      case opt of
        Opt_bind a \<Rightarrow>
          (case parse_bind_addr a of
             Inl e \<Rightarrow> Cli_throw e
           | Inr (host, port) \<Rightarrow>
               Cli_go (s\<lparr>cs_config := c\<lparr>sc_bind_host := host, sc_bind_port := port\<rparr>, cs_have_bind := True\<rparr>))
      | Opt_file a \<Rightarrow> Cli_go (s\<lparr>cs_config := c\<lparr>sc_file_path := a\<rparr>, cs_have_file := True\<rparr>)
      | Opt_queue_type a \<Rightarrow>
          (case parse_queue_type liburing a of
             Inl e \<Rightarrow> Cli_throw e
           | Inr b \<Rightarrow> Cli_go (s\<lparr>cs_config := c\<lparr>sc_backend := b\<rparr>\<rparr>))
      | Opt_queue_depth a \<Rightarrow> Cli_go (s\<lparr>cs_config := c\<lparr>sc_queue_depth := ucast (strtoul a)\<rparr>\<rparr>)
      | Opt_threads a \<Rightarrow> Cli_go (s\<lparr>cs_config := c\<lparr>sc_threads := ucast (strtoul a)\<rparr>\<rparr>)
      | Opt_multishot \<Rightarrow> Cli_go (s\<lparr>cs_config := c\<lparr>sc_multishot_recv := True\<rparr>\<rparr>)
      | Opt_direct a \<Rightarrow>
          (case parse_direct a of
             Inl e \<Rightarrow> Cli_throw e
           | Inr d \<Rightarrow> Cli_go (s\<lparr>cs_config := c\<lparr>sc_direct_io := d\<rparr>\<rparr>))
      | Opt_help \<Rightarrow> Cli_exit 0
      | Opt_version \<Rightarrow> Cli_exit 0
      | Opt_unknown \<Rightarrow> Cli_exit 2)"

fun cli_loop :: "bool \<Rightarrow> cli_option list \<Rightarrow> cli_state \<Rightarrow> cli_result" where
  "cli_loop liburing [] s = Cli_go s"
| "cli_loop liburing (opt # opts) s =
     (case cli_step liburing opt s of Cli_go s' \<Rightarrow> cli_loop liburing opts s' | r \<Rightarrow> r)"

text \<open>
  \<open>main\<close>: exit with a status, or run the server with a configuration.
  \<open>positional\<close>: arguments are left after the options.
\<close>

datatype main_result = Exit nat | Run server_config

definition server_main :: "bool \<Rightarrow> u32 \<Rightarrow> cli_option list \<Rightarrow> bool \<Rightarrow> main_result" where
  "server_main liburing hw opts positional =
     (case cli_loop liburing opts (cli_init liburing hw) of
        Cli_throw e \<Rightarrow> Exit 1
      | Cli_exit n \<Rightarrow> Exit n
      | Cli_go s \<Rightarrow>
          if positional then Exit 2
          else if \<not> cs_have_bind s \<or> \<not> cs_have_file s then Exit 2
          else if sc_threads (cs_config s) = 0 then Exit 2
          else Run (cs_config s))"

subsection \<open>Finding the last colon\<close>

lemma rfind_append:
  assumes "c \<notin> set b"
  shows "rfind c (a @ c # b) = Some (length a)"
proof -
  have "takeWhile (\<lambda>x. x \<noteq> c) (rev b @ c # rev a) = rev b"
    using assms by (subst takeWhile_append2) auto
  then show ?thesis by (simp add: rfind_def)
qed

lemma rfind_Some:
  assumes "rfind c s = Some pos"
  shows "s = take pos s @ c # drop (pos + 1) s \<and> c \<notin> set (drop (pos + 1) s)"
proof -
  have "c \<in> set s" using assms by (simp add: rfind_def split: if_splits)
  then obtain a b where s: "s = a @ c # b" "c \<notin> set b" by (meson split_list_last)
  then have "pos = length a" using rfind_append [of c b a] assms by simp
  with s show ?thesis by simp
qed

lemma colon_no_digit: "list_all isdigit s \<Longrightarrow> CHR '':'' \<notin> set s"
  by (auto simp: list_all_iff isdigit_def)

lemma parse_bind_addr_colon:
  assumes "CHR '':'' \<notin> set ds"
  shows "parse_bind_addr (h @ CHR '':'' # ds) =
    (if h = [] \<or> ds = [] then Inl (Invalid_argument ''easybd-server: --bind must be HOST:PORT'')
     else if \<not> list_all isdigit ds then Inl (Invalid_argument ''easybd-server: --bind port must be numeric'')
     else if decimal ds = 0 \<or> 65535 < decimal ds
     then Inl (Invalid_argument ''easybd-server: --bind port out of range'')
     else Inr (h, of_nat (decimal ds)))"
  using assms
  by (auto simp: parse_bind_addr_def rfind_append strtol_digits_def Let_def min_def)

lemma parse_bind_addr_Inr:
  assumes "parse_bind_addr s = Inr (host, port)"
  shows "\<exists>ds. s = host @ CHR '':'' # ds \<and> host \<noteq> [] \<and> ds \<noteq> [] \<and> list_all isdigit ds
    \<and> 0 < decimal ds \<and> decimal ds \<le> 65535 \<and> unat port = decimal ds"
proof -
  obtain pos where r: "rfind CHR '':'' s = Some pos"
    using assms by (auto simp: parse_bind_addr_def split: option.splits)
  from rfind_Some [OF r] obtain h ds where s: "s = h @ CHR '':'' # ds" "CHR '':'' \<notin> set ds" by metis
  with assms show ?thesis
    by (auto simp: parse_bind_addr_colon [OF s(2)] unat_of_nat take_bit_nat_eq_self split: if_splits)
qed

text \<open>What makes a configuration usable, and what the option loop keeps of it.\<close>

definition config_ok :: "bool \<Rightarrow> server_config \<Rightarrow> bool" where
  "config_ok liburing c \<longleftrightarrow> sc_bind_host c \<noteq> [] \<and> sc_bind_port c \<noteq> 0 \<and> sc_threads c \<noteq> 0
     \<and> (sc_backend c = IoUring \<longrightarrow> liburing)"

definition cli_inv :: "bool \<Rightarrow> cli_state \<Rightarrow> bool" where
  "cli_inv liburing s \<longleftrightarrow> (cs_have_bind s \<longrightarrow> sc_bind_host (cs_config s) \<noteq> [] \<and> sc_bind_port (cs_config s) \<noteq> 0)
     \<and> (sc_backend (cs_config s) = IoUring \<longrightarrow> liburing)"

lemma cli_inv_init: "cli_inv liburing (cli_init liburing hw)"
  by (simp add: cli_inv_def cli_init_def io_uring_available_def)

lemma cli_step_inv:
  assumes "cli_inv liburing s" and "cli_step liburing opt s = Cli_go s'"
  shows "cli_inv liburing s'"
proof (cases opt)
  case (Opt_bind a)
  with assms(2) obtain host port where p: "parse_bind_addr a = Inr (host, port)"
    by (auto simp: cli_step_def split: sum.splits)
  from parse_bind_addr_Inr [OF p] have "host \<noteq> []" "port \<noteq> 0" by auto
  with assms p Opt_bind show ?thesis by (auto simp: cli_step_def cli_inv_def)
qed (use assms in \<open>auto simp: cli_step_def cli_inv_def Let_def parse_queue_type_def io_uring_available_def
    split: sum.splits if_splits\<close>)

lemma cli_loop_inv:
  "cli_inv liburing s \<Longrightarrow> cli_loop liburing opts s = Cli_go s' \<Longrightarrow> cli_inv liburing s'"
  by (induction opts arbitrary: s) (auto split: cli_result.splits intro: cli_step_inv)

subsection \<open>Properties\<close>

text \<open>
  C40. \<open>--bind\<close> accepts exactly \<open>HOST:PORT\<close> with a non-empty host and a decimal port
  from 1 to 65535, split at the last colon: the port the server gets is the number written,
  whatever the number of digits.
\<close>

theorem parse_bind_addr_iff:
  "parse_bind_addr s = Inr (host, port) \<longleftrightarrow>
     (\<exists>ds. s = host @ CHR '':'' # ds \<and> host \<noteq> [] \<and> ds \<noteq> [] \<and> list_all isdigit ds
        \<and> 0 < decimal ds \<and> decimal ds \<le> 65535 \<and> unat port = decimal ds)"
proof
  assume "parse_bind_addr s = Inr (host, port)"
  then show "\<exists>ds. s = host @ CHR '':'' # ds \<and> host \<noteq> [] \<and> ds \<noteq> [] \<and> list_all isdigit ds
        \<and> 0 < decimal ds \<and> decimal ds \<le> 65535 \<and> unat port = decimal ds"
    by (rule parse_bind_addr_Inr)
next
  assume "\<exists>ds. s = host @ CHR '':'' # ds \<and> host \<noteq> [] \<and> ds \<noteq> [] \<and> list_all isdigit ds
        \<and> 0 < decimal ds \<and> decimal ds \<le> 65535 \<and> unat port = decimal ds"
  then obtain ds where d: "s = host @ CHR '':'' # ds" "host \<noteq> []" "ds \<noteq> []" "list_all isdigit ds"
    "0 < decimal ds" "decimal ds \<le> 65535" "unat port = decimal ds" by blast
  have "port = of_nat (unat port)" by simp
  then have "port = of_nat (decimal ds)" by (simp only: d(7))
  with d show "parse_bind_addr s = Inr (host, port)"
    by (simp add: parse_bind_addr_colon [OF colon_no_digit [OF d(4)]])
qed

text \<open>
  The server runs only with a usable configuration, whatever options come in whatever
  order: a bind address and a file were given, the port is not 0, there is at least one
  worker thread (also when the number given wraps to 0 in 32 bits), no argument was left
  over, and the backend is one the build has.
\<close>

lemma server_runs_configured:
  assumes "server_main liburing hw opts positional = Run c"
  shows "config_ok liburing c \<and> \<not> positional
    \<and> (\<exists>a. Opt_bind a \<in> set opts) \<and> (\<exists>a. Opt_file a \<in> set opts)"
proof -
  obtain s where l: "cli_loop liburing opts (cli_init liburing hw) = Cli_go s"
    and s: "c = cs_config s" "\<not> positional" "cs_have_bind s" "cs_have_file s" "sc_threads (cs_config s) \<noteq> 0"
    using assms by (auto simp: server_main_def split: cli_result.splits if_splits)
  have step: "(cs_have_bind t' \<longrightarrow> cs_have_bind t \<or> (\<exists>a. opt = Opt_bind a))
      \<and> (cs_have_file t' \<longrightarrow> cs_have_file t \<or> (\<exists>a. opt = Opt_file a))"
    if "cli_step liburing opt t = Cli_go t'" for opt t t'
    using that by (cases opt) (auto simp: cli_step_def Let_def split: sum.splits)
  have "(cs_have_bind s \<longrightarrow> cs_have_bind t \<or> (\<exists>a. Opt_bind a \<in> set opts))
      \<and> (cs_have_file s \<longrightarrow> cs_have_file t \<or> (\<exists>a. Opt_file a \<in> set opts))"
    if "cli_loop liburing opts t = Cli_go s" for t
    using that
  proof (induction opts arbitrary: t)
    case (Cons opt opts)
    then obtain t' where t': "cli_step liburing opt t = Cli_go t'" "cli_loop liburing opts t' = Cli_go s"
      by (auto split: cli_result.splits)
    from Cons.IH [OF t'(2)] step [OF t'(1)] show ?case by auto
  qed auto
  from this [OF l] s show ?thesis
    using cli_loop_inv [OF cli_inv_init l] by (auto simp: config_ok_def cli_inv_def cli_init_def)
qed

end
