(* ===== verification/Server.thy ===== *)
theory Server
  imports Libc_Queue Queue_Api
begin

text \<open>
  The server process, \<open>server/server.cpp\<close>: opening the file and the listening socket,
  the accept loop on the libc backend (an instance of the poll loop of \<open>Libc_Queue\<close>),
  and the shutdown of the worker threads. What a fresh connection and a connection's stream
  do to the queue's table are parameters that leave the listening descriptor alone.
\<close>

subsection \<open>Opening\<close>

text \<open>
  \<open>open_listen_socket\<close>, over the answers of its system calls; \<open>inet_pton\<close> tells
  IPv4 literals. The second component lists the descriptors left open.
\<close>

definition open_listen_socket ::
  "string \<Rightarrow> sys_result \<Rightarrow> (string \<Rightarrow> bool) \<Rightarrow> sys_result \<Rightarrow> sys_result \<Rightarrow>
     sys_result \<Rightarrow> (u32 \<Rightarrow> sys_result) \<Rightarrow> (exn + nat) \<times> nat list" where
  "open_listen_socket host sock inet_pton bind_r listen_r getfl setfl =
     (case sock of
        Sys_errno e \<Rightarrow> (Inl (System_error e), [])
      | Sys_ok fd \<Rightarrow>
          if \<not> inet_pton host
          then (Inl (Invalid_argument (''easybd: invalid bind address '' @ [CHR 0x27] @ host @ [CHR 0x27])), [fd])
          else
            (case bind_r of
               Sys_errno e \<Rightarrow> (Inl (System_error e), [])
             | Sys_ok _ \<Rightarrow>
                 (case listen_r of
                    Sys_errno e \<Rightarrow> (Inl (System_error e), [])
                  | Sys_ok _ \<Rightarrow>
                      (case set_nonblocking getfl setfl of
                         Inl e \<Rightarrow> (Inl e, [fd])
                       | Inr _ \<Rightarrow> (Inr fd, [fd])))))"

definition open_backing_file :: "sys_result \<Rightarrow> sys_result \<Rightarrow> (exn + nat \<times> nat) \<times> nat list" where
  "open_backing_file open_r fstat_size =
     (case open_r of
        Sys_errno e \<Rightarrow> (Inl (System_error e), [])
      | Sys_ok fd \<Rightarrow>
          (case fstat_size of
             Sys_errno e \<Rightarrow> (Inl (System_error e), [])
           | Sys_ok sz \<Rightarrow> (Inr (fd, sz), [fd])))"

text \<open>
  The beginning of \<open>run_server\<close>: the file, then the socket. \<open>listen_r\<close> is what
  \<open>open_listen_socket\<close> does.
\<close>

definition run_server_open ::
  "sys_result \<Rightarrow> sys_result \<Rightarrow> (exn + nat) \<times> nat list \<Rightarrow> (exn + nat \<times> nat \<times> nat) \<times> nat list" where
  "run_server_open open_r fstat_size listen_r =
     (case open_backing_file open_r fstat_size of
        (Inl e, opened) \<Rightarrow> (Inl e, opened)
      | (Inr (file_fd, file_size), opened) \<Rightarrow>
          (map_sum id (\<lambda>listen_fd. (file_fd, file_size, listen_fd)) (fst listen_r), opened @ snd listen_r))"

subsection \<open>The accept loop\<close>

text \<open>
  Every accept operation of a loop may well have the address of the previous one: they are
  one value. The rest of the program is what \<open>accept4\<close> will answer, the shutdown
  flag, the connections accepted, and what the operations of the connections will do
  when they become ready: whether each finishes, and the calls its coroutine makes.
\<close>

datatype server_op = Accept_op | Other_op nat

record accept_world =
  aw_results :: "sys_result list"
  aw_shutdown :: bool
  aw_accepted :: "nat list"
  aw_others :: "(bool \<times> server_op qcall list) list"

text \<open>
  \<open>accept_loop\<close> from its next \<open>co_await queue.accept\<close> until it suspends or returns:
  the calls it makes on the queue, what is left of the answers, and the connections
  accepted. An answer that is not \<open>EAGAIN\<close> completes the accept at once. Here
  \<open>accept4\<close> answers \<open>EAGAIN\<close> once the answers listed are used up; \<open>accept_run\<close>
  below is the same loop over any answers, also those that never end.
\<close>

fun accept_loop ::
  "fd \<Rightarrow> (nat \<Rightarrow> server_op qcall list) \<Rightarrow> bool \<Rightarrow> sys_result list \<Rightarrow>
     server_op qcall list \<times> sys_result list \<times> nat list" where
  "accept_loop lfd conn shutdown [] = ([Set_read lfd Accept_op], [], [])"
| "accept_loop lfd conn shutdown (r # rs) =
     (case awaiter_try r of
        None \<Rightarrow> ([Set_read lfd Accept_op], rs, [])
      | Some res \<Rightarrow>
          (case op_result res of
             Inl e \<Rightarrow> if shutdown then ([], rs, []) else accept_loop lfd conn shutdown rs
           | Inr c \<Rightarrow>
               (case accept_loop lfd conn shutdown rs of
                  (calls, rest, accepted) \<Rightarrow> (conn c @ calls, rest, c # accepted))))"

text \<open>
  The loop over the answers \<open>ans i\<close>, \<open>ans (i + 1)\<close> and so on, with \<open>shutdown k\<close> the
  flag as it is read after answer \<open>k\<close>: it may not end, which is \<open>None\<close>.
\<close>

partial_function (option) accept_run ::
  "fd \<Rightarrow> (nat \<Rightarrow> server_op qcall list) \<Rightarrow> (nat \<Rightarrow> bool) \<Rightarrow> (nat \<Rightarrow> sys_result) \<Rightarrow> nat \<Rightarrow>
     (server_op qcall list \<times> nat \<times> nat list) option" where
  "accept_run lfd conn shutdown ans i =
     (case awaiter_try (ans i) of
        None \<Rightarrow> Some ([Set_read lfd Accept_op], i + 1, [])
      | Some res \<Rightarrow>
          (case op_result res of
             Inl e \<Rightarrow>
               if shutdown i then Some ([], i + 1, []) else accept_run lfd conn shutdown ans (i + 1)
           | Inr c \<Rightarrow>
               Option.bind (accept_run lfd conn shutdown ans (i + 1))
                 (\<lambda>(calls, j, accepted). Some (conn c @ calls, j, c # accepted))))"

text \<open>\<open>on_ready\<close> of the accept operation and of the connections' operations.\<close>

definition server_on_ready ::
  "fd \<Rightarrow> (nat \<Rightarrow> server_op qcall list) \<Rightarrow> (server_op, accept_world) on_ready" where
  "server_on_ready lfd conn op st =
     (case op of
        Other_op _ \<Rightarrow>
          (case aw_others (fst st) of
             [] \<Rightarrow> (False, st)
           | (fin, calls) # os \<Rightarrow> (fin, (fst st)\<lparr>aw_others := os\<rparr>, lq_calls calls (snd st)))
      | Accept_op \<Rightarrow>
          (case aw_results (fst st) of
             [] \<Rightarrow> (False, st)
           | r # rs \<Rightarrow>
               (case awaiter_try r of
                  None \<Rightarrow> (False, (fst st)\<lparr>aw_results := rs\<rparr>, snd st)
                | Some res \<Rightarrow>
                    (case accept_loop lfd conn (aw_shutdown (fst st)) (r # rs) of
                       (calls, rest, accepted) \<Rightarrow>
                         (True, (fst st)\<lparr>aw_results := rest, aw_accepted := aw_accepted (fst st) @ accepted\<rparr>,
                          lq_calls calls (snd st))))))"

lemma accept_loop_rest: "accept_loop lfd conn sh rs = (calls, rest, acc) \<Longrightarrow> length rest \<le> length rs"
  by (induction rs arbitrary: calls acc)
    (fastforce split: option.splits sum.splits prod.splits if_splits)+

lemma accept_loop_consumes:
  assumes "awaiter_try r = Some res" and "accept_loop lfd conn sh (r # rs) = (calls, rest, acc)"
  shows "length rest < length (r # rs)"
  using assms accept_loop_rest [of lfd conn sh rs]
  by (fastforce split: sum.splits prod.splits if_splits)

interpretation acceptor: fd_reactor "server_on_ready lfd conn" "\<lambda>w. length (aw_results w) + length (aw_others w)"
  for lfd conn
proof unfold_locales
  fix op w and fds :: "server_op fds"
  have nil: "lq_calls [] fds = fds" by (simp add: lq_calls_def)
  show "\<exists>cs. snd (snd (server_on_ready lfd conn op (w, fds))) = lq_calls cs fds"
    using nil by (cases op)
      (auto simp: server_on_ready_def split: list.split option.split prod.split intro: exI [of _ "[]"])
next
  fix op w w' and fds fds' :: "server_op fds"
  assume r: "server_on_ready lfd conn op (w, fds) = (True, w', fds')"
  show "length (aw_results w') + length (aw_others w') < length (aw_results w) + length (aw_others w)"
  proof (cases op)
    case Accept_op
    with r accept_loop_consumes show ?thesis
      by (fastforce simp: server_on_ready_def split: list.splits option.splits prod.splits)
  next
    case (Other_op x)
    with r show ?thesis by (auto simp: server_on_ready_def split: list.splits)
  qed
qed

subsection \<open>Where the loop stops\<close>

text \<open>An answer at which the loop suspends or returns.\<close>

definition accept_stops :: "bool \<Rightarrow> sys_result \<Rightarrow> bool" where
  "accept_stops shutdown r \<longleftrightarrow>
     (case awaiter_try r of None \<Rightarrow> True | Some res \<Rightarrow> shutdown \<and> (\<exists>e. op_result res = Inl e))"

lemma accept_run_stops:
  assumes "accept_stops (shutdown (i + n)) (ans (i + n))"
  shows "\<exists>y. accept_run lfd conn shutdown ans i = Some y"
  using assms
proof (induction n arbitrary: i)
  case 0
  then show ?case
    by (subst accept_run.simps) (auto simp: accept_stops_def split: option.splits sum.splits)
next
  case (Suc n)
  then have "\<exists>y. accept_run lfd conn shutdown ans (i + 1) = Some y"
    using Suc.IH [of "i + 1"] by simp
  then show ?case
    by (subst accept_run.simps) (auto split: option.split sum.split prod.split)
qed

lemma accept_run_result:
  assumes "accept_run lfd conn shutdown ans i = Some y"
  shows "i < fst (snd y) \<and> accept_stops (shutdown (fst (snd y) - 1)) (ans (fst (snd y) - 1))"
proof (rule accept_run.raw_induct [where P = "\<lambda>lfd conn shutdown ans i y.
    i < fst (snd y) \<and> accept_stops (shutdown (fst (snd y) - 1)) (ans (fst (snd y) - 1))", OF _ assms])
  fix f lfd conn and shutdown :: "nat \<Rightarrow> bool" and ans i and y :: "server_op qcall list \<times> nat \<times> nat list"
  assume IH: "\<And>lfd conn shutdown ans i y. f lfd conn shutdown ans i = Some y \<Longrightarrow>
      i < fst (snd y) \<and> accept_stops (shutdown (fst (snd y) - 1)) (ans (fst (snd y) - 1))"
    and run: "(case awaiter_try (ans i) of
        None \<Rightarrow> Some ([Set_read lfd Accept_op], i + 1, [])
      | Some res \<Rightarrow>
          (case op_result res of
             Inl e \<Rightarrow> if shutdown i then Some ([], i + 1, []) else f lfd conn shutdown ans (i + 1)
           | Inr c \<Rightarrow> Option.bind (f lfd conn shutdown ans (i + 1))
                 (\<lambda>(calls, j, accepted). Some (conn c @ calls, j, c # accepted)))) = Some y"
  show "i < fst (snd y) \<and> accept_stops (shutdown (fst (snd y) - 1)) (ans (fst (snd y) - 1))"
  proof (cases "accept_stops (shutdown i) (ans i)")
    case True
    with run show ?thesis by (auto simp: accept_stops_def split: option.splits sum.splits if_splits)
  next
    case False
    then obtain y' where y': "f lfd conn shutdown ans (i + 1) = Some y'" "fst (snd y) = fst (snd y')"
      using run
      by (auto simp: accept_stops_def split: option.splits sum.splits if_splits bind_splits prod.splits)
    from IH [OF y'(1)] y'(2) show ?thesis by simp
  qed
qed

text \<open>On answers that end with \<open>EAGAIN\<close> for good, \<open>accept_run\<close> is \<open>accept_loop\<close>.\<close>

lemma accept_run_list:
  assumes "\<And>k. ans (i + k) = (if k < length rs then rs ! k else Sys_errno EAGAIN)"
    and "accept_loop lfd conn sd rs = (calls, rest, acc)"
  shows "\<exists>j. accept_run lfd conn (\<lambda>_. sd) ans i = Some (calls, j, acc)"
  using assms
proof (induction rs arbitrary: i calls acc)
  case Nil
  then have "awaiter_try (ans i) = None" using Nil(1) [of 0] by (simp add: awaiter_try_def)
  with Nil show ?case by (simp add: accept_run.simps [of _ _ _ _ i])
next
  case (Cons r rs)
  have r: "ans i = r" using Cons.prems(1) [of 0] by simp
  have tl: "ans (Suc i + k) = (if k < length rs then rs ! k else Sys_errno EAGAIN)" for k
    using Cons.prems(1) [of "Suc k"] by simp
  show ?case
    using Cons.prems(2) Cons.IH [OF tl]
    by (subst accept_run.simps)
      (fastforce simp: r split: option.splits sum.splits prod.splits if_splits)
qed

subsection \<open>The listening descriptor stays registered\<close>

fun touches :: "fd \<Rightarrow> 'o qcall \<Rightarrow> bool" where
  "touches fd (Set_read fd' op) \<longleftrightarrow> fd' = fd"
| "touches fd (Clear_read fd' op) \<longleftrightarrow> fd' = fd"
| "touches fd (Push_write fd' op) \<longleftrightarrow> fd' = fd"
| "touches fd (Erase_entry fd') \<longleftrightarrow> fd' = fd"

definition listening :: "fd \<Rightarrow> server_op fds \<Rightarrow> bool" where
  "listening lfd fds \<longleftrightarrow>
     (\<exists>s. map_of fds lfd = Some s \<and> fs_read_op s = Some Accept_op \<and> fs_write_queue s = [])"

lemma lq_call_other: "\<not> touches fd c \<Longrightarrow> map_of (lq_call c fds) fd = map_of fds fd"
  by (cases c) (auto simp: lq_defs Let_def update_conv' delete_conv' split: option.split)

lemma lq_calls_other: "list_all (\<lambda>c. \<not> touches fd c) cs \<Longrightarrow> map_of (lq_calls cs fds) fd = map_of fds fd"
  unfolding lq_calls_def by (induction cs arbitrary: fds) (auto simp: lq_call_other)

lemma lq_calls_append: "lq_calls (as @ bs) fds = lq_calls bs (lq_calls as fds)"
  by (simp add: lq_calls_def)

text \<open>
  Unless a shutdown was requested, the accept loop leaves itself registered, under a new
  generation.
\<close>

lemma accept_loop_rearms:
  assumes "\<And>c. list_all (\<lambda>q. \<not> touches lfd q) (conn c)"
    and "accept_loop lfd conn False rs = (calls, rest, acc)" and "map_of fds lfd = Some s"
  shows "map_of (lq_calls calls fds) lfd
    = Some (s\<lparr>fs_read_op := Some Accept_op, fs_read_op_gen := fs_read_op_gen s + 1\<rparr>)"
  using assms(2,3)
proof (induction rs arbitrary: calls acc fds)
  case Nil
  then show ?case by (auto simp: lq_calls_def lq_defs Let_def update_conv')
next
  case (Cons r rs)
  have arm: "map_of (lq_calls [Set_read lfd Accept_op] fds) lfd
      = Some (s\<lparr>fs_read_op := Some Accept_op, fs_read_op_gen := fs_read_op_gen s + 1\<rparr>)"
    using Cons.prems(2) by (simp add: lq_calls_def lq_defs Let_def update_conv')
  show ?case
  proof (cases "\<exists>res c. awaiter_try r = Some res \<and> op_result res = Inr c")
    case False
    with Cons arm show ?thesis by (fastforce split: option.splits sum.splits)
  next
    case True
    then obtain c cs' acc' where "accept_loop lfd conn False rs = (cs', rest, acc')" "calls = conn c @ cs'"
      using Cons.prems(1) by (auto split: prod.splits)
    moreover have "map_of (lq_calls (conn c) fds) lfd = Some s"
      using lq_calls_other [OF assms(1)] Cons.prems(2) by simp
    ultimately show ?thesis using Cons.IH by (simp add: lq_calls_append)
  qed
qed

text \<open>Every operation keeps the listening descriptor registered, if the connections do not
  touch it.\<close>

abbreviation untouched :: "fd \<Rightarrow> server_op qcall list \<Rightarrow> bool" where
  "untouched lfd calls \<equiv> list_all (\<lambda>q. \<not> touches lfd q) calls"

definition accepting :: "fd \<Rightarrow> accept_world \<Rightarrow> server_op fds \<Rightarrow> bool" where
  "accepting lfd w fds \<longleftrightarrow> listening lfd fds \<and> \<not> aw_shutdown w
     \<and> list_all (\<lambda>(_, calls). untouched lfd calls) (aw_others w)"

lemma server_on_ready_listening:
  assumes "\<And>c. untouched lfd (conn c)" and "accepting lfd w fds"
    and "server_on_ready lfd conn op (w, fds) = (fin, w', fds')"
  shows "accepting lfd w' fds'"
proof (cases op)
  case (Other_op x)
  with assms(2,3) show ?thesis
    by (auto simp: server_on_ready_def accepting_def listening_def lq_calls_other split: list.splits)
next
  case Accept_op
  obtain s where s: "map_of fds lfd = Some s" "fs_write_queue s = []"
    using assms(2) by (auto simp: accepting_def listening_def)
  show ?thesis
    using assms(2,3) Accept_op accept_loop_rearms [OF assms(1) _ s(1), where rs = "aw_results w"] s(2)
    by (auto simp: server_on_ready_def accepting_def listening_def
        simp del: accept_loop.simps split: list.splits option.splits prod.splits)
qed

text \<open>The generation check keeps the entry that the accept loop has just renewed.\<close>

lemma dispatch_read_listening:
  assumes "\<And>c. untouched lfd (conn c)" and "accepting lfd w fds"
    and "lq_dispatch_read (server_on_ready lfd conn) fd (w, fds) = (w', fds')"
  shows "accepting lfd w' fds'"
proof -
  let ?r = "server_on_ready lfd conn"
  consider (idle) "(w', fds') = (w, fds)"
    | (ran) s op fin fds1 where "map_of fds fd = Some s" "fs_read_op s = Some op"
        "?r op (w, fds) = (fin, w', fds1)"
        "fds' = (case map_of fds1 fd of None \<Rightarrow> fds1 | Some s' \<Rightarrow>
           if fin \<and> fs_read_op_gen s' = fs_read_op_gen s
           then AList.update fd (s'\<lparr>fs_read_op := None\<rparr>) fds1 else fds1)"
    using assms(3) by (auto simp: lq_dispatch_read_def split: option.splits prod.splits if_splits)
  then show ?thesis
  proof cases
    case idle
    with assms(2) show ?thesis by simp
  next
    case ran
    note ok = server_on_ready_listening [OF assms(1,2) ran(3)]
    show ?thesis
    proof (cases "fd = lfd")
      case False
      with ok ran(4) show ?thesis
        by (auto simp: accepting_def listening_def update_conv' split: option.splits)
    next
      case True
      with ran(1,2) assms(2) have op: "op = Accept_op" by (auto simp: accepting_def listening_def)
      have "fs_read_op_gen s' \<noteq> fs_read_op_gen s" if "fin" "map_of fds1 fd = Some s'" for s'
        using that ran(1,3) True op assms(2) accept_loop_rearms [OF assms(1), where rs = "aw_results w" and fds = fds and s = s]
        by (auto simp: server_on_ready_def accepting_def simp del: accept_loop.simps
            split: list.splits option.splits prod.splits)
      then have "fds' = fds1" using ran(4) by (auto split: option.splits)
      with ok show ?thesis by simp
    qed
  qed
qed

lemma pop_front_listening: "accepting lfd w fds \<Longrightarrow> accepting lfd w (lq_pop_front fd op fds)"
  by (auto simp: lq_pop_front_def accepting_def listening_def update_conv' split: option.split list.split)

lemma sweep_listening: "accepting lfd w fds \<Longrightarrow> accepting lfd w (lq_sweep fd fds)"
  by (auto simp: lq_sweep_def accepting_def listening_def delete_conv' fs_empty_def split: option.split)

lemma dispatch_one_listening:
  assumes "\<And>c. untouched lfd (conn c)" and "accepting lfd w fds"
    and "lq_dispatch_one (server_on_ready lfd conn) p (w, fds) = Some (w', fds')"
  shows "accepting lfd w' fds'"
proof (cases "snd p = 0")
  case True
  with assms(2,3) show ?thesis by (simp add: lq_dispatch_one_def)
next
  case False
  let ?r = "server_on_ready lfd conn" and ?Q = "accepting lfd"
  obtain w1 fds1 where st1: "(if snd p AND (POLLIN OR POLLHUP OR POLLERR OR POLLNVAL) \<noteq> 0
      then lq_dispatch_read ?r (fst p) (w, fds) else (w, fds)) = (w1, fds1)" by fastforce
  have q1: "?Q w1 fds1"
    using st1 assms(2) dispatch_read_listening [OF assms(1,2)] by (auto split: if_splits)
  have "\<exists>fds2. fds' = lq_sweep (fst p) fds2
      \<and> (lq_write_loop ?r (fst p) (w1, fds1) = Some (w', fds2) \<or> (w', fds2) = (w1, fds1))"
    using assms(3) False st1 by (auto simp: lq_dispatch_one_def Let_def split: if_splits)
  then obtain fds2 where "fds' = lq_sweep (fst p) fds2" "?Q w' fds2"
    using acceptor.write_loop_keeps [where Q = ?Q and lfd = lfd and conn = conn]
      q1 server_on_ready_listening [where lfd = lfd and conn = conn, OF assms(1)] pop_front_listening by (metis Pair_inject)
  with sweep_listening show ?thesis by blast
qed

lemma dispatch_listening:
  assumes "\<And>c. untouched lfd (conn c)" and "accepting lfd w fds"
    and "lq_dispatch (server_on_ready lfd conn) ps (w, fds) = Some (w', fds')"
  shows "accepting lfd w' fds'"
  using assms(2,3)
proof (induction ps arbitrary: w fds)
  case (Cons p ps)
  then obtain w1 fds1 where "lq_dispatch_one (server_on_ready lfd conn) p (w, fds) = Some (w1, fds1)"
    "lq_dispatch (server_on_ready lfd conn) ps (w1, fds1) = Some (w', fds')"
    by (auto split: option.splits)
  with Cons dispatch_one_listening [where lfd = lfd and conn = conn, OF assms(1)] show ?case by blast
qed simp

subsection \<open>Shutdown of the worker threads\<close>

text \<open>
  \<open>run_server\<close> and its \<open>worker_main\<close> threads as interleaved steps, each one access to
  what the threads share: the shutdown flag and the exception slot (\<open>g_worker_exception\<close>,
  under its mutex). A worker is before \<open>Queue::create\<close>, in its loop, in its
  \<open>catch\<close> block before or after storing the exception, or has returned. The main thread
  starts the workers, sleeps, joins them in order, and closes the two descriptors. Starting a
  thread may fail: then the exception leaves \<open>run_server\<close>, and the destructor of the vector of
  threads calls \<open>std::terminate\<close> if any was started, since none of them was joined.
  \<open>sv_caught\<close> is a ghost: the exceptions in the order their workers took the mutex.
\<close>

datatype worker = W_create | W_loop | W_caught exn | W_stored | W_exited

datatype main_at =
    M_start nat | M_sleep | M_join nat | M_done "exn option" | M_failed exn | M_terminated

record srv =
  sv_shutdown :: bool
  sv_exc :: "exn option"
  sv_workers :: "worker list"
  sv_main :: main_at
  sv_open :: "fd list"
  sv_caught :: "exn list"

definition srv_init :: "fd \<Rightarrow> fd \<Rightarrow> srv" where
  "srv_init file_fd listen_fd = \<lparr>sv_shutdown = False, sv_exc = None, sv_workers = [],
     sv_main = M_start 0, sv_open = [file_fd, listen_fd], sv_caught = []\<rparr>"

text \<open>\<open>handle_shutdown_signal\<close>.\<close>

definition handle_shutdown_signal :: "srv \<Rightarrow> srv" where
  "handle_shutdown_signal s = s\<lparr>sv_shutdown := True\<rparr>"

text \<open>
  The next step of worker \<open>i\<close>; \<open>r\<close> is what \<open>Queue::create\<close> or
  \<open>Queue::step\<close> throws, if anything.
\<close>

definition worker_main :: "exn option \<Rightarrow> nat \<Rightarrow> srv \<Rightarrow> srv" where
  "worker_main r i s =
     (case sv_workers s ! i of
        W_create \<Rightarrow>
          s\<lparr>sv_workers := (sv_workers s)[i := (case r of None \<Rightarrow> W_loop | Some e \<Rightarrow> W_caught e)]\<rparr>
      | W_loop \<Rightarrow>
          if sv_shutdown s then s\<lparr>sv_workers := (sv_workers s)[i := W_exited]\<rparr>
          else s\<lparr>sv_workers := (sv_workers s)[i := (case r of None \<Rightarrow> W_loop | Some e \<Rightarrow> W_caught e)]\<rparr>
      | W_caught e \<Rightarrow>
          s\<lparr>sv_exc := (if sv_exc s = None then Some e else sv_exc s), sv_caught := sv_caught s @ [e],
            sv_workers := (sv_workers s)[i := W_stored]\<rparr>
      | W_stored \<Rightarrow> s\<lparr>sv_shutdown := True, sv_workers := (sv_workers s)[i := W_exited]\<rparr>
      | W_exited \<Rightarrow> s)"

text \<open>
  The next step of the main thread, if it can make one; \<open>n\<close> is \<open>config.threads\<close> and
  \<open>r\<close> what starting a thread throws, if anything.
\<close>

definition run_server :: "nat \<Rightarrow> exn option \<Rightarrow> srv \<Rightarrow> srv option" where
  "run_server n r s =
     (case sv_main s of
        M_start i \<Rightarrow>
          if i < n
          then (case r of
                  None \<Rightarrow> Some (s\<lparr>sv_workers := sv_workers s @ [W_create], sv_main := M_start (i + 1)\<rparr>)
                | Some e \<Rightarrow> Some (s\<lparr>sv_main := (if sv_workers s = [] then M_failed e else M_terminated)\<rparr>))
          else Some (s\<lparr>sv_main := M_sleep\<rparr>)
      | M_sleep \<Rightarrow> if sv_shutdown s then Some (s\<lparr>sv_main := M_join 0\<rparr>) else Some s
      | M_join i \<Rightarrow>
          if i < length (sv_workers s)
          then (if sv_workers s ! i = W_exited then Some (s\<lparr>sv_main := M_join (i + 1)\<rparr>) else None)
          else Some (s\<lparr>sv_open := [], sv_main := M_done (sv_exc s)\<rparr>)
      | M_done _ \<Rightarrow> None
      | M_failed _ \<Rightarrow> None
      | M_terminated \<Rightarrow> None)"

text \<open>No thread of a terminated process makes a step.\<close>

inductive srv_step :: "nat \<Rightarrow> srv \<Rightarrow> srv \<Rightarrow> bool" for n where
  srv_signal: "sv_main s \<noteq> M_terminated \<Longrightarrow> srv_step n s (handle_shutdown_signal s)"
| srv_worker: "sv_main s \<noteq> M_terminated \<Longrightarrow> i < length (sv_workers s) \<Longrightarrow> srv_step n s (worker_main r i s)"
| srv_main: "run_server n r s = Some s' \<Longrightarrow> srv_step n s s'"

abbreviation srv_reachable :: "nat \<Rightarrow> fd \<Rightarrow> fd \<Rightarrow> srv \<Rightarrow> bool" where
  "srv_reachable n file_fd listen_fd \<equiv> (srv_step n)\<^sup>*\<^sup>* (srv_init file_fd listen_fd)"

text \<open>How far the workers and the main thread are from their end.\<close>

fun worker_weight :: "worker \<Rightarrow> nat" where
  "worker_weight W_create = 4"
| "worker_weight W_loop = 3"
| "worker_weight (W_caught e) = 2"
| "worker_weight W_stored = 1"
| "worker_weight W_exited = 0"

definition main_weight :: "nat \<Rightarrow> srv \<Rightarrow> nat" where
  "main_weight n s =
     (case sv_main s of
        M_start i \<Rightarrow> 6 * (n - i) + n + 3
      | M_sleep \<Rightarrow> n + 2
      | M_join i \<Rightarrow> n - i + 1
      | M_done _ \<Rightarrow> 0
      | M_failed _ \<Rightarrow> 0
      | M_terminated \<Rightarrow> 0)"

definition srv_weight :: "nat \<Rightarrow> srv \<Rightarrow> nat" where
  "srv_weight n s = main_weight n s + sum_list (map worker_weight (sv_workers s))"

text \<open>The process has ended: \<open>run_server\<close> returned or threw, or \<open>std::terminate\<close> was called.\<close>

definition srv_over :: "srv \<Rightarrow> bool" where
  "srv_over s \<longleftrightarrow> (case sv_main s of M_done _ \<Rightarrow> True | M_failed _ \<Rightarrow> True | M_terminated \<Rightarrow> True | _ \<Rightarrow> False)"

text \<open>The invariant.\<close>

definition srv_inv :: "nat \<Rightarrow> fd \<Rightarrow> fd \<Rightarrow> srv \<Rightarrow> bool" where
  "srv_inv n file_fd listen_fd s \<longleftrightarrow>
     sv_exc s = (case sv_caught s of [] \<Rightarrow> None | e # _ \<Rightarrow> Some e)
   \<and> (case sv_main s of
        M_start i \<Rightarrow> i \<le> n \<and> length (sv_workers s) = i \<and> sv_open s = [file_fd, listen_fd]
      | M_sleep \<Rightarrow> length (sv_workers s) = n \<and> sv_open s = [file_fd, listen_fd]
      | M_join i \<Rightarrow> i \<le> n \<and> length (sv_workers s) = n \<and> sv_open s = [file_fd, listen_fd]
          \<and> (\<forall>j < i. sv_workers s ! j = W_exited)
      | M_done x \<Rightarrow> x = sv_exc s \<and> sv_open s = [] \<and> sv_workers s = replicate n W_exited
      | M_failed e \<Rightarrow> sv_workers s = [] \<and> sv_open s = [file_fd, listen_fd]
      | M_terminated \<Rightarrow> 0 < length (sv_workers s) \<and> length (sv_workers s) < n
          \<and> sv_open s = [file_fd, listen_fd])"

lemma worker_main_exited: "sv_workers s ! i = W_exited \<Longrightarrow> worker_main r i s = s"
  by (simp add: worker_main_def)

lemma worker_main_frame [simp]:
  "sv_main (worker_main r i s) = sv_main s"
  "sv_open (worker_main r i s) = sv_open s"
  "length (sv_workers (worker_main r i s)) = length (sv_workers s)"
  by (simp_all add: worker_main_def split: worker.split)

lemma worker_main_other: "j \<noteq> i \<Longrightarrow> sv_workers (worker_main r i s) ! j = sv_workers s ! j"
  by (simp add: worker_main_def split: worker.split)

lemma worker_main_keeps_exited: "sv_workers s ! j = W_exited \<Longrightarrow> sv_workers (worker_main r i s) ! j = W_exited"
  by (cases "i = j") (auto simp: worker_main_exited worker_main_other)

lemma worker_main_exc:
  "sv_exc s = (case sv_caught s of [] \<Rightarrow> None | e # _ \<Rightarrow> Some e) \<Longrightarrow>
     sv_exc (worker_main r i s) = (case sv_caught (worker_main r i s) of [] \<Rightarrow> None | e # _ \<Rightarrow> Some e)"
  by (auto simp: worker_main_def split: worker.split list.splits)

lemma srv_inv_worker:
  assumes "srv_inv n f l s" and "i < length (sv_workers s)"
  shows "srv_inv n f l (worker_main r i s)"
proof (cases "sv_workers s ! i = W_exited")
  case True
  with assms show ?thesis by (simp add: worker_main_exited)
next
  case False
  then have "\<And>x. sv_main s \<noteq> M_done x" using assms by (auto simp: srv_inv_def)
  then show ?thesis
    using assms worker_main_exc [of s r i]
    by (auto simp: srv_inv_def worker_main_keeps_exited split: main_at.splits)
qed

lemma srv_inv_main:
  assumes "srv_inv n f l s" and "run_server n r s = Some s'"
  shows "srv_inv n f l s'"
proof (cases "sv_main s")
  case (M_join i)
  show ?thesis
  proof (cases "i < length (sv_workers s)")
    case True
    with assms M_join show ?thesis
      by (auto simp: run_server_def srv_inv_def less_Suc_eq split: if_splits)
  next
    case False
    with assms M_join show ?thesis
      by (auto simp: run_server_def srv_inv_def list_eq_iff_nth_eq)
  qed
qed (use assms in \<open>auto simp: run_server_def srv_inv_def split: if_splits option.splits\<close>)

lemma srv_inv_step: "srv_inv n f l s \<Longrightarrow> srv_step n s s' \<Longrightarrow> srv_inv n f l s'"
  by (auto elim!: srv_step.cases simp: srv_inv_worker srv_inv_main)
    (auto simp: srv_inv_def handle_shutdown_signal_def split: main_at.splits)

lemma srv_inv_reachable: "srv_reachable n f l s \<Longrightarrow> srv_inv n f l s"
  by (induction rule: rtranclp_induct) (simp add: srv_inv_def srv_init_def, rule srv_inv_step)

text \<open>Once the flag is set every step that changes anything makes progress.\<close>

lemma sum_list_update_nat: "i < length xs \<Longrightarrow> sum_list (xs[i := x]) + xs ! i = sum_list xs + (x :: nat)"
proof (induction xs arbitrary: i)
  case (Cons a as)
  then show ?case by (cases i) (auto simp: add.assoc)
qed simp

lemma worker_main_weight:
  assumes "sv_shutdown s" and "i < length (sv_workers s)"
  shows "worker_main r i s = s \<or> srv_weight n (worker_main r i s) < srv_weight n s"
proof -
  let ?ws = "map worker_weight (sv_workers s)"
  have "sum_list (?ws[i := y]) + worker_weight (sv_workers s ! i) = sum_list ?ws + y" for y
    using sum_list_update_nat [of i ?ws y] assms(2) by simp
  from this [of 0] this [of 1] this [of 2] this [of 3] assms(1) show ?thesis
    by (cases "sv_workers s ! i")
      (auto simp: worker_main_def srv_weight_def main_weight_def map_update split: option.split)
qed

lemma run_server_weight:
  assumes "sv_shutdown s" and "srv_inv n f l s" and "run_server n r s = Some s'"
  shows "srv_weight n s' < srv_weight n s"
  using assms
  by (cases "sv_main s")
    (auto simp: run_server_def srv_weight_def main_weight_def srv_inv_def split: if_splits option.splits)

text \<open>A worker that has not returned can always go on.\<close>

lemma worker_main_enabled:
  "sv_workers s ! i \<noteq> W_exited \<Longrightarrow> i < length (sv_workers s) \<Longrightarrow> sv_shutdown s \<Longrightarrow> worker_main None i s \<noteq> s"
proof
  assume a: "sv_workers s ! i \<noteq> W_exited" "i < length (sv_workers s)" "sv_shutdown s"
    and "worker_main None i s = s"
  then have "sv_workers (worker_main None i s) ! i = sv_workers s ! i" by simp
  with a show False by (auto simp: worker_main_def split: worker.splits)
qed

lemma srv_enabled:
  assumes "sv_shutdown s" and "srv_inv n f l s" and "\<not> srv_over s"
  shows "\<exists>s'. srv_step n s s' \<and> s' \<noteq> s"
proof (cases "run_server n None s")
  case (Some s')
  with run_server_weight [OF assms(1,2) Some] show ?thesis by (metis nat_neq_iff srv_main)
next
  case None
  then obtain i where "i < length (sv_workers s)" "sv_workers s ! i \<noteq> W_exited"
    using assms(3) by (auto simp: run_server_def srv_over_def split: main_at.splits if_splits)
  moreover have "sv_main s \<noteq> M_terminated" using assms(3) by (auto simp: srv_over_def)
  ultimately show ?thesis using worker_main_enabled [of s i] assms(1) by (metis srv_worker)
qed

subsection \<open>Properties\<close>



text \<open>
  C24. The accept loop comes back to its worker's \<open>step\<close> exactly when \<open>accept4\<close>
  eventually answers \<open>EAGAIN\<close>, or fails while a shutdown is requested. An error that
  persists while connections are waiting, such as \<open>EMFILE\<close> (24), therefore keeps the
  worker in the loop, and the connections it serves are not served, until the shutdown.
\<close>

theorem accept_loop_spins:
  "((\<exists>y. accept_run lfd conn shutdown ans i = Some y) \<longleftrightarrow>
      (\<exists>n. case ans (i + n) of Sys_ok c \<Rightarrow> False | Sys_errno e \<Rightarrow> e = EAGAIN \<or> 0 < e \<and> shutdown (i + n)))
   \<and> accept_run lfd conn (\<lambda>_. False) (\<lambda>_. Sys_errno 24) i = None"
proof -
  have stops: "accept_stops sd r \<longleftrightarrow> (case r of Sys_ok c \<Rightarrow> False | Sys_errno e \<Rightarrow> e = EAGAIN \<or> 0 < e \<and> sd)"
    for sd r by (auto simp: accept_stops_def awaiter_try_def op_result_def split: sys_result.split)
  have iff: "(\<exists>y. accept_run lfd conn shutdown ans i = Some y) \<longleftrightarrow>
      (\<exists>n. accept_stops (shutdown (i + n)) (ans (i + n)))" for shutdown ans
  proof
    assume "\<exists>y. accept_run lfd conn shutdown ans i = Some y"
    then obtain y where "accept_run lfd conn shutdown ans i = Some y" ..
    from accept_run_result [OF this] show "\<exists>n. accept_stops (shutdown (i + n)) (ans (i + n))"
      by (intro exI [of _ "fst (snd y) - 1 - i"]) simp
  qed (use accept_run_stops in blast)
  from iff [of "\<lambda>_. False" "\<lambda>_. Sys_errno 24"]
  have "\<not> (\<exists>y. accept_run lfd conn (\<lambda>_. False) (\<lambda>_. Sys_errno 24) i = Some y)"
    by (simp only: stops) (simp add: EAGAIN_def)
  then have "accept_run lfd conn (\<lambda>_. False) (\<lambda>_. Sys_errno 24) i = None" by (meson option.exhaust)
  with iff [of shutdown ans] show ?thesis by (simp only: stops simp_thms)
qed

text \<open>
  C32. The descriptors are not closed under a running worker: in every reachable state either
  both are open or the main thread has finished and every worker has returned. What
  \<open>run_server\<close> rethrows is the exception of the first worker that stored one, and it
  returns normally only if no worker failed. When a thread cannot be started it throws with
  both descriptors open if it was the first one, and otherwise the process is terminated.
\<close>

theorem server_shutdown_clean:
  assumes "srv_reachable n file_fd listen_fd s"
  shows "case sv_main s of
      M_done x \<Rightarrow> sv_workers s = replicate n W_exited \<and> sv_open s = []
        \<and> x = (case sv_caught s of [] \<Rightarrow> None | e # _ \<Rightarrow> Some e)
    | M_failed _ \<Rightarrow> sv_workers s = [] \<and> sv_open s = [file_fd, listen_fd]
    | M_terminated \<Rightarrow> 0 < length (sv_workers s) \<and> length (sv_workers s) < n
    | _ \<Rightarrow> sv_open s = [file_fd, listen_fd]"
  using srv_inv_reachable [OF assms] by (auto simp: srv_inv_def split: main_at.splits)

theorem server_shutdown_clean_witness:
  "sv_open (handle_shutdown_signal (srv_init 3 4)) = [3, 4]"
proof -
  have "srv_reachable 2 3 4 (handle_shutdown_signal (srv_init 3 4))" by (intro r_into_rtranclp srv_signal) (simp add: srv_init_def)
  from server_shutdown_clean [OF this] show ?thesis by (simp add: handle_shutdown_signal_def srv_init_def)
qed



text \<open>
  A failed \<open>open_backing_file\<close> leaves no descriptor open. A failed
  \<open>open_listen_socket\<close> does, exactly when the socket was made and either its address is
  not an IPv4 literal or \<open>set_nonblocking\<close> fails after a successful bind and listen; and
  when the socket cannot be opened \<open>run_server\<close> leaves the file open.
\<close>

lemma open_listen_socket_leak:
  "(\<exists>x. fst (open_backing_file op st) = Inl x) = (snd (open_backing_file op st) = [])
   \<and> ((\<exists>x. fst (open_listen_socket host sock pton b l g f) = Inl x)
        \<and> snd (open_listen_socket host sock pton b l g f) \<noteq> []
      \<longleftrightarrow> (\<exists>fd. sock = Sys_ok fd)
        \<and> (\<not> pton host \<or> (\<exists>m k x. b = Sys_ok m \<and> l = Sys_ok k \<and> set_nonblocking g f = Inl x)))
   \<and> (fst (open_backing_file op st) = Inr (fd, sz) \<longrightarrow> fst lr = Inl e \<longrightarrow>
        run_server_open op st lr = (Inl e, fd # snd lr))"
  by (auto simp: open_backing_file_def open_listen_socket_def run_server_open_def
      split: sys_result.splits sum.splits)

end
