(* ===== verification/Uring_Accept.thy ===== *)
theory Uring_Accept
  imports Uring_Queue Server
begin

text \<open>
  The accept loop of \<open>server/server.cpp\<close> on the io_uring backend: an accept is a
  submission entry, then an operation of the kernel, then a completion that resumes the loop,
  which queues the next one. As in \<open>Uring_Queue\<close>, what a submission answers is an input;
  \<open>uq_submitted\<close> holds the entries the kernel works on. The entries that connections queue
  are arbitrary, except that they are not accepts on the listening socket.
\<close>

subsection \<open>Definitions\<close>

text \<open>
  From \<open>co_await queue.accept\<close> to the suspension: \<open>_get_sqe\<close> may throw, and the loop
  tries again unless a shutdown is requested. \<open>ans k\<close> is what the submission of the
  \<open>k\<close>th attempt answers and \<open>shutdown k\<close> the flag after it; the loop may not end,
  which is \<open>None\<close>. The result tells whether an accept was queued.
\<close>

partial_function (option) ua_arm ::
  "fd \<Rightarrow> (nat \<Rightarrow> bool) \<Rightarrow> (nat \<Rightarrow> sys_result) \<Rightarrow> nat \<Rightarrow> server_op uqueue \<Rightarrow> (bool \<times> server_op uqueue) option" where
  "ua_arm lfd shutdown ans i q =
     (case uq_get_sqe (ans i) (uq_accept lfd Accept_op) q of
        (Inr _, q') \<Rightarrow> Some (True, q')
      | (Inl e, q') \<Rightarrow>
          if shutdown i then Some (False, q') else ua_arm lfd shutdown ans (i + 1) q')"

text \<open>Other coroutines queue entries; a failure is theirs to handle.\<close>

definition uq_enqueue :: "(sys_result \<times> 'o sqe) list \<Rightarrow> 'o uqueue \<Rightarrow> 'o uqueue" where
  "uq_enqueue es q = fold (\<lambda>(r, e) q. snd (uq_get_sqe r e q)) es q"

text \<open>
  The completion of an accept with result \<open>res\<close>: an error, or a new connection, which runs
  until it suspends, queueing \<open>conn c\<close>; then the loop goes on.
\<close>

definition ua_on_accept ::
  "fd \<Rightarrow> (nat \<Rightarrow> (sys_result \<times> server_op sqe) list) \<Rightarrow> bool \<Rightarrow> (nat \<Rightarrow> bool) \<Rightarrow> (nat \<Rightarrow> sys_result) \<Rightarrow> int \<Rightarrow>
     server_op uqueue \<Rightarrow> (bool \<times> server_op uqueue) option" where
  "ua_on_accept lfd conn sd shutdown ans res q =
     (case uq_op_result res of
        Inl e \<Rightarrow> if sd then Some (False, q) else ua_arm lfd shutdown ans 0 q
      | Inr c \<Rightarrow> ua_arm lfd shutdown ans 0 (uq_enqueue (conn c) q))"

text \<open>The kernel has completed its \<open>i\<close>th operation.\<close>

definition uq_completed :: "nat \<Rightarrow> 'o uqueue \<Rightarrow> 'o uqueue" where
  "uq_completed i q = q\<lparr>uq_submitted := take i (uq_submitted q) @ drop (Suc i) (uq_submitted q)\<rparr>"

definition is_accept :: "fd \<Rightarrow> 'o sqe \<Rightarrow> bool" where
  "is_accept lfd e \<longleftrightarrow> sqe_op e = Op_accept lfd"

definition no_accepts :: "fd \<Rightarrow> (sys_result \<times> 'o sqe) list \<Rightarrow> bool" where
  "no_accepts lfd es \<longleftrightarrow> list_all (\<lambda>(r, e). \<not> is_accept lfd e) es"

text \<open>
  A worker's steps: \<open>step\<close> submits; the accept completes; another operation completes, whose
  coroutine queues what it needs next. The first component tells whether the loop still runs.
\<close>

inductive ua_step ::
  "fd \<Rightarrow> bool \<times> server_op uqueue \<Rightarrow> bool \<times> server_op uqueue \<Rightarrow> bool" for lfd where
  ua_submit: "ua_step lfd (run, q) (run, uq_submit r q)"
| ua_accept: "i < length (uq_submitted q) \<Longrightarrow> is_accept lfd (uq_submitted q ! i) \<Longrightarrow>
    (\<And>c. no_accepts lfd (conn c)) \<Longrightarrow>
    ua_on_accept lfd conn sd shutdown ans res (uq_completed i q) = Some (run', q') \<Longrightarrow>
    ua_step lfd (run, q) (run', q')"
| ua_other: "i < length (uq_submitted q) \<Longrightarrow> \<not> is_accept lfd (uq_submitted q ! i) \<Longrightarrow> no_accepts lfd es \<Longrightarrow>
    ua_step lfd (run, q) (run, uq_enqueue es (uq_completed i q))"

text \<open>The accepts queued or in progress.\<close>

definition ua_accepts :: "fd \<Rightarrow> 'o uqueue \<Rightarrow> nat" where
  "ua_accepts lfd q = length (filter (is_accept lfd) (uq_queued q))"

definition ua_inv :: "fd \<Rightarrow> bool \<times> server_op uqueue \<Rightarrow> bool" where
  "ua_inv lfd s \<longleftrightarrow> ua_accepts lfd (snd s) = (if fst s then 1 else 0)
     \<and> uq_ok (snd s) \<and> 0 < uq_depth (snd s)"

subsection \<open>One accept at a time\<close>

lemma uq_get_sqe_effect:
  assumes "uq_get_sqe r e q = (res, q')" and "uq_ok q"
  shows "uq_queued q' = uq_queued q @ (case res of Inl _ \<Rightarrow> [] | Inr _ \<Rightarrow> [e])"
    and "uq_ok q'" and "uq_depth q' = uq_depth q"
  using assms
  by (auto simp: uq_get_sqe_def uq_submit_def uq_queued_def uq_ok_def Let_def split: sys_result.splits if_splits)

lemma uq_enqueue_effect:
  assumes "no_accepts lfd es" and "uq_ok q"
  shows "ua_accepts lfd (uq_enqueue es q) = ua_accepts lfd q \<and> uq_ok (uq_enqueue es q)
    \<and> uq_depth (uq_enqueue es q) = uq_depth q"
  using assms
proof (induction es arbitrary: q)
  case (Cons x es)
  obtain r e where x: "x = (r, e)" by fastforce
  obtain res q' where g: "uq_get_sqe r e q = (res, q')" by fastforce
  note g' = uq_get_sqe_effect [OF g Cons.prems(2)]
  have "ua_accepts lfd q' = ua_accepts lfd q"
    using g'(1) Cons.prems(1) x by (simp add: ua_accepts_def no_accepts_def split: sum.splits)
  with Cons.IH [of q'] Cons.prems(1) g g' x show ?case by (simp add: uq_enqueue_def no_accepts_def)
qed (simp add: uq_enqueue_def)

lemma ua_arm_effect:
  assumes "ua_arm lfd shutdown ans i q = Some (run, q')"
  shows "uq_ok q \<Longrightarrow> ua_accepts lfd q' = ua_accepts lfd q + (if run then 1 else 0)
      \<and> uq_ok q' \<and> uq_depth q' = uq_depth q \<and> (\<not> run \<longrightarrow> (\<exists>k. shutdown k))"
proof -
  let ?P = "\<lambda>lfd shutdown ans i q y. uq_ok q \<longrightarrow>
      ua_accepts lfd (snd y) = ua_accepts lfd q + (if fst y then 1 else 0)
      \<and> uq_ok (snd y) \<and> uq_depth (snd y) = uq_depth q \<and> (\<not> fst y \<longrightarrow> (\<exists>k. shutdown k))"
  have "?P lfd shutdown ans i q (run, q')"
  proof (rule ua_arm.raw_induct [where P = ?P, OF _ assms], rule impI)
    fix f lfd shutdown ans i q and y :: "bool \<times> server_op uqueue"
    assume IH: "\<And>lfd shutdown ans i q y. f lfd shutdown ans i q = Some y \<Longrightarrow> ?P lfd shutdown ans i q y"
      and run: "(case uq_get_sqe (ans i) (uq_accept lfd Accept_op) q of
            (Inr _, q') \<Rightarrow> Some (True, q')
          | (Inl e, q') \<Rightarrow> if shutdown i then Some (False, q') else f lfd shutdown ans (i + 1) q') = Some y"
      and ok: "uq_ok q"
    obtain res q1 where g: "uq_get_sqe (ans i) (uq_accept lfd Accept_op) q = (res, q1)" by fastforce
    note g' = uq_get_sqe_effect [OF g ok]
    have acc: "ua_accepts lfd q1 = ua_accepts lfd q + (case res of Inl _ \<Rightarrow> 0 | Inr _ \<Rightarrow> 1)"
      using g'(1) by (simp add: ua_accepts_def uq_accept_def is_accept_def split: sum.splits)
    show "ua_accepts lfd (snd y) = ua_accepts lfd q + (if fst y then 1 else 0)
      \<and> uq_ok (snd y) \<and> uq_depth (snd y) = uq_depth q \<and> (\<not> fst y \<longrightarrow> (\<exists>k. shutdown k))"
      using run g g' acc IH [of lfd shutdown ans "i + 1" q1 y]
      by (auto split: sum.splits if_splits)
  qed
  then show "uq_ok q \<Longrightarrow> ua_accepts lfd q' = ua_accepts lfd q + (if run then 1 else 0)
      \<and> uq_ok q' \<and> uq_depth q' = uq_depth q \<and> (\<not> run \<longrightarrow> (\<exists>k. shutdown k))" by simp
qed

lemma uq_completed_effect:
  assumes "i < length (uq_submitted q)"
  shows "ua_accepts lfd q = ua_accepts lfd (uq_completed i q) + (if is_accept lfd (uq_submitted q ! i) then 1 else 0)"
    and "uq_ok (uq_completed i q) = uq_ok q" and "uq_depth (uq_completed i q) = uq_depth q"
proof -
  have "filter (is_accept lfd) (uq_submitted q) = filter (is_accept lfd) (take i (uq_submitted q))
      @ (if is_accept lfd (uq_submitted q ! i) then [uq_submitted q ! i] else [])
      @ filter (is_accept lfd) (drop (Suc i) (uq_submitted q))"
    by (subst id_take_nth_drop [OF assms]) simp
  then show "ua_accepts lfd q
      = ua_accepts lfd (uq_completed i q) + (if is_accept lfd (uq_submitted q ! i) then 1 else 0)"
    by (simp add: ua_accepts_def uq_queued_def uq_completed_def)
qed (simp_all add: uq_ok_def uq_completed_def)

lemma ua_on_accept_effect:
  assumes "ua_on_accept lfd conn sd shutdown ans res q = Some (run, q')"
    and "\<And>c. no_accepts lfd (conn c)" and "uq_ok q"
  shows "ua_accepts lfd q' = ua_accepts lfd q + (if run then 1 else 0)"
    and "uq_ok q'" and "uq_depth q' = uq_depth q" and "\<not> run \<longrightarrow> sd \<or> (\<exists>k. shutdown k)"
proof -
  have "ua_accepts lfd q' = ua_accepts lfd q + (if run then 1 else 0) \<and> uq_ok q' \<and> uq_depth q' = uq_depth q
      \<and> (\<not> run \<longrightarrow> sd \<or> (\<exists>k. shutdown k))"
  proof (cases "uq_op_result res")
    case (Inl e)
    with assms(1,3) ua_arm_effect [of lfd shutdown ans 0 q run q'] show ?thesis
      by (auto simp: ua_on_accept_def split: if_splits)
  next
    case (Inr c)
    with assms(1) have "ua_arm lfd shutdown ans 0 (uq_enqueue (conn c) q) = Some (run, q')"
      by (simp add: ua_on_accept_def)
    from ua_arm_effect [OF this] uq_enqueue_effect [OF assms(2,3)] show ?thesis by simp
  qed
  then show "ua_accepts lfd q' = ua_accepts lfd q + (if run then 1 else 0)"
    "uq_ok q'" "uq_depth q' = uq_depth q" "\<not> run \<longrightarrow> sd \<or> (\<exists>k. shutdown k)" by blast+
qed

lemma ua_step_inv: "ua_step lfd s s' \<Longrightarrow> ua_inv lfd s \<Longrightarrow> ua_inv lfd s'"
proof (induction rule: ua_step.induct)
  case (ua_submit run q r)
  have "uq_ok q \<longrightarrow> uq_ok (uq_submit r q)" "uq_depth (uq_submit r q) = uq_depth q"
    by (auto simp: uq_ok_def uq_submit_def split: sys_result.split)
  with ua_submit show ?case by (simp add: ua_inv_def ua_accepts_def uq_submit_queued)
next
  case (ua_accept i q conn sd shutdown ans res run' q' run)
  note c = uq_completed_effect [OF ua_accept.hyps(1)]
  have ok: "uq_ok (uq_completed i q)" using ua_accept.prems c(2) by (simp add: ua_inv_def)
  have "ua_accepts lfd (uq_completed i q) = 0"
    using ua_accept.prems ua_accept.hyps(2) c(1) [of lfd] by (auto simp: ua_inv_def split: if_splits)
  with ua_on_accept_effect [OF ua_accept.hyps(4,3) ok] ua_accept.prems c(3) show ?case
    by (simp add: ua_inv_def)
next
  case (ua_other i q es run)
  note c = uq_completed_effect [OF ua_other.hyps(1)]
  have "uq_ok (uq_completed i q)" using ua_other.prems c(2) by (simp add: ua_inv_def)
  from uq_enqueue_effect [OF ua_other.hyps(3) this] ua_other.prems ua_other.hyps(2) c(1) [of lfd] c(3)
  show ?case by (simp add: ua_inv_def)
qed

lemma ua_steps_inv:
  assumes "(ua_step lfd)\<^sup>*\<^sup>* s s'" and "ua_inv lfd s"
  shows "ua_inv lfd s'"
  using assms by (induction rule: rtranclp_induct) (auto intro: ua_step_inv)

subsection \<open>When the loop comes back\<close>

text \<open>Each failed attempt leaves a full ring, and the attempt whose submission frees an entry succeeds.\<close>

lemma ua_arm_returns:
  assumes "ans (i + n) = Sys_ok (Suc m)" and "uq_ok q" and "0 < uq_depth q"
  shows "\<exists>y. ua_arm lfd shutdown ans i q = Some y"
  using assms
proof (induction n arbitrary: i q)
  case 0
  then have "\<exists>q'. uq_get_sqe (ans i) (uq_accept lfd Accept_op) q = (Inr (), q')"
    by (auto simp: uq_get_sqe_def uq_submit_def Let_def uq_ok_def)
  then show ?case by (subst ua_arm.simps) auto
next
  case (Suc n)
  obtain res q' where g: "uq_get_sqe (ans i) (uq_accept lfd Accept_op) q = (res, q')" by fastforce
  have "\<exists>y. ua_arm lfd shutdown ans (Suc i) q' = Some y"
    by (rule Suc.IH) (use Suc.prems uq_get_sqe_effect [OF g] in auto)
  with g show ?case by (subst ua_arm.simps) (auto split: sum.split)
qed

lemma ua_arm_spins:
  assumes "\<And>k. ans k = Sys_errno e" and "length (uq_sq q) = uq_depth q"
  shows "ua_arm lfd (\<lambda>_. False) ans i q = None"
proof (rule ccontr)
  let ?P = "\<lambda>lfd shutdown ans (i :: nat) q y. (\<forall>k. ans k = Sys_errno e) \<longrightarrow>
    length (uq_sq q) = uq_depth q \<longrightarrow> (\<exists>k :: nat. shutdown k)"
  assume "ua_arm lfd (\<lambda>_. False) ans i q \<noteq> None"
  then obtain y where y: "ua_arm lfd (\<lambda>_. False) ans i q = Some y" by blast
  have "?P lfd (\<lambda>_. False) ans i q y"
    by (rule ua_arm.raw_induct [where P = ?P, OF _ y]) (auto simp: uq_get_sqe_def split: if_splits)
  with assms show False by simp
qed

subsection \<open>Properties\<close>

text \<open>
  C23. On the io_uring backend a worker has exactly one accept outstanding, queued or in
  progress, as long as its accept loop runs, however completions, submissions and the work of
  the connections interleave and whatever fails; the loop ends only when it reads the shutdown
  flag as set. After a completion of the accept it comes back whenever some submission takes
  an entry, and never while the ring is full and every submission is refused.
\<close>

theorem uring_accept_outstanding:
  assumes "ua_arm lfd shutdown ans 0 q0 = Some s0" and "uq_queued q0 = []" and "0 < uq_depth q0"
    and "(ua_step lfd)\<^sup>*\<^sup>* s0 (run, q)"
  shows "ua_accepts lfd q = (if run then 1 else 0)
    \<and> (ua_on_accept lfd conn sd shutdown' ans' res q = Some (False, q') \<longrightarrow>
        (\<forall>c. no_accepts lfd (conn c)) \<longrightarrow> sd \<or> (\<exists>k. shutdown' k))
    \<and> (ans' n = Sys_ok (Suc m) \<longrightarrow> (\<exists>y. ua_arm lfd shutdown' ans' 0 q = Some y))
    \<and> (length (uq_sq q) = uq_depth q \<longrightarrow> ua_arm lfd (\<lambda>_. False) (\<lambda>_. Sys_errno e) 0 q = None)"
proof -
  have q0: "uq_ok q0" "ua_accepts lfd q0 = 0"
    using assms(2) by (simp_all add: uq_queued_def uq_ok_def ua_accepts_def)
  obtain run0 q1 where s0: "s0 = (run0, q1)" by fastforce
  have "ua_inv lfd s0"
    using ua_arm_effect [OF assms(1) [unfolded s0]] q0 assms(3) by (simp add: s0 ua_inv_def)
  from ua_steps_inv [OF assms(4) this] have inv: "ua_inv lfd (run, q)" .
  then have ok: "uq_ok q" "0 < uq_depth q" by (simp_all add: ua_inv_def)
  show ?thesis
    using inv ua_on_accept_effect(4) [of lfd conn sd shutdown' ans' res q False q'] ok
      ua_arm_returns [of ans' 0 n m, OF _ ok] ua_arm_spins [of "\<lambda>_. Sys_errno e" e q lfd 0]
    by (auto simp: ua_inv_def)
qed

text \<open>A worker whose first accept was submitted and fails with \<open>ECONNABORTED\<close> (103).\<close>

theorem uring_accept_outstanding_witness:
  "\<exists>s0 q. ua_arm 3 (\<lambda>_. False) (\<lambda>_. Sys_ok 1) 0
      \<lparr>uq_depth = 1, uq_sq = [], uq_submitted = [], uq_registered_fd = -1\<rparr> = Some s0
    \<and> (ua_step 3)\<^sup>*\<^sup>* s0 (True, q) \<and> ua_accepts 3 q = 1"
proof -
  let ?q = "\<lambda>sq sub. \<lparr>uq_depth = 1, uq_sq = sq, uq_submitted = sub, uq_registered_fd = -1\<rparr> :: server_op uqueue"
  let ?a = "uq_accept 3 Accept_op"
  have arm: "ua_arm 3 (\<lambda>_. False) (\<lambda>_. Sys_ok 1) 0 (?q [] []) = Some (True, ?q [?a] [])"
    by (subst ua_arm.simps) (simp add: uq_get_sqe_def)
  have 1: "ua_step 3 (True, ?q [?a] []) (True, ?q [] [?a])"
    using ua_submit [of 3 True "?q [?a] []" "Sys_ok 1"] by (simp add: uq_submit_def)
  have "ua_on_accept 3 (\<lambda>_. []) False (\<lambda>_. False) (\<lambda>_. Sys_ok 1) (- 103) (uq_completed 0 (?q [] [?a]))
      = Some (True, ?q [?a] [])"
    using arm by (simp add: ua_on_accept_def uq_op_result_def uq_completed_def)
  then have 2: "ua_step 3 (True, ?q [] [?a]) (True, ?q [?a] [])"
    by (rule ua_accept [rotated 3]) (simp_all add: is_accept_def uq_accept_def no_accepts_def)
  from 1 2 have r: "(ua_step 3)\<^sup>*\<^sup>* (True, ?q [?a] []) (True, ?q [?a] [])" by (meson rtranclp.simps)
  from uring_accept_outstanding [OF arm _ _ r] have "ua_accepts 3 (?q [?a] []) = 1"
    by (simp add: uq_queued_def)
  with arm r show ?thesis by blast
qed

end
