(* ===== verification/Spec2Isabelle.thy ===== *)
theory Spec2Isabelle
  imports Next_Chunk Libc_Stream_Life Mutex Wait_Group Libc_Queue Uring_Queue Uring_Sink
    Uring_Buffer Aligned_Buffer Task_Handle Spawned Durability Server_Main Uring_Accept
begin

text \<open>
  \<^bold>\<open>easybd\<close> serves a file or block device over TCP. A client (\<open>client/\<close>) sends
  read and write requests with a client-chosen id (cid), pipelined on one connection; the
  server (\<open>server/\<close>) runs a handler coroutine per request and answers in any order. Both
  sit on a small coroutine library (\<open>easyio/\<close>) with two interchangeable backends, libc
  (\<open>poll\<close> and non-blocking calls) and io_uring.

  \<^bold>\<open>Conventions.\<close> A coroutine is modelled by what it does between its suspension
  points: straight-line code that cannot be interleaved is a function (\<open>None\<close>: it waits
  for something that does not come), code that can is a step relation or a function of the
  events that drive it. System calls, liburing, the kernel's answers and \<open>getopt_long\<close>
  are inputs: lists of results, oracles, or arbitrary arguments of a step. Exceptions are
  values of \<open>exn\<close>; errnos are ints; fixed-width fields are words. History that the code
  does not keep (what was received, issued, answered) is in ghost fields, named as such in
  their theories.

  \<^bold>\<open>Theories and sources.\<close>
  \<^item> \<open>Prelude\<close>: types, errnos, exceptions, list lemmas.
  \<^item> \<open>Protocol\<close> (\<open>include/easybd/protocol.h\<close>): the packed headers in either byte order.
  \<^item> \<open>Recv_Stream\<close> (\<open>easyio/recv_stream.hpp\<close>): chunks and the locale
    \<open>recv_stream\<close>, what \<open>next_batch\<close> promises. \<open>Framed_Reader\<close>
    (\<open>framed_reader.cpp\<close>): \<open>read_exact\<close> and \<open>read_exact_into\<close> over that
    contract. Three theories discharge the contract: \<open>Libc_Recv_Stream\<close>
    (\<open>libc_recv_stream.cpp\<close>, the slot ring), \<open>Uring_Recv_Stream\<close> and
    \<open>Uring_Single_Shot\<close> (\<open>uring_recv_stream.cpp\<close>, multishot with provided buffers,
    and one receive at a time). \<open>Next_Chunk\<close> adds \<open>next\<close>, one chunk at a time, to the
    contract and to the three streams. \<open>Libc_Stream_Life\<close>: the libc stream as an operation
    of the poll queue, from construction to destruction. \<open>Uring_Sink\<close>: the lifetime of the completion targets of
    the same file, with submissions and cancellations that fail; \<open>Uring_Buffer\<close>: the
    memory behind them, one mapping for the ring and its buffers, and what
    \<open>make_recv_stream\<close>, constructors and destructors acquire and release.
  \<^item> \<open>Send_All\<close> (\<open>queue.cpp\<close>): \<open>send_all\<close> over the locale \<open>byte_sink\<close>, which
    \<open>Libc_Ops\<close> (awaiters of \<open>libc_queue.cpp\<close>) and \<open>Uring_Queue\<close>
    (\<open>uring_queue.cpp\<close>) interpret.
  \<^item> \<open>Libc_Queue\<close> (\<open>libc_queue.cpp\<close>): the table of registered operations,
    \<open>step\<close>, \<open>cancel_fd\<close>, the destructor; the locale \<open>fd_reactor\<close> says what a
    reentrant operation may do.
  \<^item> \<open>Mutex\<close>, \<open>Wait_Group\<close> (\<open>mutex.hpp\<close>, \<open>wait_group.hpp\<close>), the former with
    the locale \<open>fifo_lock\<close>. \<open>Serial_Send\<close>: the pattern of the handlers and of the
    client's requests, a whole message sent under the mutex, as interleaved steps.
  \<^item> \<open>Task\<close> (\<open>task.hpp\<close>): coroutine frames, promises and \<open>spawn\<close> as a machine
    over a heap of frames, against direct-style calls. \<open>Spawned\<close>: the control flow of the
    coroutines that \<open>server.cpp\<close>, \<open>session.cpp\<close> and \<open>client.cpp\<close> spawn, as
    bodies for that machine.
  \<^item> \<open>Ownership\<close>: the contract of the move-only classes, as a specification and the locale
    \<open>single_owner\<close> of its refinements; \<open>Aligned_Buffer\<close>
    (\<open>server/aligned_buffer.hpp\<close>) and \<open>Task_Handle\<close> (the class \<open>Task\<close>) interpret it.
  \<^item> \<open>Session\<close> and \<open>Connection\<close> (\<open>server/session.cpp\<close>): the reader of a
    connection, and its handlers as interleaved steps over \<open>Serial_Send\<close> and the wait group.
  \<^item> \<open>Client\<close> and \<open>Client_Send\<close> (\<open>client/client.cpp\<close>): the bookkeeping and the
    response reader; the senders over \<open>Serial_Send\<close> and the destructor.
    \<open>Queue_Api\<close> (\<open>client/capi.cpp\<close>, the constructor of \<open>Client\<close>, backend
    selection).
  \<^item> \<open>System\<close>: client and connection together, each reading what the other sends, with
    the backing file between them. \<open>Cluster\<close>: any number of clients, each with its
    connection, on one file. \<open>Block_Device\<close>: \<open>pread\<close> and \<open>pwrite\<close> on a file of
    bytes, and what clients are promised of them; \<open>Durability\<close>: contents and stable
    storage, for clients with \<open>sync_writes\<close>.
  \<^item> \<open>Server_Main\<close> (\<open>server/main.cpp\<close>) and \<open>Server\<close> (\<open>server/server.cpp\<close>):
    the command line; opening, the accept loop (which interprets \<open>fd_reactor\<close>), workers,
    threads that cannot be started, and shutdown. \<open>Uring_Accept\<close>: the accept loop on the
    io_uring backend.
  \<^item> This theory puts a connection together from a stream, the framed reader and the
    session or client loop, for each backend.

  \<^bold>\<open>What is shown.\<close>
  \<^item> Bytes: every stream hands out exactly the received bytes under every interleaving,
    buffers and slots have one owner, and framed reads return exactly the frames
    (\<open>libc_reads_frames\<close>, \<open>uring_reads_frames\<close>, \<open>single_shot_reads_frames\<close> and
    the interleaving theorems); hence backends are interchangeable
    (\<open>backend_independent\<close>). \<open>send_all\<close> sends exactly its bytes.
  \<^item> Messages: the server sees the requests sent (\<open>server_reads_requests\<close>), enforces its
    limits (\<open>oversized_requests\<close>), its responses never interleave, the connection outlives
    its handlers; the client reads the answers (\<open>client_reads_answers\<close>) and completes every
    request at most once (\<open>requests_complete_once\<close>); requests go out whole and in order
    (\<open>requests_sent_in_order\<close>).
  \<^item> The whole: from \<open>pread\<close> and \<open>pwrite\<close> to the file and back to the callback, every
    run without a failed send is linearizable (\<open>system_linearizable\<close>) and a read's buffer
    holds what its operation on the file returned (\<open>system_read_data\<close>). With any number of
    clients, histories are linearizable as a whole (\<open>clients_linearizable\<close>), and a byte
    written is the byte read later by any client (\<open>read_after_write\<close>) and, with
    \<open>sync_writes\<close>, survives a crash (\<open>sync_writes_durable\<close>).
  \<^item> Coroutines: awaiting is calling, frames do not leak (\<open>tasks_are_calls\<close>,
    \<open>frames_are_freed\<close>), and no exception leaves a spawned coroutine
    (\<open>spawned_tasks_never_terminate\<close>).
  \<^item> Registrations and lifetimes: an operation registered anew is never lost, hence a worker
    keeps accepting, on either backend (\<open>accept_stays_registered\<close>,
    \<open>uring_accept_outstanding\<close>); receive sinks are freed once and not too early, and so
    are buffers and coroutine frames however their owners are moved about
    (\<open>aligned_buffers_freed_once\<close>, \<open>task_frames_single_owner\<close>); the poll queue never
    calls a destroyed stream (\<open>libc_stream_lifetime\<close>); shutdown closes the
    descriptors last and terminates.
  \<^item> Where the code misses its documentation or its own practice, the exact condition:
    \<open>late_request_never_completes\<close>, \<open>read_body_lands\<close>,
    \<open>destructor_walks_erased_entry\<close>, \<open>open_listen_socket_leak\<close>,
    \<open>client_constructor_leak\<close>, \<open>recv_sink_constructor_leak\<close>,
    \<open>buffer_group_ids_wrap\<close>, \<open>failed_send_not_final\<close>,
    \<open>client_destructor_leaves_senders\<close>, \<open>reader_loop_stream_failure\<close>,
    \<open>accept_loop_spins\<close>, \<open>resubmit_failure_terminates\<close>.

  \<^bold>\<open>Bounds.\<close> No model has fuel. The loops whose end depends on the environment are
  \<open>partial_function (option)\<close>, with theorems that they return; \<open>session_run\<close> and
  \<open>client_run\<close> take the number of turns of an endless loop. The registration generation is
  a 64-bit word (fewer than \<open>2 ^ 64\<close> registrations within one completion), as is the cid
  (fewer than \<open>2 ^ 64\<close> requests per connection); the multishot ring has at most 32768
  buffers, the kernel's own limit.

  \<^bold>\<open>Not modelled.\<close> Log output, the usage text and the addresses that \<open>posix_memalign\<close> returns. The
  operations that a new connection makes on its worker's queue are a parameter of the accept
  loop. In \<open>System\<close> and \<open>Cluster\<close> the kernel's
  effect on the file is the parameter \<open>exec\<close>, any relation; \<open>Block_Device\<close> asks of it what
  POSIX says (\<open>dev_exec\<close>), \<open>Durability\<close> also what \<open>RWF_DSYNC\<close> says (\<open>store_exec\<close>). What remains of the sources is declarations,
  comments and, in \<open>queue.hpp\<close>, an abstract class whose operations are modelled per
  backend.
\<close>

section \<open>The server and the client over every receive stream\<close>

text \<open>A fresh stream of each kind, with the reader's empty leftover buffer.\<close>

lemmas fresh_reader = reader_inv_def leftover_def empty_reader_def

lemma libc_fresh:
  assumes "0 < n" and "list_all (recv_ok es) rs"
  shows "lr_stream_inv (lr_create es n rs)" and "lr_incoming (lr_create es n rs) = recv_bytes rs"
    and "lr_outcome (lr_create es n rs) = recv_end rs"
proof -
  obtain s rs' where c: "lr_create es n rs = (s, rs')" by fastforce
  show "lr_stream_inv (lr_create es n rs)" "lr_incoming (lr_create es n rs) = recv_bytes rs"
    "lr_outcome (lr_create es n rs) = recv_end rs"
    using lr_create_inv [OF assms c] c by simp_all
qed

lemma uring_fresh:
  assumes "0 < n" and "n \<le> 32768" and "list_all (sock_ok es) its"
  shows "ur_stream_inv (ur_create es n, its)"
  using assms by (simp add: ur_stream_inv_def ur_inv_create)

lemma single_shot_fresh:
  assumes "list_all (ss_sock_ok es) its"
  shows "ss_stream_inv (ss_create es, its)" and "ss_incoming (ss_create es, its) = sock_bytes its"
    and "ss_outcome (ss_create es, its) = sock_end its"
  using assms ss_inv_create [of es]
  by (simp_all add: ss_stream_inv_def ss_incoming_def ss_outcome_def ss_ended_def ss_create_def ss_submit_recv_def)

lemma libc_session:
  assumes "0 < n" and "list_all (recv_ok es) rs"
  shows "session_run lr_next_batch bo alloc k (empty_reader, lr_create es n rs)
    = spec_run bo alloc k (recv_bytes rs) (recv_end rs)"
  using recv_stream.session_run_spec [OF libc.recv_stream_axioms, of "lr_create es n rs" empty_reader] libc_fresh [OF assms]
  by (simp add: fresh_reader)

lemma uring_session:
  assumes "0 < n" and "n \<le> 32768" and "list_all (sock_ok es) its"
  shows "session_run ur_next_batch bo alloc k (empty_reader, ur_create es n, its)
    = spec_run bo alloc k (sock_bytes its) (sock_end its)"
  using recv_stream.session_run_spec [OF uring.recv_stream_axioms, of "(ur_create es n, its)" empty_reader] uring_fresh [OF assms] assms
  by (simp add: fresh_reader ur_inv_create)

lemma single_shot_session:
  assumes "list_all (ss_sock_ok es) its"
  shows "session_run ss_next_batch bo alloc k (empty_reader, ss_create es, its)
    = spec_run bo alloc k (sock_bytes its) (sock_end its)"
  using recv_stream.session_run_spec [OF single_shot.recv_stream_axioms, of "(ss_create es, its)" empty_reader] single_shot_fresh [OF assms]
  by (simp add: fresh_reader)

lemma libc_client:
  assumes "0 < n" and "list_all (recv_ok es) rs"
  shows "client_run lr_next_batch bo pend k (empty_reader, lr_create es n rs)
    = spec_client_run bo pend k (recv_bytes rs) (recv_end rs)"
  using recv_stream.client_run_spec [OF libc.recv_stream_axioms, of "lr_create es n rs" empty_reader] libc_fresh [OF assms]
  by (simp add: fresh_reader)

lemma uring_client:
  assumes "0 < n" and "n \<le> 32768" and "list_all (sock_ok es) its"
  shows "client_run ur_next_batch bo pend k (empty_reader, ur_create es n, its)
    = spec_client_run bo pend k (sock_bytes its) (sock_end its)"
  using recv_stream.client_run_spec [OF uring.recv_stream_axioms, of "(ur_create es n, its)" empty_reader] uring_fresh [OF assms] assms
  by (simp add: fresh_reader ur_inv_create)

lemma single_shot_client:
  assumes "list_all (ss_sock_ok es) its"
  shows "client_run ss_next_batch bo pend k (empty_reader, ss_create es, its)
    = spec_client_run bo pend k (sock_bytes its) (sock_end its)"
  using recv_stream.client_run_spec [OF single_shot.recv_stream_axioms, of "(ss_create es, its)" empty_reader] single_shot_fresh [OF assms]
  by (simp add: fresh_reader)

text \<open>The sizes of the program are sizes the streams work with.\<close>

lemma recv_sizes: "0 < kRecvEntries" "kRecvEntries \<le> 32768" "0 < client_kRecvEntries" "client_kRecvEntries \<le> 32768"
  by (simp_all add: kRecvEntries_def client_kRecvEntries_def)

text \<open>
  \<open>Queue::recv_stream\<close> makes one of three streams, by the backend and the
  \<open>multishot\<close> flag; a connection is what its socket will deliver to that stream.
\<close>

datatype wire = Libc_wire "recv_result list" | Multishot_wire "sock_item list" | Single_shot_wire "sock_item list"

fun wire_ok :: "wire \<Rightarrow> bool" where
  "wire_ok (Libc_wire rs) \<longleftrightarrow> list_all (recv_ok kRecvEntrySize) rs"
| "wire_ok (Multishot_wire its) \<longleftrightarrow> list_all (sock_ok kRecvEntrySize) its"
| "wire_ok (Single_shot_wire its) \<longleftrightarrow> list_all (ss_sock_ok kRecvEntrySize) its"

fun wire_bytes :: "wire \<Rightarrow> byte list" where
  "wire_bytes (Libc_wire rs) = recv_bytes rs"
| "wire_bytes (Multishot_wire its) = sock_bytes its"
| "wire_bytes (Single_shot_wire its) = sock_bytes its"

fun wire_end :: "wire \<Rightarrow> stream_end option" where
  "wire_end (Libc_wire rs) = recv_end rs"
| "wire_end (Multishot_wire its) = sock_end its"
| "wire_end (Single_shot_wire its) = sock_end its"

text \<open>The first \<open>k\<close> turns of the loop of \<open>handle_connection\<close> and of \<open>reader_loop\<close>.\<close>

fun handle_connection :: "byte_order \<Rightarrow> (nat \<Rightarrow> bool) \<Rightarrow> nat \<Rightarrow> wire \<Rightarrow> request list \<times> loop_state" where
  "handle_connection bo alloc k (Libc_wire rs) =
     session_run lr_next_batch bo alloc k (empty_reader, lr_create kRecvEntrySize kRecvEntries rs)"
| "handle_connection bo alloc k (Multishot_wire its) =
     session_run ur_next_batch bo alloc k (empty_reader, ur_create kRecvEntrySize kRecvEntries, its)"
| "handle_connection bo alloc k (Single_shot_wire its) =
     session_run ss_next_batch bo alloc k (empty_reader, ss_create kRecvEntrySize, its)"

fun reader_loop ::
  "byte_order \<Rightarrow> (u64 \<rightharpoonup> 'u pending) \<Rightarrow> nat \<Rightarrow> wire \<Rightarrow>
     (EasyBDResponseHeader \<times> byte list) list \<times> loop_state" where
  "reader_loop bo pend k (Libc_wire rs) =
     client_run lr_next_batch bo pend k (empty_reader, lr_create kRecvEntrySize client_kRecvEntries rs)"
| "reader_loop bo pend k (Multishot_wire its) =
     client_run ur_next_batch bo pend k (empty_reader, ur_create kRecvEntrySize client_kRecvEntries, its)"
| "reader_loop bo pend k (Single_shot_wire its) =
     client_run ss_next_batch bo pend k (empty_reader, ss_create kRecvEntrySize, its)"

lemma handle_connection_spec:
  "wire_ok w \<Longrightarrow> handle_connection bo alloc k w = spec_run bo alloc k (wire_bytes w) (wire_end w)"
  by (cases w) (simp_all add: libc_session uring_session single_shot_session recv_sizes)

lemma reader_loop_spec:
  "wire_ok w \<Longrightarrow> reader_loop bo pend k w = spec_client_run bo pend k (wire_bytes w) (wire_end w)"
  by (cases w) (simp_all add: libc_client uring_client single_shot_client recv_sizes)

section \<open>Properties\<close>

text \<open>
  C1. The server sees the requests that were sent, on every backend: however the transport
  cuts the bytes of a sequence of well-formed requests into receives, completions, re-armed
  receives and retries, the loop of \<open>handle_connection\<close> spawns exactly the handlers of
  these requests, in order, with the offsets, sizes, payloads and durability asked for, and
  is ready for the next one.
\<close>

theorem server_reads_requests:
  assumes "wire_ok w" and "list_all (message_ok alloc) ms"
    and "wire_bytes w = concat (map (message_bytes bo) ms) @ rest"
  shows "handle_connection bo alloc (length ms) w = (map message_request ms, Going)"
  using handle_connection_spec [OF assms(1)] spec_run_messages [OF assms(2)] assms(3) by simp

theorem server_reads_requests_witness:
  "handle_connection Little_endian (\<lambda>_. True) 1
     (Multishot_wire [Sock_data (take 9 (message_bytes Little_endian
          (\<lparr>rq_cid = 7, rq_offset = 512, rq_size = 2, rq_op = EASYBD_OP_WRITE\<rparr>, [1, 2]))) True,
        Sock_data (drop 9 (message_bytes Little_endian
          (\<lparr>rq_cid = 7, rq_offset = 512, rq_size = 2, rq_op = EASYBD_OP_WRITE\<rparr>, [1, 2]))) False])
   = ([message_request (\<lparr>rq_cid = 7, rq_offset = 512, rq_size = 2, rq_op = EASYBD_OP_WRITE\<rparr>, [1, 2])], Going)"
proof -
  let ?m = "(\<lparr>rq_cid = 7, rq_offset = 512, rq_size = 2, rq_op = EASYBD_OP_WRITE\<rparr>, [1, 2 :: byte])"
  let ?b = "message_bytes Little_endian ?m"
  have len: "length ?b = 27" by (simp add: message_bytes_def sizeof_EasyBDRequestHeader_def)
  have "wire_ok (Multishot_wire [Sock_data (take 9 ?b) True, Sock_data (drop 9 ?b) False])"
    by (auto simp: kRecvEntrySize_def len simp flip: length_greater_0_conv)
  moreover have "message_ok (\<lambda>_. True) ?m"
    by (simp add: message_ok_def request_payload_len_def is_write_op_def EASYBD_MAX_PAYLOAD_SIZE_def)
  ultimately show ?thesis
    using server_reads_requests [of "Multishot_wire [Sock_data (take 9 ?b) True, Sock_data (drop 9 ?b) False]"
        "\<lambda>_. True" "[?m]" Little_endian "[]"]
    by (simp del: handle_connection.simps wire_ok.simps)
qed

text \<open>
  C25. The size limit and the operation code are enforced, on every backend, whatever follows
  the header: an oversized write or an unknown operation spawns nothing and ends the loop with
  its exception; an oversized read is answered with \<open>EMSGSIZE\<close> and the loop goes on.
\<close>

theorem oversized_requests:
  assumes "wire_ok w" and "wire_bytes w = bytes_of_request bo h @ rest"
  shows "(EASYBD_MAX_PAYLOAD_SIZE < rq_size h \<and> is_write_op (rq_op h) \<longrightarrow>
        handle_connection bo alloc (Suc k) w = ([], Ended too_large_exn))
    \<and> (EASYBD_MAX_PAYLOAD_SIZE < rq_size h \<and> rq_op h = EASYBD_OP_READ \<longrightarrow>
        handle_connection bo alloc 1 w = ([Error_req (rq_cid h) EMSGSIZE], Going))
    \<and> (\<not> is_write_op (rq_op h) \<and> rq_op h \<noteq> EASYBD_OP_READ \<longrightarrow>
        handle_connection bo alloc (Suc k) w = ([], Ended invalid_op_exn))"
proof -
  have "spec_read sizeof_EasyBDRequestHeader (wire_bytes w) (wire_end w) = Some (Inr (bytes_of_request bo h, rest))"
    using assms(2) by (simp add: spec_read_append)
  moreover have "\<not> is_write_op EASYBD_OP_READ"
    by (simp add: is_write_op_def EASYBD_OP_WRITE_def EASYBD_OP_WRITE_SYNC_def EASYBD_OP_READ_def)
  ultimately show ?thesis by (auto simp: handle_connection_spec [OF assms(1)] spec_turn_def Let_def)
qed

theorem oversized_requests_witness:
  "handle_connection Big_endian (\<lambda>_. True) 1 (Libc_wire [Recv_bytes (bytes_of_request Big_endian
      \<lparr>rq_cid = 7, rq_offset = 0, rq_size = 4194305, rq_op = EASYBD_OP_READ\<rparr>)])
   = ([Error_req 7 EMSGSIZE], Going)"
  using oversized_requests [of "Libc_wire [Recv_bytes (bytes_of_request Big_endian
      \<lparr>rq_cid = 7, rq_offset = 0, rq_size = 4194305, rq_op = EASYBD_OP_READ\<rparr>)]" Big_endian
      "\<lparr>rq_cid = 7, rq_offset = 0, rq_size = 4194305, rq_op = EASYBD_OP_READ\<rparr>" "[]"]
  by (simp add: kRecvEntrySize_def sizeof_EasyBDRequestHeader_def EASYBD_MAX_PAYLOAD_SIZE_def)



text \<open>
  C8. Answers reach the client: whatever order the handlers of pending requests with distinct
  cids respond in, and however the transport cuts up their messages, the client's
  \<open>reader_loop\<close> reads one response per handler, in that order, with the handler's cid,
  the result of its file operation (a count, or a negative errno) and the data of a read.
\<close>

theorem client_reads_answers:
  assumes "wire_ok w"
    and "list_all (\<lambda>(q, r). result_ok q r \<and> reply_of q r \<noteq> None
      \<and> (\<exists>p. pend (request_cid q) = Some p \<and> pd_is_read p = (\<not> is_write_req q))) ms"
    and "distinct (map (request_cid \<circ> fst) ms)"
    and "wire_bytes w = concat (map (\<lambda>(q, r). the (handler_message bo q r)) ms) @ rest"
  shows "reader_loop bo pend (length ms) w = (map (\<lambda>(q, r). the (reply_of q r)) ms, Going)"
proof -
  let ?rs = "map (\<lambda>(q, r). the (reply_of q r)) ms"
  have "map (\<lambda>(q, r). the (handler_message bo q r)) ms = map (response_bytes bo) ?rs"
    using assms(2) by (auto simp: list_all_iff handler_message_reply option.map_sel)
  with assms(4) have "wire_bytes w = concat (map (response_bytes bo) ?rs) @ rest" by simp
  moreover have "distinct (map (rs_cid \<circ> fst) ?rs)"
    unfolding replies_ok(2) [OF assms(2)] by (rule assms(3))
  ultimately show ?thesis
    using spec_client_run_responses [OF replies_ok(1) [OF assms(2)], of bo rest "wire_end w"]
      reader_loop_spec [OF assms(1), of bo pend "length ms"] by simp
qed

theorem client_reads_answers_witness:
  "reader_loop Little_endian [7 \<mapsto> \<lparr>pd_is_read = True, pd_buf = 0, pd_user = ()\<rparr>] 1
     (Single_shot_wire [Sock_data (the (handler_message Little_endian (Read_req 7 0 4) (Io_ok 2 [5, 6, 0, 0]))) False])
   = ([(\<lparr>rs_cid = 7, rs_res = 2\<rparr>, [5, 6])], Going)"
  using client_reads_answers [of "Single_shot_wire [Sock_data (the (handler_message Little_endian (Read_req 7 0 4)
      (Io_ok 2 [5, 6, 0, 0]))) False]" "[7 \<mapsto> \<lparr>pd_is_read = True, pd_buf = 0, pd_user = ()\<rparr>]"
      "[(Read_req 7 0 4, Io_ok 2 [5, 6, 0, 0])]" Little_endian "[]"]
  by (auto simp: kRecvEntrySize_def handler_message_reply response_bytes_def sizeof_EasyBDResponseHeader_def
      request_cid_def is_write_req_def)

end
